(* ===== verification/SE_Prelude.thy ===== *)
theory SE_Prelude
  imports Main "HOL-Library.Word" "HOL-Library.Sublist"
begin

text \<open>
  Shared vocabulary of the storage engine development: the machine types of the sources
  (\<open>std::byte\<close>, \<open>uint32_t\<close>, \<open>uint64_t\<close>, \<open>int32_t\<close> completion results), the fact
  collections the components fill, and the generic lemmas on lists and words they share.

  A \<open>size_t\<close> that counts elements of a vector or span held in memory is a \<^typ>\<open>nat\<close>:
  such a count is below \<open>2 ^ 63\<close> (\<open>max_size ()\<close>) and the sources only ever add a few
  32-bit quantities to it, so the 64-bit sums do not wrap. Everything the sources cut to a
  fixed width (\<open>static_cast<uint32_t>\<close>, counters, sequence numbers, file offsets) is a word.
\<close>

type_synonym byte = "8 word"
type_synonym bytes = "byte list"
type_synonym u32 = "32 word"
type_synonym u64 = "64 word"

named_theorems codec_simps "fixed-width little-endian encoders and decoders"
named_theorems wal_simps "layout of write-ahead-log records"
named_theorems mem_simps "lookups in the sharded table"
named_theorems eval_simps "kernel evaluation of the executable model on concrete inputs"

unbundle bit_operations_syntax

section \<open>Lists built and patched by counted loops\<close>

lemma fold_snoc_upt:
  "fold (\<lambda>i out. out @ [f i]) [0..<n] out = out @ map f [0..<n]"
  by (induction n) auto

lemma fold_update_upt:
  assumes "off + n \<le> length xs"
  shows "fold (\<lambda>i out. out[off + i := f i]) [0..<n] xs
       = take off xs @ map f [0..<n] @ drop (off + n) xs"
  using assms
proof (induction n)
  case 0
  then show ?case by simp
next
  case (Suc n)
  then have "off + n < length xs" by simp
  then have "drop (off + n) xs = xs ! (off + n) # drop (Suc (off + n)) xs"
    by (rule Cons_nth_drop_Suc [symmetric])
  with Suc show ?case
    by (simp add: list_update_append)
qed

lemma nth_map_upt0: "n < m \<Longrightarrow> map f [0..<m] ! n = f n"
  by simp

lemma length_fold_update [simp]:
  "length (fold (\<lambda>i out. out[g i := f i]) is xs) = length xs"
  by (induction "is" arbitrary: xs) auto

lemma upt_rec4: "[0..<4] = [0, 1, 2, 3 :: nat]"
  by (simp add: upt_rec)

lemma upt_rec8: "[0..<8] = [0, 1, 2, 3, 4, 5, 6, 7 :: nat]"
  by (simp add: upt_rec)

text \<open>Overwriting a range of a file or buffer; a gap before the range reads as zeros.\<close>

definition overwrite :: "bytes \<Rightarrow> nat \<Rightarrow> bytes \<Rightarrow> bytes" where
  "overwrite xs off ys =
     take off xs @ replicate (off - length xs) 0 @ ys @ drop (off + length ys) xs"

lemma take_overwrite [simp]: "off \<le> length xs \<Longrightarrow> take off (overwrite xs off ys) = take off xs"
  by (simp add: overwrite_def)

lemma overwrite_at_end: "length xs = off \<Longrightarrow> overwrite xs off ys = xs @ ys"
  by (simp add: overwrite_def)

lemma overwrite_prefix:
  "off \<le> length xs \<Longrightarrow> take (off + length ys) (overwrite xs off ys) = take off xs @ ys"
  by (simp add: overwrite_def)

lemma strict_prefix_lengthD: "strict_prefix p xs \<Longrightarrow> length p < length xs"
  by (rule prefix_length_less)

section \<open>Words\<close>

lemma unat_of_nat_u32 [simp]: "n < 2 ^ 32 \<Longrightarrow> unat (of_nat n :: u32) = n"
  by (simp add: unat_of_nat take_bit_nat_eq_self)

lemma unat_of_nat_u64 [simp]: "n < 2 ^ 64 \<Longrightarrow> unat (of_nat n :: u64) = n"
  by (simp add: unat_of_nat take_bit_nat_eq_self)

lemma xor_self_cancel: "(a XOR b) XOR b = (a :: 'a::len word)"
  by (rule bit_word_eqI) (auto simp: bit_simps)

lemma xor_right_cancel: "a XOR c = b XOR c \<longleftrightarrow> a = (b :: 'a::len word)"
  by (rule iffI, drule arg_cong [where f = "\<lambda>w. w XOR c"]) (simp_all only: xor_self_cancel)

lemma xor_left_cancel: "c XOR a = c XOR b \<longleftrightarrow> a = (b :: 'a::len word)"
  by (simp only: xor.commute [of c] xor_right_cancel)

lemma xor_eq_0: "a XOR b = 0 \<longleftrightarrow> a = (b :: 'a::len word)"
  using xor_right_cancel [of a b b] by (simp only: xor_self_eq)

end
