(* ===== verification/Byte_Codec.thy ===== *)
theory Byte_Codec
  imports SE_Prelude
begin

text \<open>
  \<open>src/src/common.h\<close>: the little-endian fixed-width encoders and decoders that every WAL
  field goes through, and the clock-difference helper. The loops over the byte index \<open>i\<close>
  are folds over \<open>[0..<4]\<close> and \<open>[0..<8]\<close>; a decoder that returns \<open>false\<close> is \<^const>\<open>None\<close>, one that
  returns \<open>true\<close> gives the value and the advanced offset.
\<close>

unbundle bit_operations_syntax

section \<open>Definitions\<close>

definition appendFixed32LE :: "bytes \<Rightarrow> u32 \<Rightarrow> bytes" where
  "appendFixed32LE out v =
     fold (\<lambda>i out. out @ [ucast (drop_bit (i * 8) v AND 0xff)]) [0..<4] out"

definition appendFixed64LE :: "bytes \<Rightarrow> u64 \<Rightarrow> bytes" where
  "appendFixed64LE out v =
     fold (\<lambda>i out. out @ [ucast (drop_bit (i * 8) v AND 0xff)]) [0..<8] out"

definition writeFixed32LE :: "bytes \<Rightarrow> nat \<Rightarrow> u32 \<Rightarrow> bytes" where
  "writeFixed32LE out offset v =
     fold (\<lambda>i out. out[offset + i := ucast (drop_bit (i * 8) v AND 0xff)]) [0..<4] out"

definition writeFixed64LE :: "bytes \<Rightarrow> nat \<Rightarrow> u64 \<Rightarrow> bytes" where
  "writeFixed64LE out offset v =
     fold (\<lambda>i out. out[offset + i := ucast (drop_bit (i * 8) v AND 0xff)]) [0..<8] out"

definition readFixed32LE :: "bytes \<Rightarrow> nat \<Rightarrow> (u32 \<times> nat) option" where
  "readFixed32LE bytes offset =
     (if offset + 4 > length bytes then None
      else Some (fold (\<lambda>i v. v OR push_bit (i * 8) (ucast (bytes ! (offset + i)))) [0..<4] 0,
                 offset + 4))"

definition readFixed64LE :: "bytes \<Rightarrow> nat \<Rightarrow> (u64 \<times> nat) option" where
  "readFixed64LE bytes offset =
     (if offset + 8 > length bytes then None
      else Some (fold (\<lambda>i v. v OR push_bit (i * 8) (ucast (bytes ! (offset + i)))) [0..<8] 0,
                 offset + 8))"

text \<open>
  \<open>elapsedMicros\<close>: the time points are nanosecond counts of the steady clock; the
  \<open>duration_cast\<close> truncates towards zero, and a result that is not positive reads as 1.
\<close>

definition elapsedMicros :: "int \<Rightarrow> int \<Rightarrow> u64" where
  "elapsedMicros start finish =
     (let micros = sgn (finish - start) * (\<bar>finish - start\<bar> div 1000)
      in if micros > 0 then of_int micros else 1)"

section \<open>The bytes of a field\<close>

definition le32 :: "u32 \<Rightarrow> bytes" where
  "le32 v = map (\<lambda>i. ucast (drop_bit (i * 8) v AND 0xff)) [0..<4]"

definition le64 :: "u64 \<Rightarrow> bytes" where
  "le64 v = map (\<lambda>i. ucast (drop_bit (i * 8) v AND 0xff)) [0..<8]"

lemma length_le32 [simp, codec_simps]: "length (le32 v) = 4"
  by (simp add: le32_def)

lemma length_le64 [simp, codec_simps]: "length (le64 v) = 8"
  by (simp add: le64_def)

lemma appendFixed32LE_eq [codec_simps]: "appendFixed32LE out v = out @ le32 v"
  by (simp add: appendFixed32LE_def le32_def fold_snoc_upt)

lemma appendFixed64LE_eq [codec_simps]: "appendFixed64LE out v = out @ le64 v"
  by (simp add: appendFixed64LE_def le64_def fold_snoc_upt)

lemma writeFixed32LE_eq:
  "offset + 4 \<le> length out \<Longrightarrow>
   writeFixed32LE out offset v = take offset out @ le32 v @ drop (offset + 4) out"
  by (simp add: writeFixed32LE_def le32_def fold_update_upt)

lemma writeFixed64LE_eq:
  "offset + 8 \<le> length out \<Longrightarrow>
   writeFixed64LE out offset v = take offset out @ le64 v @ drop (offset + 8) out"
  by (simp add: writeFixed64LE_def le64_def fold_update_upt)

lemma length_writeFixed32LE [simp]: "length (writeFixed32LE out offset v) = length out"
  by (simp add: writeFixed32LE_def)

lemma length_writeFixed64LE [simp]: "length (writeFixed64LE out offset v) = length out"
  by (simp add: writeFixed64LE_def)

lemma writeFixed32LE_mid:
  "length xs = offset \<Longrightarrow> length ys = 4 \<Longrightarrow>
   writeFixed32LE (xs @ ys @ zs) offset v = xs @ le32 v @ zs"
  by (simp add: writeFixed32LE_eq)

lemma writeFixed64LE_mid:
  "length xs = offset \<Longrightarrow> length ys = 8 \<Longrightarrow>
   writeFixed64LE (xs @ ys @ zs) offset v = xs @ le64 v @ zs"
  by (simp add: writeFixed64LE_eq)

section \<open>Reading back\<close>

lemma byte_of_field:
  fixes w :: "'a::len word"
  shows "(ucast (w AND 0xff) :: byte) = ucast w"
proof (rule bit_word_eqI)
  fix n assume n: "n < LENGTH(8)"
  have mask: "(0xff :: 'a word) = mask 8" by (simp add: mask_eq_exp_minus_1)
  from n show "bit (ucast (w AND 0xff) :: byte) n = bit (ucast w :: byte) n"
    unfolding mask by (auto simp: bit_simps dest: bit_imp_le_length)
qed

lemma bit_join_bytes:
  fixes f :: "nat \<Rightarrow> byte"
  shows "bit (fold (\<lambda>i w. w OR push_bit (i * 8) (ucast (f i))) [0..<k] 0 :: 'a::len word) n
     \<longleftrightarrow> n < LENGTH('a) \<and> n < 8 * k \<and> bit (f (n div 8)) (n mod 8)"
proof (induction k)
  case 0
  then show ?case by simp
next
  case (Suc k)
  have "k * 8 \<le> n \<and> bit (f k) (n - k * 8)
     \<longleftrightarrow> k * 8 \<le> n \<and> n < 8 * Suc k \<and> bit (f (n div 8)) (n mod 8)"
  proof (cases "k * 8 \<le> n \<and> n < 8 * Suc k")
    case True
    then have "n div 8 = k" by (intro div_nat_eqI) auto
    then have "n mod 8 = n - k * 8" by (simp add: modulo_nat_def)
    with True \<open>n div 8 = k\<close> show ?thesis by simp
  next
    case False
    then show ?thesis using bit_imp_le_length [of "f k" "n - k * 8"] by auto
  qed
  with Suc show ?case
    by (auto simp: bit_simps)
qed

lemma join_split:
  fixes v :: "'a::len word"
  assumes "LENGTH('a) \<le> 8 * k"
  shows "fold (\<lambda>i w. w OR push_bit (i * 8) (ucast (ucast (drop_bit (i * 8) v) :: byte))) [0..<k] 0 = v"
  by (rule bit_word_eqI) (use assms in \<open>simp add: bit_join_bytes bit_simps\<close>)

lemma fold_join_cong:
  assumes "\<And>i. i < k \<Longrightarrow> f i = g i"
  shows "fold (\<lambda>i w. w OR push_bit (i * 8) (ucast (f i :: byte))) [0..<k] a
       = fold (\<lambda>i w. w OR push_bit (i * 8) (ucast (g i))) [0..<k] a"
  by (rule fold_cong) (use assms in auto)

lemma readFixed32LE_append:
  assumes "length xs = offset"
  shows "readFixed32LE (xs @ le32 v @ ys) offset = Some (v, offset + 4)"
proof -
  have "(xs @ le32 v @ ys) ! (offset + i) = ucast (drop_bit (i * 8) v)" if "i < 4" for i
    using that assms by (simp add: nth_append le32_def byte_of_field)
  with assms show ?thesis
    by (simp add: readFixed32LE_def join_split cong: fold_join_cong)
qed

lemma readFixed64LE_append:
  assumes "length xs = offset"
  shows "readFixed64LE (xs @ le64 v @ ys) offset = Some (v, offset + 8)"
proof -
  have "(xs @ le64 v @ ys) ! (offset + i) = ucast (drop_bit (i * 8) v)" if "i < 8" for i
    using that assms by (simp add: nth_append le64_def byte_of_field)
  with assms show ?thesis
    by (simp add: readFixed64LE_def join_split cong: fold_join_cong)
qed

end
