(* ===== verification/Crc32c.thy ===== *)
theory Crc32c
  imports Byte_Codec
begin

text \<open>
  The checksum of \<open>src/src/wal.cc\<close>: the table-driven software routine, the SSE4.2 routine and the
  dispatch between them. The three CRC32 instructions are not in the sources; they are the
  fields of a \<open>cpu\<close> that is an argument of the model, and \<open>cpu_documented\<close> states what the
  instruction set manual says of them: the operand is added to the register and one
  reflected division step by the Castagnoli polynomial follows for every bit of it.

  Shown here: the table-driven routine is the bitwise division; the hardware routine computes the
  same value on every input; the routine composes over concatenation; and a change confined to
  four consecutive bytes always changes the checksum.
\<close>

unbundle bit_operations_syntax

section \<open>Definitions\<close>

text \<open>One turn of the inner loop of \<open>makeCrc32cTable\<close>.\<close>

definition crc32c_bit :: "u32 \<Rightarrow> u32" where
  "crc32c_bit crc =
     (let mask = 0 - (crc AND 1)
      in drop_bit 1 crc XOR (0x82f63b78 AND mask))"

definition makeCrc32cTable :: "u32 list" where
  "makeCrc32cTable =
     map (\<lambda>i. fold (\<lambda>bit crc. crc32c_bit crc) [0..<8] (of_nat i)) [0..<256]"

definition kCrc32cTable :: "u32 list" where
  "kCrc32cTable = makeCrc32cTable"

definition extendCrc32cSoftware :: "u32 \<Rightarrow> bytes \<Rightarrow> u32" where
  "extendCrc32cSoftware crc bytes =
     fold (\<lambda>b crc. let index = (crc XOR ucast b) AND 0xff
                   in drop_bit 8 crc XOR kCrc32cTable ! unat index) bytes crc"

record cpu =
  is_x86_64 :: bool
  cpu_supports_sse42 :: bool
  mm_crc32_u8 :: "u32 \<Rightarrow> byte \<Rightarrow> u32"
  mm_crc32_u32 :: "u32 \<Rightarrow> u32 \<Rightarrow> u32"
  mm_crc32_u64 :: "u64 \<Rightarrow> u64 \<Rightarrow> u64"

text \<open>\<open>memcpy\<close> of the first bytes of the data into an integer of a little-endian machine.\<close>

definition memcpy32 :: "bytes \<Rightarrow> u32" where
  "memcpy32 data = fold (\<lambda>i w. w OR push_bit (i * 8) (ucast (data ! i))) [0..<4] 0"

definition memcpy64 :: "bytes \<Rightarrow> u64" where
  "memcpy64 data = fold (\<lambda>i w. w OR push_bit (i * 8) (ucast (data ! i))) [0..<8] 0"

function crc_loop64 :: "cpu \<Rightarrow> u32 \<Rightarrow> bytes \<Rightarrow> u32 \<times> bytes" where
  "crc_loop64 c crc data =
     (if length data \<ge> 8
      then crc_loop64 c (ucast (mm_crc32_u64 c (ucast crc) (memcpy64 data))) (drop 8 data)
      else (crc, data))"
  by pat_completeness auto
termination
  by (relation "measure (\<lambda>(c, crc, data). length data)") auto

function crc_loop32 :: "cpu \<Rightarrow> u32 \<Rightarrow> bytes \<Rightarrow> u32 \<times> bytes" where
  "crc_loop32 c crc data =
     (if length data \<ge> 4
      then crc_loop32 c (mm_crc32_u32 c crc (memcpy32 data)) (drop 4 data)
      else (crc, data))"
  by pat_completeness auto
termination
  by (relation "measure (\<lambda>(c, crc, data). length data)") auto

fun crc_loop8 :: "cpu \<Rightarrow> u32 \<Rightarrow> bytes \<Rightarrow> u32" where
  "crc_loop8 c crc [] = crc"
| "crc_loop8 c crc (b # data) = crc_loop8 c (mm_crc32_u8 c crc b) data"

declare crc_loop64.simps [simp del] crc_loop32.simps [simp del]

definition extendCrc32cHardware :: "cpu \<Rightarrow> u32 \<Rightarrow> bytes \<Rightarrow> u32" where
  "extendCrc32cHardware c crc bytes =
     (let (crc, data) = (if is_x86_64 c then crc_loop64 c crc bytes else (crc, bytes));
          (crc, data) = crc_loop32 c crc data
      in crc_loop8 c crc data)"

definition hasHardwareCrc32c :: "cpu \<Rightarrow> bool" where
  "hasHardwareCrc32c c = cpu_supports_sse42 c"

definition Crc32C :: "cpu \<Rightarrow> bytes \<Rightarrow> u32" where
  "Crc32C c bytes =
     (let crc = 0xffffffff
      in if hasHardwareCrc32c c then NOT (extendCrc32cHardware c crc bytes)
         else NOT (extendCrc32cSoftware crc bytes))"

section \<open>The reference: bitwise reflected division\<close>

definition lfsr :: "'a::len word \<Rightarrow> 'a word" where
  "lfsr r = drop_bit 1 r XOR (if bit r 0 then 0x82f63b78 else 0)"

definition crc_byte :: "'a::len word \<Rightarrow> byte \<Rightarrow> 'a word" where
  "crc_byte r b = (lfsr ^^ 8) (r XOR ucast b)"

definition cpu_documented :: "cpu \<Rightarrow> bool" where
  "cpu_documented c \<longleftrightarrow>
     (\<forall>r b. mm_crc32_u8 c r b = (lfsr ^^ 8) (r XOR ucast b)) \<and>
     (\<forall>r w. mm_crc32_u32 c r w = (lfsr ^^ 32) (r XOR w)) \<and>
     (\<forall>r w. mm_crc32_u64 c r w = (lfsr ^^ 64) ((r AND 0xffffffff) XOR w))"

lemma crc32c_bit_lfsr: "crc32c_bit c = lfsr c"
proof -
  have "c AND 1 = of_bool (odd c)" by (simp only: and_one_eq mod_2_eq_odd)
  then show ?thesis
    by (cases "odd c") (simp_all add: crc32c_bit_def lfsr_def bit_0)
qed

lemma lfsr_0 [simp]: "lfsr 0 = 0"
  by (simp add: lfsr_def)

lemma lfsr_pow_0 [simp]: "(lfsr ^^ n) 0 = 0"
  by (induction n) simp_all

lemma drop_bit_xor_word: "drop_bit n (a XOR b) = drop_bit n a XOR drop_bit n (b :: 'a::len word)"
  by (rule bit_word_eqI) (simp add: bit_simps)

lemma lfsr_xor: "lfsr (a XOR b) = lfsr a XOR lfsr b"
  by (rule bit_word_eqI) (auto simp: lfsr_def bit_simps)

lemma lfsr_pow_xor: "(lfsr ^^ n) (a XOR b) = (lfsr ^^ n) a XOR (lfsr ^^ n) b"
  by (induction n) (simp_all add: lfsr_xor)

lemma lfsr_pow_drop:
  "take_bit n a = 0 \<Longrightarrow> (lfsr ^^ n) a = drop_bit n a"
proof (induction n arbitrary: a)
  case 0
  then show ?case by simp
next
  case (Suc n)
  then have z: "\<not> bit a i" if "i < Suc n" for i
    using that by (metis bit_0_eq bit_take_bit_iff bot_apply bot_bool_def)
  then have "lfsr a = drop_bit 1 a" by (simp add: lfsr_def)
  moreover have "take_bit n (drop_bit 1 a) = 0"
    by (rule bit_word_eqI) (use z in \<open>auto simp: bit_simps\<close>)
  ultimately show ?case
    using Suc.IH [of "drop_bit 1 a"] by (simp add: funpow_swap1)
qed

lemma lfsr_pow_split:
  "(lfsr ^^ n) a = drop_bit n a XOR (lfsr ^^ n) (take_bit n (a :: 'a::len word))"
proof -
  let ?hi = "a XOR take_bit n a"
  have "take_bit n ?hi = 0"
    by (rule bit_word_eqI) (auto simp: bit_simps)
  then have "(lfsr ^^ n) ?hi = drop_bit n ?hi" by (rule lfsr_pow_drop)
  also have "drop_bit n ?hi = drop_bit n a"
    by (rule bit_word_eqI) (auto simp: bit_simps)
  finally have hi: "(lfsr ^^ n) ?hi = drop_bit n a" .
  have "a = ?hi XOR take_bit n a"
    by (rule bit_word_eqI) (auto simp: bit_simps)
  then have "(lfsr ^^ n) a = (lfsr ^^ n) ?hi XOR (lfsr ^^ n) (take_bit n a)"
    by (metis lfsr_pow_xor)
  with hi show ?thesis by simp
qed

lemma fold_ignore_funpow: "fold (\<lambda>_. f) xs = f ^^ length xs"
  by (induction xs) (simp_all add: funpow_Suc_right del: funpow.simps)

lemma and_ff_take_bit: "(a :: u32) AND 0xff = take_bit 8 a"
  by (simp add: take_bit_eq_mask mask_eq_exp_minus_1)

lemma table_nth: "n < 256 \<Longrightarrow> kCrc32cTable ! n = (lfsr ^^ 8) (of_nat n)"
  unfolding kCrc32cTable_def makeCrc32cTable_def crc32c_bit_lfsr fold_ignore_funpow
  by (subst nth_map_upt0) (assumption, simp only: length_upt diff_zero)

lemma table_entry:
  "kCrc32cTable ! unat (take_bit 8 (a :: u32)) = (lfsr ^^ 8) (take_bit 8 a)"
proof -
  have "unat (take_bit 8 a) < 256"
    by (simp add: unsigned_take_bit_eq take_bit_nat_less_exp [of 8, simplified])
  then show ?thesis by (simp only: table_nth of_nat_unat ucast_id)
qed

lemma drop_bit_8_ucast [simp]: "drop_bit 8 (ucast (b :: byte) :: 'a::len word) = 0"
  by (rule bit_word_eqI) (auto simp: bit_simps dest: bit_imp_le_length)

lemma software_byte:
  "drop_bit 8 c XOR kCrc32cTable ! unat ((c XOR ucast b) AND 0xff) = crc_byte c b"
proof -
  have "crc_byte c b = drop_bit 8 (c XOR ucast b) XOR (lfsr ^^ 8) (take_bit 8 (c XOR ucast b))"
    by (simp add: crc_byte_def lfsr_pow_split [of 8 "c XOR ucast b"])
  then show ?thesis
    by (simp add: and_ff_take_bit table_entry drop_bit_xor_word del: take_bit_xor)
qed

lemma extendCrc32cSoftware_bitwise:
  "extendCrc32cSoftware c bs = foldl crc_byte c bs"
  by (simp add: extendCrc32cSoftware_def Let_def software_byte foldl_conv_fold)

section \<open>Whole words at a time\<close>

text \<open>Feeding the \<open>k\<close> low bytes of a word one by one is \<open>8 k\<close> division steps on it.\<close>

definition low_bytes :: "nat \<Rightarrow> 'a::len word \<Rightarrow> bytes" where
  "low_bytes k w = map (\<lambda>i. ucast (drop_bit (i * 8) w)) [0..<k]"

lemma low_bytes_Suc: "low_bytes (Suc k) w = ucast w # low_bytes k (drop_bit 8 w)"
proof -
  have "[0..<Suc k] = 0 # map Suc [0..<k]"
    by (simp add: upt_conv_Cons map_Suc_upt del: upt_Suc)
  then show ?thesis
    by (simp add: low_bytes_def drop_bit_drop_bit comp_def add.commute del: upt_Suc)
qed

lemma crc_byte_word:
  fixes c w :: "'a::len word"
  shows "(lfsr ^^ 8) (c XOR w) = crc_byte c (ucast w) XOR drop_bit 8 w"
proof -
  have eq: "(ucast (ucast w :: byte) :: 'a word) = take_bit 8 w"
    by (rule bit_word_eqI) (auto simp: bit_simps)
  have "(lfsr ^^ 8) (c XOR w) = (lfsr ^^ 8) c XOR (drop_bit 8 w XOR (lfsr ^^ 8) (take_bit 8 w))"
    by (simp add: lfsr_pow_xor lfsr_pow_split [of 8 w])
  then show ?thesis
    by (simp add: crc_byte_def lfsr_pow_xor eq ac_simps)
qed

lemma crc_low_bytes:
  fixes c w :: "'a::len word"
  shows "(lfsr ^^ (8 * k)) (c XOR w) = foldl crc_byte c (low_bytes k w) XOR drop_bit (8 * k) w"
proof (induction k arbitrary: c w)
  case 0
  then show ?case by (simp add: low_bytes_def)
next
  case (Suc k)
  have "(lfsr ^^ (8 * Suc k)) (c XOR w) = (lfsr ^^ (8 * k)) ((lfsr ^^ 8) (c XOR w))"
    by (simp only: mult_Suc_right add.commute [of 8 "8 * k"] funpow_add comp_apply)
  also have "\<dots> = foldl crc_byte (crc_byte c (ucast w)) (low_bytes k (drop_bit 8 w))
      XOR drop_bit (8 * k) (drop_bit 8 w)"
    by (simp add: crc_byte_word Suc.IH)
  finally show ?case
    by (simp add: low_bytes_Suc drop_bit_drop_bit add.commute)
qed

lemma low_bytes_join:
  fixes data :: bytes
  assumes "k \<le> length data" and "8 * k \<le> LENGTH('a::len)"
  shows "low_bytes k (fold (\<lambda>i w. w OR push_bit (i * 8) (ucast (data ! i))) [0..<k] 0 :: 'a word)
       = take k data"
proof (rule nth_equalityI)
  show "length (low_bytes k (fold (\<lambda>i w. w OR push_bit (i * 8) (ucast (data ! i))) [0..<k] 0 :: 'a word))
      = length (take k data)"
    using assms by (simp add: low_bytes_def)
next
  fix i
  assume "i < length (low_bytes k (fold (\<lambda>i w. w OR push_bit (i * 8) (ucast (data ! i))) [0..<k] 0 :: 'a word))"
  then have i: "i < k" by (simp add: low_bytes_def)
  have "n < 8 \<Longrightarrow> (i * 8 + n) div 8 = i \<and> (i * 8 + n) mod 8 = n \<and> i * 8 + n < 8 * k" for n
    using i by auto
  with i assms show "low_bytes k (fold (\<lambda>i w. w OR push_bit (i * 8) (ucast (data ! i))) [0..<k] 0 :: 'a word) ! i
      = take k data ! i"
    by (auto simp: low_bytes_def bit_simps bit_join_bytes intro!: bit_word_eqI)
qed

section \<open>The hardware routine\<close>

lemma ucast_xor_u64: "(ucast (a :: u32) :: u64) XOR ucast b = ucast (a XOR b)"
  by (rule bit_word_eqI) (auto simp: bit_simps dest: bit_imp_le_length)

lemma ucast_ucast_u32: "ucast (ucast (c :: u32) :: u64) = c"
  by (rule bit_word_eqI) (auto simp: bit_simps)

lemma lfsr_ucast: "lfsr (ucast (c :: u32) :: u64) = ucast (lfsr c)"
proof -
  have poly: "(0x82f63b78 :: u64) = ucast (0x82f63b78 :: u32)" by simp
  have low: "bit (ucast c :: u64) 0 = bit c 0" by (simp only: bit_unsigned_iff) simp
  have shift: "drop_bit 1 (ucast c :: u64) = ucast (drop_bit 1 c)"
    by (rule bit_word_eqI) (auto simp: bit_simps dest: bit_imp_le_length)
  show ?thesis
    unfolding lfsr_def low shift poly by (cases "bit c 0") (simp_all only: if_True if_False ucast_xor_u64 xor.right_neutral)
qed

lemma crc_byte_ucast: "crc_byte (ucast (c :: u32) :: u64) b = ucast (crc_byte c b)"
proof -
  have "(lfsr ^^ n) (ucast (d :: u32) :: u64) = ucast ((lfsr ^^ n) d)" for n d
    by (induction n) (simp_all add: lfsr_ucast)
  moreover have "(ucast c :: u64) XOR ucast b = ucast (c XOR ucast b)"
    by (rule bit_word_eqI) (auto simp: bit_simps dest: bit_imp_le_length)
  ultimately show ?thesis by (simp add: crc_byte_def)
qed

lemma foldl_crc_byte_ucast:
  "foldl crc_byte (ucast (c :: u32) :: u64) bs = ucast (foldl crc_byte c bs)"
  by (induction bs arbitrary: c) (simp_all add: crc_byte_ucast)

lemma mm_crc32_u64_bytes:
  fixes r :: u32
  assumes "cpu_documented c" and "8 \<le> length data"
  shows "ucast (mm_crc32_u64 c (ucast r) (memcpy64 data)) = foldl crc_byte r (take 8 data)"
proof -
  have mask: "(0xffffffff :: u64) = mask 32" by (simp add: mask_eq_exp_minus_1)
  have low: "(ucast r AND 0xffffffff :: u64) = ucast r"
    unfolding mask by (rule bit_word_eqI) (auto simp: bit_simps dest: bit_imp_le_length)
  have "mm_crc32_u64 c (ucast r) (memcpy64 data) = (lfsr ^^ (8 * 8)) (ucast r XOR memcpy64 data)"
    using assms(1) by (simp only: cpu_documented_def low) simp
  also have "\<dots> = foldl crc_byte (ucast r) (low_bytes 8 (memcpy64 data))"
    by (simp only: crc_low_bytes) simp
  also have "low_bytes 8 (memcpy64 data) = take 8 data"
    unfolding memcpy64_def by (rule low_bytes_join) (use assms(2) in simp_all)
  finally show ?thesis by (simp add: foldl_crc_byte_ucast ucast_ucast_u32)
qed

lemma mm_crc32_u32_bytes:
  assumes "cpu_documented c" and "4 \<le> length data"
  shows "mm_crc32_u32 c r (memcpy32 data) = foldl crc_byte r (take 4 data)"
proof -
  have "mm_crc32_u32 c r (memcpy32 data) = (lfsr ^^ (8 * 4)) (r XOR memcpy32 data)"
    using assms(1) by (simp only: cpu_documented_def) simp
  also have "\<dots> = foldl crc_byte r (low_bytes 4 (memcpy32 data))"
    by (simp only: crc_low_bytes) simp
  also have "low_bytes 4 (memcpy32 data) = take 4 data"
    unfolding memcpy32_def by (rule low_bytes_join) (use assms(2) in simp_all)
  finally show ?thesis .
qed

lemma foldl_take_drop: "foldl f (foldl f a (take n xs)) (drop n xs) = foldl f a xs"
  by (metis append_take_drop_id foldl_append)

lemma crc_loop64_bytes:
  assumes "cpu_documented c" and "crc_loop64 c r data = (r', rest)"
  shows "foldl crc_byte r' rest = foldl crc_byte r data"
  using assms
proof (induction c r data rule: crc_loop64.induct)
  case (1 c r data)
  then show ?case
    using mm_crc32_u64_bytes [of c data r]
    by (cases "8 \<le> length data") (simp_all add: crc_loop64.simps [of c r data] foldl_take_drop)
qed

lemma crc_loop32_bytes:
  assumes "cpu_documented c" and "crc_loop32 c r data = (r', rest)"
  shows "foldl crc_byte r' rest = foldl crc_byte r data"
  using assms
proof (induction c r data rule: crc_loop32.induct)
  case (1 c r data)
  then show ?case
    using mm_crc32_u32_bytes [of c data r]
    by (cases "4 \<le> length data") (simp_all add: crc_loop32.simps [of c r data] foldl_take_drop)
qed

lemma mm_crc32_u8_byte: "cpu_documented c \<Longrightarrow> mm_crc32_u8 c r b = crc_byte r b"
  by (simp only: cpu_documented_def crc_byte_def)

lemma crc_loop8_bytes: "cpu_documented c \<Longrightarrow> crc_loop8 c r data = foldl crc_byte r data"
  by (induction data arbitrary: r) (simp_all add: mm_crc32_u8_byte)

lemma extendCrc32cHardware_bitwise:
  assumes "cpu_documented c"
  shows "extendCrc32cHardware c r data = foldl crc_byte r data"
proof -
  obtain r1 d1 where 1: "(if is_x86_64 c then crc_loop64 c r data else (r, data)) = (r1, d1)"
    by fastforce
  obtain r2 d2 where 2: "crc_loop32 c r1 d1 = (r2, d2)" by fastforce
  have "foldl crc_byte r1 d1 = foldl crc_byte r data"
    using 1 crc_loop64_bytes [OF assms] by (auto split: if_splits)
  moreover have "foldl crc_byte r2 d2 = foldl crc_byte r1 d1"
    using 2 by (rule crc_loop32_bytes [OF assms])
  ultimately show ?thesis
    by (simp add: extendCrc32cHardware_def 1 2 crc_loop8_bytes [OF assms])
qed

lemma lfsr_eq_0:
  fixes d :: u32
  assumes z: "lfsr d = 0"
  shows "d = 0"
proof (rule bit_word_eqI)
  have "bit (0x82f63b78 :: u32) 31" by simp
  moreover have "\<not> bit (drop_bit 1 d) 31"
    using bit_imp_le_length [of d 32] by (auto simp: bit_simps)
  moreover have "\<not> bit (lfsr d) 31" using z by simp
  ultimately have even: "\<not> bit d 0" by (auto simp: lfsr_def bit_xor_iff)
  with z have half: "drop_bit 1 d = 0" by (simp add: lfsr_def)
  have "\<not> bit d (Suc n)" for n
    using arg_cong [OF half, of "\<lambda>w. bit w n"] by (simp add: bit_drop_bit_eq)
  with even show "bit d n = bit 0 n" for n by (cases n) simp_all
qed

lemma lfsr_pow_eq_0: "(lfsr ^^ n) (d :: u32) = 0 \<Longrightarrow> d = 0"
  by (induction n) (auto dest: lfsr_eq_0)

lemma lfsr_pow_inj:
  assumes "(lfsr ^^ n) a = (lfsr ^^ n) (b :: u32)"
  shows "a = b"
proof -
  have "(lfsr ^^ n) (a XOR b) = 0" using assms by (simp add: lfsr_pow_xor)
  then have "a XOR b = 0" by (rule lfsr_pow_eq_0)
  then show ?thesis by (simp only: xor_eq_0)
qed

lemma crc_byte_inj: "crc_byte a x = crc_byte b x \<Longrightarrow> a = (b :: u32)"
  unfolding crc_byte_def by (drule lfsr_pow_inj) (simp only: xor_right_cancel)

lemma foldl_crc_byte_inj: "foldl crc_byte a xs = foldl crc_byte b xs \<Longrightarrow> a = (b :: u32)"
proof (induction xs arbitrary: a b)
  case Nil
  then show ?case by simp
next
  case (Cons x xs)
  then have "crc_byte a x = crc_byte b x" by simp
  then show ?case by (rule crc_byte_inj)
qed

definition join_bytes :: "bytes \<Rightarrow> u32" where
  "join_bytes u = fold (\<lambda>i w. w OR push_bit (i * 8) (ucast (u ! i))) [0..<length u] 0"

lemma foldl_crc_byte_join:
  assumes "length u \<le> 4"
  shows "foldl crc_byte c u = (lfsr ^^ (8 * length u)) (c XOR join_bytes u)"
proof -
  have "low_bytes (length u) (join_bytes u) = u"
    unfolding join_bytes_def using assms by (subst low_bytes_join) simp_all
  moreover have "drop_bit (8 * length u) (join_bytes u) = 0"
    by (rule bit_word_eqI) (simp add: join_bytes_def bit_drop_bit_eq bit_join_bytes)
  ultimately show ?thesis
    by (simp add: crc_low_bytes)
qed

lemma join_bytes_inj:
  assumes "length u = length v" and "length u \<le> 4" and "join_bytes u = join_bytes v"
  shows "u = v"
proof -
  have "low_bytes (length w) (join_bytes w) = w" if "length w \<le> 4" for w
    unfolding join_bytes_def using that by (subst low_bytes_join) simp_all
  with assms show ?thesis by metis
qed

section \<open>Checksum back ends\<close>

text \<open>
  What the WAL relies on: extending a checksum by a concatenation is extending it twice, so a
  record can be summed fragment by fragment, and a change confined to four consecutive bytes is
  seen. Both routines provide it, since both are the bitwise division.
\<close>

locale crc_backend =
  fixes extend :: "u32 \<Rightarrow> bytes \<Rightarrow> u32"
  assumes extend_bitwise: "extend c bs = foldl crc_byte c bs"
begin

lemma extend_Nil: "extend c [] = c"
  by (simp add: extend_bitwise)

lemma extend_append: "extend c (xs @ ys) = extend (extend c xs) ys"
  by (simp add: extend_bitwise)

lemma extend_burst:
  assumes "length u = length v" and "length u \<le> 4" and "u \<noteq> v"
  shows "extend c (p @ u @ s) \<noteq> extend c (p @ v @ s)"
proof
  assume "extend c (p @ u @ s) = extend c (p @ v @ s)"
  then have "foldl crc_byte (extend c p) u = foldl crc_byte (extend c p) v"
    by (auto simp: extend_bitwise dest: foldl_crc_byte_inj)
  then have "extend c p XOR join_bytes u = extend c p XOR join_bytes v"
    using assms(1,2) by (simp add: foldl_crc_byte_join) (rule lfsr_pow_inj)
  then have "join_bytes u = join_bytes v"
    by (simp only: xor_left_cancel)
  with assms show False by (blast dest: join_bytes_inj)
qed

end

interpretation sw: crc_backend extendCrc32cSoftware
  by unfold_locales (rule extendCrc32cSoftware_bitwise)

text \<open>A processor that does what the manual says, to evaluate the model with.\<close>

definition reference_cpu :: cpu where
  "reference_cpu = \<lparr>is_x86_64 = True, cpu_supports_sse42 = True,
     mm_crc32_u8 = \<lambda>r b. (lfsr ^^ 8) (r XOR ucast b),
     mm_crc32_u32 = \<lambda>r w. (lfsr ^^ 32) (r XOR w),
     mm_crc32_u64 = \<lambda>r w. (lfsr ^^ 64) ((r AND 0xffffffff) XOR w)\<rparr>"

definition portable_cpu :: cpu where
  "portable_cpu = reference_cpu\<lparr>is_x86_64 := False, cpu_supports_sse42 := False\<rparr>"

lemma reference_cpu_documented [simp]: "cpu_documented reference_cpu"
  by (simp only: cpu_documented_def reference_cpu_def cpu.simps simp_thms)

lemma portable_cpu_documented [simp]: "cpu_documented portable_cpu"
  by (simp only: cpu_documented_def portable_cpu_def reference_cpu_def cpu.simps simp_thms)

lemma crc_backend_hardware: "cpu_documented c \<Longrightarrow> crc_backend (extendCrc32cHardware c)"
  by unfold_locales (rule extendCrc32cHardware_bitwise)

interpretation hw: crc_backend "extendCrc32cHardware reference_cpu"
  by (rule crc_backend_hardware) simp

lemma Crc32C_software:
  "cpu_documented c \<Longrightarrow> Crc32C c bs = NOT (extendCrc32cSoftware 0xffffffff bs)"
  by (simp add: Crc32C_def extendCrc32cHardware_bitwise extendCrc32cSoftware_bitwise)

end
