(* ===== verification/Status_Result.thy ===== *)
theory Status_Result
  imports SE_Prelude
begin

text \<open>
  \<open>src/include/storage_engine/status.h\<close> and \<open>src/src/common.cc\<close>: the status of an operation and
  the result that is a value or a failed status. \<open>Result<T>\<close> is the sum \<open>Status + 'a\<close>: \<^const>\<open>Inl\<close> is
  the constructor from a \<open>Status\<close>, which asserts that the status is a failure, and \<^const>\<open>Inr\<close> the
  one from a value. Properties of the components state that the assertion never fires.
\<close>

datatype StatusCode = kOk | kNotFound | kInvalidArgument | kIoError | kCorruption

record Status =
  code :: StatusCode
  msg :: string

type_synonym 'a Result = "Status + 'a"

definition Ok :: Status where
  "Ok = \<lparr>code = kOk, msg = ''''\<rparr>"

definition NotFound :: "string \<Rightarrow> Status" where
  "NotFound message = \<lparr>code = kNotFound, msg = message\<rparr>"

definition InvalidArgument :: "string \<Rightarrow> Status" where
  "InvalidArgument message = \<lparr>code = kInvalidArgument, msg = message\<rparr>"

definition IoError :: "string \<Rightarrow> Status" where
  "IoError message = \<lparr>code = kIoError, msg = message\<rparr>"

definition Corruption :: "string \<Rightarrow> Status" where
  "Corruption message = \<lparr>code = kCorruption, msg = message\<rparr>"

definition ok :: "Status \<Rightarrow> bool" where
  "ok s \<longleftrightarrow> code s = kOk"

text \<open>\<open>errnoMessage\<close>: the operation and the text \<open>strerror (errno)\<close> the C library gives.\<close>

definition errnoMessage :: "string \<Rightarrow> string \<Rightarrow> string" where
  "errnoMessage operation strerror_errno = operation @ '': '' @ strerror_errno"

lemma ok_simps [simp]:
  "ok Ok" "\<not> ok (NotFound m)" "\<not> ok (InvalidArgument m)" "\<not> ok (IoError m)" "\<not> ok (Corruption m)"
  by (simp_all add: ok_def Ok_def NotFound_def InvalidArgument_def IoError_def Corruption_def)

lemma status_code_simps [simp]:
  "code Ok = kOk" "code (NotFound m) = kNotFound" "code (InvalidArgument m) = kInvalidArgument"
  "code (IoError m) = kIoError" "code (Corruption m) = kCorruption"
  by (simp_all add: Ok_def NotFound_def InvalidArgument_def IoError_def Corruption_def)

lemma status_message_simps [simp]:
  "msg (NotFound m) = m" "msg (InvalidArgument m) = m"
  "msg (IoError m) = m" "msg (Corruption m) = m"
  by (simp_all add: NotFound_def InvalidArgument_def IoError_def Corruption_def)

lemma status_neq_Ok [simp]:
  "NotFound m \<noteq> Ok" "IoError m \<noteq> Ok" "Corruption m \<noteq> Ok" "InvalidArgument m \<noteq> Ok"
  by (auto dest: arg_cong [where f = ok])

end
