(* ===== verification/Write_Batch.thy ===== *)
theory Write_Batch
  imports Status_Result
begin

text \<open>
  \<open>src/src/write_batch.cc\<close> and class \<open>WriteBatch\<close> of \<open>src/include/storage_engine/db.h\<close>. A batch is
  the sequence of its entries; the arena the entries live in only provides their memory. The
  assignment operator is modelled over a store of batches, since its self-assignment test
  is about two names for one object.
\<close>

section \<open>Definitions\<close>

datatype Type = kPut | kDelete

fun type_value :: "Type \<Rightarrow> byte" where
  "type_value kPut = 1"
| "type_value kDelete = 2"

record Entry =
  etype :: Type
  key :: bytes
  val :: bytes

record WriteBatch =
  entries :: "Entry list"

definition WriteBatch_new :: WriteBatch where
  "WriteBatch_new = \<lparr>entries = []\<rparr>"

definition batch_empty :: "WriteBatch \<Rightarrow> bool" where
  "batch_empty b \<longleftrightarrow> entries b = []"

definition Put :: "WriteBatch \<Rightarrow> bytes \<Rightarrow> bytes \<Rightarrow> WriteBatch" where
  "Put b k v = b\<lparr>entries := entries b @ [\<lparr>etype = kPut, key = k, val = v\<rparr>]\<rparr>"

definition Delete :: "WriteBatch \<Rightarrow> bytes \<Rightarrow> WriteBatch" where
  "Delete b k = b\<lparr>entries := entries b @ [\<lparr>etype = kDelete, key = k, val = []\<rparr>]\<rparr>"

definition appendEntry :: "WriteBatch \<Rightarrow> Entry \<Rightarrow> WriteBatch" where
  "appendEntry b e = b\<lparr>entries := entries b @ [\<lparr>etype = etype e, key = key e, val = val e\<rparr>]\<rparr>"

text \<open>The copy constructor: a fresh batch, then one \<open>appendEntry\<close> per entry of the other.\<close>

definition WriteBatch_copy :: "WriteBatch \<Rightarrow> WriteBatch" where
  "WriteBatch_copy other = foldl appendEntry WriteBatch_new (entries other)"

text \<open>\<open>operator=\<close> on the objects at the addresses \<open>this\<close> and \<open>other\<close>.\<close>

type_synonym batch_store = "nat \<Rightarrow> WriteBatch"

definition WriteBatch_assign :: "batch_store \<Rightarrow> nat \<Rightarrow> nat \<Rightarrow> batch_store" where
  "WriteBatch_assign store this other =
     (if this \<noteq> other then
        let cleared = store(this := (store this)\<lparr>entries := []\<rparr>)
        in foldl (\<lambda>s e. s(this := appendEntry (s this) e)) cleared (entries (cleared other))
      else store)"

section \<open>What a batch stands for\<close>

text \<open>Every batch built through the interface carries an empty value in each deletion.\<close>

definition batch_wf :: "WriteBatch \<Rightarrow> bool" where
  "batch_wf b \<longleftrightarrow> (\<forall>e \<in> set (entries b). etype e = kDelete \<longrightarrow> val e = [])"

lemma entries_Put [simp]:
  "entries (Put b k v) = entries b @ [\<lparr>etype = kPut, key = k, val = v\<rparr>]"
  by (simp add: Put_def)

lemma entries_Delete [simp]:
  "entries (Delete b k) = entries b @ [\<lparr>etype = kDelete, key = k, val = []\<rparr>]"
  by (simp add: Delete_def)

lemma entries_appendEntry [simp]: "entries (appendEntry b e) = entries b @ [e]"
  by (simp add: appendEntry_def)

lemma entries_WriteBatch_new [simp]: "entries WriteBatch_new = []"
  by (simp add: WriteBatch_new_def)

lemma WriteBatch_eqI: "entries (b :: WriteBatch) = entries c \<Longrightarrow> b = c"
  by simp

lemma entries_foldl_append [simp]:
  "entries (foldl appendEntry b es) = entries b @ es"
  by (induction es arbitrary: b) simp_all

lemma batch_wf_new [simp, intro]: "batch_wf WriteBatch_new"
  by (simp add: batch_wf_def)

lemma batch_wf_Put [simp]: "batch_wf (Put b k v) \<longleftrightarrow> batch_wf b"
  by (auto simp: batch_wf_def)

lemma batch_wf_Delete [simp]: "batch_wf (Delete b k) \<longleftrightarrow> batch_wf b"
  by (auto simp: batch_wf_def)

lemma foldl_append_store:
  "foldl (\<lambda>s e. s(a := appendEntry (s a) e)) store es
   = store(a := foldl appendEntry (store a) es)"
  by (induction es arbitrary: store) simp_all

lemma type_value_inj [simp]: "type_value s = type_value t \<longleftrightarrow> s = t"
  by (cases s; cases t) simp_all

lemma WriteBatch_copy_eq [simp]: "WriteBatch_copy b = b"
  by (simp add: WriteBatch_copy_def WriteBatch_eqI)

end
