(* ===== verification/Wal_Format.thy ===== *)
theory Wal_Format
  imports Crc32c Write_Batch
begin

text \<open>
  The encoding half of \<open>src/src/wal.cc\<close>: the two encoders of a write group, one that builds the
  record contiguously and one that gathers it from a buffer of headers and the keys and values in
  place, and the layout both produce. An \<open>iovec\<close> points into the header buffer (by offset, so
  that a later write to the buffer is seen through it), at the bytes of a key or value, which do not
  change while their writer waits, or at the fallback record of the write group.

  Shown here: both encoders produce the record layout \<open>record_bytes\<close>, and its size is the
  one \<open>EncodedBatchSize\<close> computes.
\<close>

unbundle bit_operations_syntax

section \<open>Definitions\<close>

definition kBatchRecord :: byte where
  "kBatchRecord = 1"

definition kRecordHeaderSize :: nat where
  "kRecordHeaderSize = 4 + 4 + 1"

definition kBatchHeaderSize :: nat where
  "kBatchHeaderSize = 8 + 4"

definition kEntryHeaderSize :: nat where
  "kEntryHeaderSize = 1 + 4 + 4"

lemma wal_sizes:
  "kRecordHeaderSize = 9" "kBatchHeaderSize = 12" "kEntryHeaderSize = 9"
  by (simp_all add: kRecordHeaderSize_def kBatchHeaderSize_def kEntryHeaderSize_def)

definition putBytes :: "bytes \<Rightarrow> bytes \<Rightarrow> bytes" where
  "putBytes out bs = out @ bs"

datatype iov_base = InFixed nat | InData bytes | InFallback

record iovec =
  iov_base :: iov_base
  iov_len :: nat

definition appendIovec :: "iovec list \<Rightarrow> iov_base \<Rightarrow> nat \<Rightarrow> iovec list" where
  "appendIovec iovs data n =
     (if n = 0 then iovs else iovs @ [\<lparr>iov_base = data, iov_len = n\<rparr>])"

definition countEntries :: "WriteBatch list \<Rightarrow> u32" where
  "countEntries batches = foldl (\<lambda>count b. count + of_nat (length (entries b))) 0 batches"

definition EncodedBatchSize :: "WriteBatch list \<Rightarrow> nat" where
  "EncodedBatchSize batches =
     foldl (\<lambda>size b. foldl (\<lambda>size e. size + (kEntryHeaderSize + length (key e) + length (val e)))
                           size (entries b))
           (kRecordHeaderSize + kBatchHeaderSize) batches"

text \<open>The reused output buffers, with the vector capacities the write group reports.\<close>

record EncodedBatchFragments =
  fixed :: bytes
  iovecs :: "iovec list"
  frag_size :: nat
  fixed_capacity :: nat
  iovecs_capacity :: nat

definition EncodedBatchFragments_new :: EncodedBatchFragments where
  "EncodedBatchFragments_new =
     \<lparr>fixed = [], iovecs = [], frag_size = 0, fixed_capacity = 0, iovecs_capacity = 0\<rparr>"

text \<open>One turn of the entry loop: header buffer, gather list, running checksum, header offset.\<close>

definition encodeEntryFragment ::
  "bytes \<times> iovec list \<times> u32 \<times> nat \<Rightarrow> Entry \<Rightarrow> bytes \<times> iovec list \<times> u32 \<times> nat" where
  "encodeEntryFragment st e =
     (let (buf, iovs, crc, entryHeaderOffset) = st;
          buf = buf[entryHeaderOffset := type_value (etype e)];
          buf = writeFixed32LE buf (entryHeaderOffset + 1) (of_nat (length (key e)));
          buf = writeFixed32LE buf (entryHeaderOffset + 5) (of_nat (length (val e)));
          entryHeaderBytes = take kEntryHeaderSize (drop entryHeaderOffset buf);
          crc = extendCrc32cSoftware crc entryHeaderBytes;
          crc = extendCrc32cSoftware crc (key e);
          crc = extendCrc32cSoftware crc (val e);
          iovs = appendIovec iovs (InFixed entryHeaderOffset) kEntryHeaderSize;
          iovs = appendIovec iovs (InData (key e)) (length (key e));
          iovs = appendIovec iovs (InData (val e)) (length (val e))
      in (buf, iovs, crc, entryHeaderOffset + kEntryHeaderSize))"

definition EncodeBatchFragmentsInto ::
  "u64 \<Rightarrow> WriteBatch list \<Rightarrow> EncodedBatchFragments \<Rightarrow> EncodedBatchFragments" where
  "EncodeBatchFragmentsInto baseSequence batches encoded =
     (let entryCount = countEntries batches;
          size = EncodedBatchSize batches;
          fixedSize = kRecordHeaderSize + kBatchHeaderSize + unat entryCount * kEntryHeaderSize;
          buf = replicate fixedSize 0;
          buf = buf[8 := kBatchRecord];
          buf = writeFixed64LE buf kRecordHeaderSize baseSequence;
          buf = writeFixed32LE buf (kRecordHeaderSize + 8) entryCount;
          batchHeader = take kBatchHeaderSize (drop kRecordHeaderSize buf);
          crc = extendCrc32cSoftware 0xffffffff batchHeader;
          iovs = appendIovec [] (InFixed 0) (kRecordHeaderSize + kBatchHeaderSize);
          (buf, iovs, crc, entryHeaderOffset) =
            foldl (\<lambda>st b. foldl encodeEntryFragment st (entries b))
                  (buf, iovs, crc, kRecordHeaderSize + kBatchHeaderSize) batches;
          buf = writeFixed32LE buf 0 (NOT crc);
          buf = writeFixed32LE buf 4 (of_nat (size - kRecordHeaderSize))
      in \<lparr>fixed = buf, iovecs = iovs, frag_size = size,
          fixed_capacity = max (fixed_capacity encoded) fixedSize,
          iovecs_capacity = max (iovecs_capacity encoded) (2 + unat entryCount * 3)\<rparr>)"

definition encodeEntry :: "bytes \<Rightarrow> Entry \<Rightarrow> bytes" where
  "encodeEntry rec e =
     (let rec = rec @ [type_value (etype e)];
          rec = appendFixed32LE rec (of_nat (length (key e)));
          rec = appendFixed32LE rec (of_nat (length (val e)));
          rec = putBytes rec (key e)
      in putBytes rec (val e))"

definition EncodeBatchInto :: "cpu \<Rightarrow> u64 \<Rightarrow> WriteBatch list \<Rightarrow> bytes" where
  "EncodeBatchInto c baseSequence batches =
     (let rec = appendFixed32LE [] 0;
          rec = appendFixed32LE rec 0;
          rec = rec @ [kBatchRecord];
          payloadOffset = length rec;
          rec = appendFixed64LE rec baseSequence;
          rec = appendFixed32LE rec (countEntries batches);
          rec = foldl (\<lambda>rec b. foldl encodeEntry rec (entries b)) rec batches;
          payload = drop payloadOffset rec;
          rec = writeFixed32LE rec 0 (Crc32C c payload)
      in writeFixed32LE rec 4 (of_nat (length payload)))"

section \<open>The record layout\<close>

definition group_entries :: "WriteBatch list \<Rightarrow> Entry list" where
  "group_entries batches = concat (map entries batches)"

definition entry_header :: "Entry \<Rightarrow> bytes" where
  "entry_header e =
     type_value (etype e) # le32 (of_nat (length (key e))) @ le32 (of_nat (length (val e)))"

definition entry_bytes :: "Entry \<Rightarrow> bytes" where
  "entry_bytes e = entry_header e @ key e @ val e"

definition payload_bytes :: "u64 \<Rightarrow> Entry list \<Rightarrow> bytes" where
  "payload_bytes base es = le64 base @ le32 (of_nat (length es)) @ concat (map entry_bytes es)"

definition record_bytes :: "u64 \<Rightarrow> Entry list \<Rightarrow> bytes" where
  "record_bytes base es =
     (let payload = payload_bytes base es
      in le32 (NOT (extendCrc32cSoftware 0xffffffff payload)) @ le32 (of_nat (length payload))
         @ kBatchRecord # payload)"

text \<open>The memory an \<open>iovec\<close> describes, as the kernel reads it.\<close>

definition iov_bytes :: "bytes \<Rightarrow> bytes \<Rightarrow> iovec \<Rightarrow> bytes" where
  "iov_bytes buf fallback iov =
     take (iov_len iov)
       (case iov_base iov of InFixed n \<Rightarrow> drop n buf | InData bs \<Rightarrow> bs | InFallback \<Rightarrow> fallback)"

definition materializeIovecs :: "bytes \<Rightarrow> bytes \<Rightarrow> iovec list \<Rightarrow> bytes" where
  "materializeIovecs buf fallback iovs = concat (map (iov_bytes buf fallback) iovs)"

lemma length_entry_header [simp, wal_simps]: "length (entry_header e) = 9"
  by (simp add: entry_header_def)

lemma length_entry_bytes [simp, wal_simps]:
  "length (entry_bytes e) = 9 + length (key e) + length (val e)"
  by (simp add: entry_bytes_def)

lemma length_concat_entry_header [simp]: "length (concat (map entry_header es)) = 9 * length es"
  by (induction es) simp_all

lemma length_payload_bytes [wal_simps]:
  "length (payload_bytes base es) = 12 + length (concat (map entry_bytes es))"
  by (simp add: payload_bytes_def)

lemma length_record_bytes [wal_simps]:
  "length (record_bytes base es) = 9 + length (payload_bytes base es)"
  by (simp add: record_bytes_def Let_def)

lemma foldl_group: "foldl (\<lambda>s b. foldl f s (entries b)) s batches = foldl f s (group_entries batches)"
  by (induction batches arbitrary: s) (simp_all add: group_entries_def)

lemma countEntries_eq: "countEntries batches = of_nat (length (group_entries batches))"
proof -
  have "foldl (\<lambda>count b. count + of_nat (length (entries b))) c batches
      = c + of_nat (length (group_entries batches))" for c :: u32
    by (induction batches arbitrary: c) (simp_all add: group_entries_def)
  then show ?thesis by (simp add: countEntries_def)
qed

lemma EncodedBatchSize_eq:
  "EncodedBatchSize batches = length (record_bytes base (group_entries batches))"
proof -
  have "foldl (\<lambda>size e. size + (kEntryHeaderSize + length (key e) + length (val e))) n es
      = n + length (concat (map entry_bytes es))" for n es
    by (induction es arbitrary: n) (simp_all add: wal_sizes)
  then show ?thesis
    unfolding EncodedBatchSize_def foldl_group by (simp add: wal_simps wal_sizes)
qed

section \<open>The contiguous encoder\<close>

lemma encodeEntry_eq [wal_simps]: "encodeEntry r e = r @ entry_bytes e"
  by (simp add: encodeEntry_def entry_bytes_def entry_header_def putBytes_def codec_simps)

lemma foldl_encodeEntry: "foldl encodeEntry r es = r @ concat (map entry_bytes es)"
  by (induction es arbitrary: r) (simp_all add: encodeEntry_eq)

lemma foldl_group_encodeEntry:
  "foldl (\<lambda>r b. foldl encodeEntry r (entries b)) r batches
   = r @ concat (map entry_bytes (group_entries batches))"
  by (rule trans [OF foldl_group foldl_encodeEntry])

lemma EncodeBatchInto_eq:
  assumes "cpu_documented c"
  shows "EncodeBatchInto c base batches = record_bytes base (group_entries batches)"
proof -
  let ?p = "payload_bytes base (group_entries batches)"
  have "EncodeBatchInto c base batches
      = writeFixed32LE (writeFixed32LE ((le32 0 @ le32 0 @ [kBatchRecord]) @ ?p) 0 (Crc32C c ?p))
          4 (of_nat (length ?p))"
    unfolding EncodeBatchInto_def Let_def foldl_group_encodeEntry
    by (simp add: codec_simps payload_bytes_def countEntries_eq)
  also have "\<dots> = le32 (Crc32C c ?p) @ le32 (of_nat (length ?p)) @ kBatchRecord # ?p"
    by (simp add: writeFixed32LE_eq)
  finally show ?thesis
    using assms by (simp add: record_bytes_def Let_def Crc32C_software)
qed

section \<open>The gathering encoder\<close>

text \<open>The gather list of the entries whose headers start at \<open>off\<close> in the header buffer.\<close>

fun entry_iovecs :: "nat \<Rightarrow> Entry list \<Rightarrow> iovec list" where
  "entry_iovecs off [] = []"
| "entry_iovecs off (e # es) =
     appendIovec [] (InFixed off) 9 @ appendIovec [] (InData (key e)) (length (key e))
     @ appendIovec [] (InData (val e)) (length (val e)) @ entry_iovecs (off + 9) es"

lemma appendIovec_acc: "appendIovec iovs d n = iovs @ appendIovec [] d n"
  by (simp add: appendIovec_def)

lemma encodeEntryFragment_eq:
  assumes "length pre = off" and "length hole = 9"
  shows "encodeEntryFragment (pre @ hole @ rest, iovs, crc, off) e
       = (pre @ entry_header e @ rest, iovs @ entry_iovecs off [e],
          extendCrc32cSoftware crc (entry_bytes e), off + 9)"
proof -
  obtain x h1 h2 where hole: "hole = x # h1 @ h2" and h: "length h1 = 4" "length h2 = 4"
  proof -
    obtain x t where "hole = x # t" and "length t = 8"
      using assms(2) by (cases hole) auto
    with that [of x "take 4 t" "drop 4 t"] show thesis by simp
  qed
  let ?k = "le32 (of_nat (length (key e)))" and ?v = "le32 (of_nat (length (val e)))"
  let ?t = "type_value (etype e)"
  have 1: "writeFixed32LE ((pre @ hole @ rest)[off := ?t]) (off + 1) (of_nat (length (key e)))
      = (pre @ [?t]) @ ?k @ (h2 @ rest)"
    using writeFixed32LE_mid [of "pre @ [?t]" "off + 1" h1 "h2 @ rest"] assms(1) h
    by (simp add: hole list_update_append)
  have 2: "writeFixed32LE ((pre @ [?t]) @ ?k @ (h2 @ rest)) (off + 5) (of_nat (length (val e)))
      = pre @ entry_header e @ rest"
    using writeFixed32LE_mid [of "pre @ ?t # ?k" "off + 5" h2 rest] assms(1) h
    by (simp add: entry_header_def)
  have 3: "take kEntryHeaderSize (drop off (pre @ entry_header e @ rest)) = entry_header e"
    using assms(1) by (simp add: wal_sizes)
  show ?thesis
    unfolding encodeEntryFragment_def Let_def prod.case 1 2 3
    by (simp add: wal_sizes entry_bytes_def sw.extend_append appendIovec_acc [of iovs]
        appendIovec_acc [of "_ @ _"])
qed

lemma foldl_encodeEntryFragment:
  assumes "length pre = off" and "length hole = 9 * length es"
  shows "foldl encodeEntryFragment (pre @ hole, iovs, crc, off) es
       = (pre @ concat (map entry_header es), iovs @ entry_iovecs off es,
          extendCrc32cSoftware crc (concat (map entry_bytes es)), off + 9 * length es)"
  using assms
proof (induction es arbitrary: pre hole iovs crc off)
  case Nil
  then show ?case by (simp add: sw.extend_Nil)
next
  case (Cons e es)
  let ?h = "take 9 hole" and ?r = "drop 9 hole"
  have "encodeEntryFragment (pre @ hole, iovs, crc, off) e
      = (pre @ entry_header e @ ?r, iovs @ entry_iovecs off [e],
         extendCrc32cSoftware crc (entry_bytes e), off + 9)"
    using encodeEntryFragment_eq [of pre off ?h ?r iovs crc e] Cons.prems by simp
  moreover have "length (pre @ entry_header e) = off + 9" and "length ?r = 9 * length es"
    using Cons.prems by simp_all
  ultimately show ?case
    using Cons.IH [of "pre @ entry_header e" "off + 9" ?r]
    by (simp add: sw.extend_append)
qed

lemma materialize_entry_iovecs:
  assumes "length pre = off"
  shows "materializeIovecs (pre @ concat (map entry_header es)) fb (entry_iovecs off es)
       = concat (map entry_bytes es)"
  using assms
proof (induction es arbitrary: pre off)
  case Nil
  then show ?case by (simp add: materializeIovecs_def)
next
  case (Cons e es)
  have "length (pre @ entry_header e) = off + 9" using Cons.prems by simp
  from Cons.IH [OF this] Cons.prems show ?case
    by (simp add: materializeIovecs_def appendIovec_def iov_bytes_def entry_bytes_def)
qed

lemma fragments_header:
  "writeFixed32LE (writeFixed64LE ((replicate (21 + m) 0)[8 := kBatchRecord]) 9 base) 17 count
   = (replicate 8 0 @ kBatchRecord # le64 base @ le32 count) @ replicate m 0"
proof -
  have "(replicate (21 + m) 0)[8 := kBatchRecord]
      = (replicate 8 0 @ [kBatchRecord]) @ replicate 8 0 @ replicate (4 + m) 0"
    by (auto simp: list_eq_iff_nth_eq nth_list_update nth_append nth_Cons')
  then have 1: "writeFixed64LE ((replicate (21 + m) 0)[8 := kBatchRecord]) 9 base
      = (replicate 8 0 @ kBatchRecord # le64 base) @ replicate 4 0 @ replicate m 0"
    by (simp only:) (subst writeFixed64LE_mid, simp_all add: replicate_add)
  show ?thesis
    unfolding 1 by (subst writeFixed32LE_mid) simp_all
qed

lemma take21_record_bytes:
  "take 21 (record_bytes base es)
   = le32 (NOT (extendCrc32cSoftware 0xffffffff (payload_bytes base es)))
     @ le32 (of_nat (length (payload_bytes base es)))
     @ kBatchRecord # le64 base @ le32 (of_nat (length es))"
  by (simp add: record_bytes_def Let_def payload_bytes_def)

lemma EncodeBatchFragmentsInto_eq:
  assumes "length (group_entries batches) < 2 ^ 32"
  defines "es \<equiv> group_entries batches"
  shows "EncodeBatchFragmentsInto base batches enc =
    \<lparr>fixed = take 21 (record_bytes base es) @ concat (map entry_header es),
     iovecs = \<lparr>iov_base = InFixed 0, iov_len = 21\<rparr> # entry_iovecs 21 es,
     frag_size = length (record_bytes base es),
     fixed_capacity = max (fixed_capacity enc) (21 + length es * 9),
     iovecs_capacity = max (iovecs_capacity enc) (2 + length es * 3)\<rparr>"
proof -
  let ?count = "of_nat (length es) :: u32"
  let ?hdr = "replicate 8 0 @ kBatchRecord # le64 base @ le32 ?count"
  let ?crc = "extendCrc32cSoftware 0xffffffff (payload_bytes base es)"
  let ?len = "of_nat (length (payload_bytes base es)) :: u32"
  let ?iov = "\<lparr>iov_base = InFixed 0, iov_len = 21\<rparr>"
  let ?buf = "?hdr @ replicate (length es * 9) 0"
  let ?heads = "concat (map entry_header es)"
  have n: "unat ?count = length es" using assms by simp
  have count: "countEntries batches = ?count"
    unfolding es_def by (rule countEntries_eq)
  have size: "EncodedBatchSize batches = length (record_bytes base es)"
    unfolding es_def by (rule EncodedBatchSize_eq)
  have header: "take 12 (drop 9 ?buf) = le64 base @ le32 ?count" by simp
  have loop: "foldl (\<lambda>st b. foldl encodeEntryFragment st (entries b))
        (?buf, [?iov], extendCrc32cSoftware 0xffffffff (le64 base @ le32 ?count), 21) batches
      = (?hdr @ ?heads, [?iov] @ entry_iovecs 21 es, ?crc, 21 + 9 * length es)"
    unfolding foldl_group es_def [symmetric]
    by (subst foldl_encodeEntryFragment)
       (simp_all add: sw.extend_append [symmetric] del: append_assoc, simp add: payload_bytes_def)
  have crc: "writeFixed32LE (?hdr @ ?heads) 0 (NOT ?crc)
      = le32 (NOT ?crc) @ replicate 4 0 @ kBatchRecord # le64 base @ le32 ?count @ ?heads"
    by (simp add: writeFixed32LE_eq)
  have len: "writeFixed32LE
        (le32 (NOT ?crc) @ replicate 4 0 @ kBatchRecord # le64 base @ le32 ?count @ ?heads) 4 ?len
      = take 21 (record_bytes base es) @ ?heads"
    unfolding take21_record_bytes by (subst writeFixed32LE_mid) simp_all
  have patched: "writeFixed32LE (writeFixed32LE (?hdr @ ?heads) 0 (NOT ?crc)) 4 ?len
      = take 21 (record_bytes base es) @ ?heads"
    by (simp only: crc len)
  have iov: "appendIovec [] (InFixed 0) (9 + 12) = [?iov]"
    by (simp add: appendIovec_def)
  have rem: "length (record_bytes base es) - 9 = length (payload_bytes base es)"
    by (simp add: wal_simps)
  have head: "writeFixed32LE (writeFixed64LE ((replicate (9 + 12 + length es * 9) 0)[8 := kBatchRecord]) 9 base)
       (9 + 8) ?count = ?buf"
    using fragments_header [of "length es * 9" base ?count] by simp
  show ?thesis
    unfolding EncodeBatchFragmentsInto_def Let_def count wal_sizes size n head header iov
    using loop patched rem by simp
qed

lemma materialize_fragments:
  assumes "length (group_entries batches) < 2 ^ 32"
  shows "materializeIovecs (fixed (EncodeBatchFragmentsInto base batches enc)) fb
           (iovecs (EncodeBatchFragmentsInto base batches enc))
       = record_bytes base (group_entries batches)"
proof -
  let ?es = "group_entries batches"
  let ?pre = "take 21 (record_bytes base ?es)"
  have pre: "length ?pre = 21" by (simp add: wal_simps)
  have "record_bytes base ?es = ?pre @ concat (map entry_bytes ?es)"
    unfolding take21_record_bytes by (simp add: record_bytes_def Let_def payload_bytes_def)
  moreover have "materializeIovecs (?pre @ concat (map entry_header ?es)) fb (entry_iovecs 21 ?es)
      = concat (map entry_bytes ?es)"
    using pre by (rule materialize_entry_iovecs)
  ultimately show ?thesis
    using pre by (simp add: EncodeBatchFragmentsInto_eq [OF assms] materializeIovecs_def iov_bytes_def)
qed

end
