(* ===== verification/Framed_Log.thy ===== *)
theory Framed_Log
  imports Status_Result
begin

text \<open>
  The interface between a log and the framing of its records: a scanner that takes the log one
  record at a time (\<open>turn\<close>: stop here, fail, or deliver a record and its length), and the
  laws of the framing. The facts every such log has are proved once: a log of whole
  records decodes to exactly these records, whatever follows them is decoded as a log of
  its own, a torn last record is dropped, and the valid prefix decodes to the same records.
\<close>

text \<open>How one turn of the record loop ends.\<close>

datatype 'd turn = Break | Fail Status | Next 'd nat

primrec shift_turn :: "nat \<Rightarrow> 'd turn \<Rightarrow> 'd turn" where
  "shift_turn n Break = Break"
| "shift_turn n (Fail s) = Fail s"
| "shift_turn n (Next d m) = Next d (n + m)"

lemma shift_turn_shift [simp]: "shift_turn n (shift_turn m t) = shift_turn (n + m) t"
  by (cases t) simp_all

text \<open>Put records that were already decoded in front of what the rest of the log gives.\<close>

definition after_records :: "'d list \<Rightarrow> nat \<Rightarrow> ('d list \<times> nat) Result \<Rightarrow> ('d list \<times> nat) Result" where
  "after_records ds n r = (case r of Inl s \<Rightarrow> Inl s | Inr (es, m) \<Rightarrow> Inr (ds @ es, n + m))"

lemma after_records_Inr [simp]: "after_records ds n (Inr (es, m)) = Inr (ds @ es, n + m)"
  by (simp add: after_records_def)

lemma after_records_Inl [simp]: "after_records ds n (Inl s) = Inl s"
  by (simp add: after_records_def)

lemma after_records_after [simp]:
  "after_records ds n (after_records es m r) = after_records (ds @ es) (n + m) r"
  by (simp add: after_records_def add.assoc split: sum.split prod.split)

lemma after_records_Nil [simp]: "after_records [] 0 r = r"
  by (simp add: after_records_def split: sum.split prod.split)

lemma after_records_eq_Inr:
  "after_records ds n r = Inr (xs, m) \<longleftrightarrow> (\<exists>es k. r = Inr (es, k) \<and> xs = ds @ es \<and> m = n + k)"
  by (auto simp: after_records_def split: sum.split prod.split)

locale framed_log =
  fixes step :: "bytes \<Rightarrow> 'd turn"
    and scan :: "bytes \<Rightarrow> ('d list \<times> nat) Result"
    and enc :: "'r \<Rightarrow> bytes"
    and dec :: "'r \<Rightarrow> 'd"
    and wf :: "'r \<Rightarrow> bool"
  assumes scan_step: "scan bs =
      (if bs = [] then Inr ([], 0)
       else case step bs of Break \<Rightarrow> Inr ([], 0) | Fail s \<Rightarrow> Inl s
         | Next d n \<Rightarrow> after_records [d] n (scan (drop n bs)))"
    and step_record: "wf r \<Longrightarrow> step (enc r @ rest) = Next (dec r) (length (enc r))"
    and step_torn: "wf r \<Longrightarrow> strict_prefix p (enc r) \<Longrightarrow> step p = Break"
    and step_bounds: "step bs = Next d n \<Longrightarrow> 0 < n \<and> n \<le> length bs"
    and step_local: "step bs = Next d n \<Longrightarrow> step (take n bs @ rest) = Next d n"
begin

lemma enc_nonempty: "wf r \<Longrightarrow> enc r \<noteq> []"
  using step_record [of r "[]"] step_bounds [of "enc r @ []"] by fastforce

lemma scan_record: "wf r \<Longrightarrow> scan (enc r @ rest) = after_records [dec r] (length (enc r)) (scan rest)"
  by (subst scan_step) (simp add: step_record enc_nonempty)

lemma scan_records:
  assumes "\<forall>r \<in> set rs. wf r"
  shows "scan (concat (map enc rs) @ rest)
       = after_records (map dec rs) (length (concat (map enc rs))) (scan rest)"
  using assms by (induction rs) (simp_all add: scan_record)

lemma scan_torn:
  assumes "wf r" and "strict_prefix p (enc r)"
  shows "scan p = Inr ([], 0)"
  by (subst scan_step) (simp add: step_torn [OF assms])

lemma scan_Nil: "scan [] = Inr ([], 0)"
  by (subst scan_step) simp

lemma scan_log:
  assumes "\<forall>r \<in> set rs. wf r"
  shows "scan (concat (map enc rs)) = Inr (map dec rs, length (concat (map enc rs)))"
  using scan_records [OF assms, of "[]"] by (simp add: scan_Nil)

lemma scan_log_torn:
  assumes "\<forall>r \<in> set rs. wf r" and "wf r" and "strict_prefix p (enc r)"
  shows "scan (concat (map enc rs) @ p) = Inr (map dec rs, length (concat (map enc rs)))"
  using scan_records [OF assms(1), of p] by (simp add: scan_torn [OF assms(2,3)])

lemma scan_valid:
  assumes "scan bs = Inr (ds, v)"
  shows "v \<le> length bs \<and> scan (take v bs) = Inr (ds, v)"
  using assms
proof (induction "length bs" arbitrary: bs ds v rule: less_induct)
  case less
  show ?case
  proof (cases "bs = [] \<or> step bs = Break")
    case True
    then have "scan bs = Inr ([], 0)" by (subst scan_step) auto
    with less.prems show ?thesis by (simp add: scan_Nil)
  next
    case False
    then obtain d n where s: "step bs = Next d n"
      using less.prems by (subst (asm) scan_step) (cases "step bs", auto)
    with False less.prems have "after_records [d] n (scan (drop n bs)) = Inr (ds, v)"
      by (subst (asm) scan_step) simp
    then obtain es k where k: "scan (drop n bs) = Inr (es, k)" "ds = d # es" "v = n + k"
      by (auto simp: after_records_eq_Inr)
    note b = step_bounds [OF s]
    from less.hyps [OF _ k(1)] b False
    have IH: "k \<le> length (drop n bs)" "scan (take k (drop n bs)) = Inr (es, k)" by auto
    have cut: "take v bs = take n bs @ take k (drop n bs)" by (simp add: k(3) take_add)
    have "scan (take v bs) = after_records [d] n (scan (take k (drop n bs)))"
      using b False step_local [OF s, of "take k (drop n bs)"]
      by (subst scan_step) (auto simp: cut)
    with IH k b show ?thesis by auto
  qed
qed

end

end
