(* ===== verification/Wal_Decode.thy ===== *)
theory Wal_Decode
  imports Wal_Format Framed_Log
begin

text \<open>
  The decoding half of \<open>src/src/wal.cc\<close>: \<open>DecodeLog\<close>. One turn of its outer loop is
  \<open>decodeRecord\<close>, which breaks, fails with a status or delivers a batch and the next offset;
  the inner loop over the entries of a record is \<open>decodeEntries\<close>.

  The scan of a log of framed records is an interface of its own (\<open>framed_log\<close>): what a
  log of whole records decodes to, that a torn tail is dropped, that the valid prefix decodes
  to the same batches. The decoder is an instance for every processor that computes the checksum
  as documented.
\<close>

unbundle bit_operations_syntax

section \<open>Definitions\<close>

record DecodedBatch =
  baseSequence :: u64
  batch :: WriteBatch

record DecodeResult =
  batches :: "DecodedBatch list"
  validBytes :: nat

primrec decodeEntries :: "nat \<Rightarrow> bytes \<Rightarrow> nat \<Rightarrow> WriteBatch \<Rightarrow> WriteBatch Result" where
  "decodeEntries 0 payload payloadOffset b = Inr b"
| "decodeEntries (Suc n) payload payloadOffset b =
     (if payloadOffset \<ge> length payload then Inl (Corruption ''truncated WAL batch entry'')
      else let typeByte = payload ! payloadOffset
      in case readFixed32LE payload (payloadOffset + 1) of
        None \<Rightarrow> Inl (Corruption ''invalid WAL batch entry'')
      | Some (keySize, payloadOffset) \<Rightarrow>
        (case readFixed32LE payload payloadOffset of
          None \<Rightarrow> Inl (Corruption ''invalid WAL batch entry'')
        | Some (valueSize, payloadOffset) \<Rightarrow>
          if payloadOffset + unat keySize + unat valueSize > length payload
          then Inl (Corruption ''truncated WAL batch payload'')
          else let k = take (unat keySize) (drop payloadOffset payload);
                   payloadOffset = payloadOffset + unat keySize;
                   v = take (unat valueSize) (drop payloadOffset payload);
                   payloadOffset = payloadOffset + unat valueSize
          in if typeByte = type_value kPut then decodeEntries n payload payloadOffset (Put b k v)
             else if typeByte = type_value kDelete
             then decodeEntries n payload payloadOffset (Delete b k)
             else Inl (Corruption ''unknown WAL entry type'')))"

definition decodePayload :: "bytes \<Rightarrow> DecodedBatch Result" where
  "decodePayload payload =
     (case readFixed64LE payload 0 of
        None \<Rightarrow> Inl (Corruption ''invalid WAL batch header'')
      | Some (base, payloadOffset) \<Rightarrow>
        (case readFixed32LE payload payloadOffset of
           None \<Rightarrow> Inl (Corruption ''invalid WAL batch header'')
         | Some (entryCount, payloadOffset) \<Rightarrow>
           (case decodeEntries (unat entryCount) payload payloadOffset WriteBatch_new of
              Inl s \<Rightarrow> Inl s
            | Inr b \<Rightarrow> Inr \<lparr>baseSequence = base, batch = b\<rparr>)))"

definition decodeRecord :: "cpu \<Rightarrow> bytes \<Rightarrow> nat \<Rightarrow> DecodedBatch turn" where
  "decodeRecord c bytes recordOffset =
     (case readFixed32LE bytes recordOffset of
        None \<Rightarrow> Break
      | Some (expectedCrc, offset) \<Rightarrow>
      (case readFixed32LE bytes offset of
        None \<Rightarrow> Break
      | Some (len, offset) \<Rightarrow>
        if offset \<ge> length bytes then Break
        else let type = bytes ! offset; offset = offset + 1
        in if offset + unat len > length bytes then Break
           else if type \<noteq> kBatchRecord then Fail (Corruption ''unknown WAL record type'')
           else let payload = take (unat len) (drop offset bytes)
           in if Crc32C c payload \<noteq> expectedCrc
              then if recordOffset + 9 + unat len \<ge> length bytes then Break
                   else Fail (Corruption ''WAL checksum mismatch'')
              else case decodePayload payload of
                     Inl s \<Rightarrow> Fail s
                   | Inr decoded \<Rightarrow> Next decoded (offset + unat len)))"

lemma readFixed32LE_SomeD: "readFixed32LE bs off = Some (v, off') \<Longrightarrow> off' = off + 4"
  by (simp add: readFixed32LE_def split: if_splits)

lemma readFixed32LE_None_iff: "readFixed32LE bs off = None \<longleftrightarrow> length bs < off + 4"
  by (simp add: readFixed32LE_def)

lemma readFixed32LE_ex: "off + 4 \<le> length bs \<Longrightarrow> \<exists>v. readFixed32LE bs off = Some (v, off + 4)"
  by (simp add: readFixed32LE_def)

lemma decodeRecord_short: "length bs < off + 9 \<Longrightarrow> decodeRecord c bs off = Break"
  by (auto simp: decodeRecord_def readFixed32LE_None_iff split: option.splits dest!: readFixed32LE_SomeD)

text \<open>What the loop body does once the nine header bytes are there.\<close>

lemma decodeRecord_header:
  assumes "readFixed32LE bs off = Some (expected, off + 4)"
    and "readFixed32LE bs (off + 4) = Some (len, off + 8)"
    and "off + 9 \<le> length bs"
  shows "decodeRecord c bs off =
     (if off + 9 + unat len > length bs then Break
      else if bs ! (off + 8) \<noteq> kBatchRecord then Fail (Corruption ''unknown WAL record type'')
      else let payload = take (unat len) (drop (off + 9) bs)
      in if Crc32C c payload \<noteq> expected
         then if off + 9 + unat len \<ge> length bs then Break
              else Fail (Corruption ''WAL checksum mismatch'')
         else case decodePayload payload of
                Inl s \<Rightarrow> Fail s
              | Inr decoded \<Rightarrow> Next decoded (off + 9 + unat len))"
proof -
  have "off + 8 + 1 = off + 9" and "(off + 8 \<ge> length bs) = False" using assms(3) by simp_all
  then show ?thesis
    unfolding decodeRecord_def Let_def
    by (simp only: assms(1,2) option.case prod.case if_False)
qed

lemma decodeRecord_cases:
  obtains (short) "length bs < off + 9" "decodeRecord c bs off = Break"
  | (header) expected len where "off + 9 \<le> length bs"
      "readFixed32LE bs off = Some (expected, off + 4)"
      "readFixed32LE bs (off + 4) = Some (len, off + 8)"
proof (cases "off + 9 \<le> length bs")
  case True
  then obtain x y where "readFixed32LE bs off = Some (x, off + 4)"
    and "readFixed32LE bs (off + 4) = Some (y, off + 4 + 4)"
    using readFixed32LE_ex [of off bs] readFixed32LE_ex [of "off + 4" bs] by auto
  with True header show thesis by (simp add: add.assoc)
next
  case False
  with short show thesis by (simp add: decodeRecord_short)
qed

lemma decodeRecord_Next_offset:
  assumes "decodeRecord c bs off = Next d off'"
  shows "off + 9 \<le> off' \<and> off' \<le> length bs"
proof (rule decodeRecord_cases [where bs = bs and off = off and c = c])
  assume "decodeRecord c bs off = Break"
  with assms show ?thesis by simp
next
  fix expected len
  assume header: "off + 9 \<le> length bs" "readFixed32LE bs off = Some (expected, off + 4)"
    "readFixed32LE bs (off + 4) = Some (len, off + 8)"
  show ?thesis
    using assms unfolding decodeRecord_header [OF header(2,3,1)]
    by (auto simp: Let_def split: if_splits sum.splits)
qed

function DecodeLoop :: "cpu \<Rightarrow> bytes \<Rightarrow> nat \<Rightarrow> DecodeResult \<Rightarrow> DecodeResult Result" where
  "DecodeLoop c bytes offset result =
     (if offset < length bytes
      then case decodeRecord c bytes offset of
             Break \<Rightarrow> Inr result
           | Fail s \<Rightarrow> Inl s
           | Next decoded offset \<Rightarrow>
               DecodeLoop c bytes offset
                 (result\<lparr>batches := batches result @ [decoded], validBytes := offset\<rparr>)
      else Inr result)"
  by pat_completeness auto
termination
  by (relation "measure (\<lambda>(c, bytes, offset, result). length bytes - offset)")
     (auto dest!: decodeRecord_Next_offset)

declare DecodeLoop.simps [simp del]

definition DecodeLog :: "cpu \<Rightarrow> bytes \<Rightarrow> DecodeResult Result" where
  "DecodeLog c bytes = DecodeLoop c bytes 0 \<lparr>batches = [], validBytes = 0\<rparr>"

section \<open>A turn depends on the rest of the log only\<close>

lemma readFixed32LE_drop:
  "off \<le> length bs \<Longrightarrow>
   readFixed32LE bs (off + n) = map_option (\<lambda>(v, m). (v, off + m)) (readFixed32LE (drop off bs) n)"
  by (auto simp: readFixed32LE_def add.assoc)

lemma decodeRecord_drop:
  assumes "off \<le> length bs"
  shows "decodeRecord c bs off = shift_turn off (decodeRecord c (drop off bs) 0)"
proof (rule decodeRecord_cases [where bs = "drop off bs" and off = 0 and c = c])
  assume "length (drop off bs) < 0 + 9"
  with assms show ?thesis by (simp add: decodeRecord_short)
next
  fix x y
  assume header: "0 + 9 \<le> length (drop off bs)" "readFixed32LE (drop off bs) 0 = Some (x, 0 + 4)"
    "readFixed32LE (drop off bs) (0 + 4) = Some (y, 0 + 8)"
  then have fits: "off + 9 \<le> length bs" using assms by simp
  have x': "readFixed32LE bs off = Some (x, off + 4)"
    using readFixed32LE_drop [OF assms, of 0] header(2) by simp
  have y': "readFixed32LE bs (off + 4) = Some (y, off + 8)"
    using readFixed32LE_drop [OF assms, of 4] header(3) by simp
  have cmp: "off + 9 + m > length bs \<longleftrightarrow> 0 + 9 + m > length (drop off bs)"
    "off + 9 + m \<ge> length bs \<longleftrightarrow> 0 + 9 + m \<ge> length (drop off bs)" for m
    using fits by auto
  have nth: "bs ! (off + 8) = drop off bs ! (0 + 8)" using assms by simp
  have pay: "drop (off + 9) bs = drop (0 + 9) (drop off bs)" by (simp add: add.commute)
  show ?thesis
    unfolding decodeRecord_header [OF x' y' fits] decodeRecord_header [OF header(2,3,1)] cmp nth pay
    by (simp add: Let_def split: sum.split)
qed

section \<open>The decoder scans a framed log\<close>

text \<open>The loop from an offset, with its accumulated result, as a scan of the rest of the log.\<close>

definition wal_scan :: "cpu \<Rightarrow> bytes \<Rightarrow> (DecodedBatch list \<times> nat) Result" where
  "wal_scan c bs = map_sum id (\<lambda>r. (batches r, validBytes r)) (DecodeLog c bs)"

lemma decodeRecord_shift:
  assumes "off + m \<le> length bs"
  shows "decodeRecord c bs (off + m) = shift_turn off (decodeRecord c (drop off bs) m)"
  using assms decodeRecord_drop [of "off + m" bs c] decodeRecord_drop [of m "drop off bs" c]
  by (simp add: add.commute)

lemma DecodeLoop_shift:
  assumes "off \<le> length bs"
  shows "DecodeLoop c bs (off + m) \<lparr>batches = ds @ es, validBytes = off + v\<rparr> =
     map_sum id (\<lambda>r. \<lparr>batches = ds @ batches r, validBytes = off + validBytes r\<rparr>)
       (DecodeLoop c (drop off bs) m \<lparr>batches = es, validBytes = v\<rparr>)"
proof (induction "length bs - (off + m)" arbitrary: m es v rule: less_induct)
  case less
  show ?case
  proof (cases "off + m < length bs")
    case False
    then have "\<not> m < length (drop off bs)" by simp
    with False show ?thesis
      by (simp add: DecodeLoop.simps [of c bs "off + m"] DecodeLoop.simps [of c "drop off bs" m])
  next
    case True
    then have inner: "m < length bs - off" by simp
    from True have shift: "decodeRecord c bs (off + m) = shift_turn off (decodeRecord c (drop off bs) m)"
      by (simp add: decodeRecord_shift)
    show ?thesis
    proof (cases "decodeRecord c (drop off bs) m")
      case (Next d n)
      then have "m + 9 \<le> n" using decodeRecord_Next_offset by blast
      with less [of n "es @ [d]" n] True inner Next shift show ?thesis
        by (simp add: DecodeLoop.simps [of c bs "off + m"] DecodeLoop.simps [of c "drop off bs" m])
    qed (use True inner shift in \<open>simp_all add: DecodeLoop.simps [of c bs "off + m"] DecodeLoop.simps [of c "drop off bs" m]\<close>)
  qed
qed

lemma wal_scan_step:
  "wal_scan c bs =
     (if bs = [] then Inr ([], 0)
      else case decodeRecord c bs 0 of Break \<Rightarrow> Inr ([], 0) | Fail s \<Rightarrow> Inl s
        | Next d n \<Rightarrow> after_records [d] n (wal_scan c (drop n bs)))"
proof (cases "decodeRecord c bs 0")
  case (Next d n)
  then have "n \<le> length bs" using decodeRecord_Next_offset by blast
  from DecodeLoop_shift [OF this, of c 0 "[d]" "[]" 0] Next show ?thesis
    by (cases "DecodeLoop c (drop n bs) 0 \<lparr>batches = [], validBytes = 0\<rparr>")
       (auto simp: wal_scan_def DecodeLog_def DecodeLoop.simps [of c bs 0])
qed (simp_all add: wal_scan_def DecodeLog_def DecodeLoop.simps [of c bs 0])

section \<open>Records written by the encoder\<close>

text \<open>
  A record the encoder can frame: every length fits its 32-bit field, and deletions carry no
  value, as every batch built through the interface has it.
\<close>

definition entries_wf :: "Entry list \<Rightarrow> bool" where
  "entries_wf es \<longleftrightarrow> (\<forall>e \<in> set es. etype e = kDelete \<longrightarrow> val e = [])"

definition record_wf :: "u64 \<times> Entry list \<Rightarrow> bool" where
  "record_wf r \<longleftrightarrow> entries_wf (snd r) \<and> length (payload_bytes (fst r) (snd r)) < 2 ^ 32"

definition decoded_batch :: "u64 \<times> Entry list \<Rightarrow> DecodedBatch" where
  "decoded_batch r = \<lparr>baseSequence = fst r, batch = \<lparr>entries = snd r\<rparr>\<rparr>"

abbreviation encode_record :: "u64 \<times> Entry list \<Rightarrow> bytes" where
  "encode_record r \<equiv> record_bytes (fst r) (snd r)"

lemma entry_length_le:
  "e \<in> set es \<Longrightarrow> 9 + length (key e) + length (val e) \<le> length (concat (map entry_bytes es))"
  by (induction es) (auto simp del: length_concat)

lemma entries_length_le: "length es \<le> length (concat (map entry_bytes es))"
  by (induction es) simp_all

lemma decodeEntries_entry:
  assumes "length (key e) < 2 ^ 32" and "length (val e) < 2 ^ 32" and "length pre = off"
  shows "decodeEntries (Suc n) (pre @ entry_bytes e @ rest) off b =
     (if etype e = kPut then decodeEntries n (pre @ entry_bytes e @ rest) (off + length (entry_bytes e)) (Put b (key e) (val e))
      else decodeEntries n (pre @ entry_bytes e @ rest) (off + length (entry_bytes e)) (Delete b (key e)))"
proof -
  let ?k = "of_nat (length (key e)) :: u32" and ?v = "of_nat (length (val e)) :: u32"
  define P where "P = pre @ entry_bytes e @ rest"
  have p: "P = pre @ type_value (etype e) # le32 ?k @ le32 ?v @ key e @ val e @ rest"
    by (simp add: P_def entry_bytes_def entry_header_def)
  have k: "readFixed32LE P (off + 1) = Some (?k, off + 5)"
    using readFixed32LE_append [of "pre @ [type_value (etype e)]" "off + 1" ?k] assms(3)
    by (simp add: p)
  have v: "readFixed32LE P (off + 5) = Some (?v, off + 9)"
    using readFixed32LE_append [of "pre @ type_value (etype e) # le32 ?k" "off + 5" ?v] assms(3)
    by (simp add: p)
  have t: "P ! off = type_value (etype e)" using assms(3) by (simp add: p nth_append)
  have body: "drop (off + 9) P = key e @ val e @ rest"
    using assms(3) by (simp add: p)
  then have body': "drop (off + 9 + length (key e)) P = val e @ rest"
    by (metis append_eq_conv_conj add.commute drop_drop)
  have len: "(length P \<le> off) = False" "\<not> off + 9 + length (key e) + length (val e) > length P"
    using assms(3) by (simp_all add: p)
  have stop: "off + 9 + length (key e) + length (val e) = off + length (entry_bytes e)" by simp
  show ?thesis
    using k assms(1,2) len(2) unfolding P_def [symmetric]
    by (cases "etype e")
       (simp_all add: Let_def t v body body' stop len(1) del: length_entry_bytes)
qed

lemma decodeEntries_concat:
  assumes "entries_wf es" and "length (concat (map entry_bytes es)) < 2 ^ 32" and "length pre = off"
  shows "decodeEntries (length es) (pre @ concat (map entry_bytes es)) off b
       = Inr (b\<lparr>entries := entries b @ es\<rparr>)"
  using assms
proof (induction es arbitrary: pre off b)
  case Nil
  then show ?case by simp
next
  case (Cons e es)
  let ?rest = "concat (map entry_bytes es)"
  have fits: "length (key e) < 2 ^ 32" "length (val e) < 2 ^ 32" using Cons.prems(2) by simp_all
  have wf: "entries_wf es" "etype e = kDelete \<longrightarrow> val e = []"
    using Cons.prems(1) by (simp_all add: entries_wf_def)
  have small: "length ?rest < 2 ^ 32" using Cons.prems(2) by (simp del: length_concat)
  have adv: "length (pre @ entry_bytes e) = off + length (entry_bytes e)" using Cons.prems(3) by simp
  note IH = Cons.IH [OF wf(1) small adv]
  show ?case
  proof (cases "etype e")
    case kPut
    then have "e = \<lparr>etype = kPut, key = key e, val = val e\<rparr>" by (cases e) simp
    then show ?thesis
      using decodeEntries_entry [OF fits Cons.prems(3), of "length es" ?rest b] IH kPut by simp
  next
    case kDelete
    with wf(2) have "e = \<lparr>etype = kDelete, key = key e, val = []\<rparr>" by (cases e) simp
    then show ?thesis
      using decodeEntries_entry [OF fits Cons.prems(3), of "length es" ?rest b] IH kDelete by simp
  qed
qed

lemma decodePayload_bytes:
  assumes "record_wf r"
  shows "decodePayload (payload_bytes (fst r) (snd r)) = Inr (decoded_batch r)"
proof -
  obtain base es where r: "r = (base, es)" by (cases r)
  let ?c = "of_nat (length es) :: u32" and ?es = "concat (map entry_bytes es)"
  have small: "length ?es < 2 ^ 32" and wf: "entries_wf es"
    using assms by (simp_all add: record_wf_def r length_payload_bytes)
  then have count: "unat ?c = length es"
    using entries_length_le [of es] by simp
  have 1: "readFixed64LE (payload_bytes base es) 0 = Some (base, 8)"
    using readFixed64LE_append [of "[]" 0 base] by (simp add: payload_bytes_def)
  have 2: "readFixed32LE (payload_bytes base es) 8 = Some (?c, 12)"
    using readFixed32LE_append [of "le64 base" 8 ?c ?es] by (simp add: payload_bytes_def)
  have 3: "decodeEntries (length es) (payload_bytes base es) 12 WriteBatch_new
      = Inr \<lparr>entries = es\<rparr>"
    using decodeEntries_concat [OF wf small, of "le64 base @ le32 ?c" 12 WriteBatch_new]
    by (simp add: payload_bytes_def WriteBatch_new_def)
  show ?thesis
    by (simp add: decodePayload_def r 1 2 3 count decoded_batch_def)
qed

lemma record_bytes_header:
  assumes "length (payload_bytes base es) < 2 ^ 32"
  defines "payload \<equiv> payload_bytes base es"
  shows "readFixed32LE (record_bytes base es @ rest) 0
       = Some (NOT (extendCrc32cSoftware 0xffffffff payload), 0 + 4)"
    and "readFixed32LE (record_bytes base es @ rest) (0 + 4) = Some (of_nat (length payload), 0 + 8)"
    and "record_bytes base es ! 8 = kBatchRecord"
    and "drop 9 (record_bytes base es) = payload"
    and "length (record_bytes base es) = 9 + length payload"
proof -
  let ?crc = "NOT (extendCrc32cSoftware 0xffffffff payload)"
  let ?len = "of_nat (length payload) :: u32"
  have r: "record_bytes base es = le32 ?crc @ le32 ?len @ kBatchRecord # payload"
    by (simp add: record_bytes_def Let_def payload_def)
  show "readFixed32LE (record_bytes base es @ rest) 0 = Some (?crc, 0 + 4)"
    using readFixed32LE_append [of "[]" 0 ?crc] by (simp add: r)
  show "readFixed32LE (record_bytes base es @ rest) (0 + 4) = Some (?len, 0 + 8)"
    using readFixed32LE_append [of "le32 ?crc" 4 ?len] by (simp add: r)
  show "record_bytes base es ! 8 = kBatchRecord" "drop 9 (record_bytes base es) = payload"
    "length (record_bytes base es) = 9 + length payload"
    by (simp_all add: r nth_append)
qed

lemma decodeRecord_record:
  assumes "cpu_documented c" and "record_wf r"
  shows "decodeRecord c (encode_record r @ rest) 0 = Next (decoded_batch r) (length (encode_record r))"
proof -
  have fits: "length (payload_bytes (fst r) (snd r)) < 2 ^ 32"
    using assms(2) by (simp add: record_wf_def)
  note h = record_bytes_header [OF fits]
  have nine: "0 + 9 \<le> length (encode_record r @ rest)" using h(5) by simp
  show ?thesis
    unfolding decodeRecord_header [OF h(1,2) nine]
    using h(3,4,5) fits decodePayload_bytes [OF assms(2)]
    by (simp add: nth_append Let_def Crc32C_software [OF assms(1)])
qed

lemma readFixed32LE_prefix:
  assumes "n + 4 \<le> length p"
  shows "readFixed32LE (p @ q) n = readFixed32LE p n"
proof -
  have "(p @ q) ! (n + i) = p ! (n + i)" if "i < 4" for i
    using assms that by (simp add: nth_append)
  then have "fold (\<lambda>i v. v OR push_bit (i * 8) (ucast ((p @ q) ! (n + i)))) [0..<4] 0
      = fold (\<lambda>i v. v OR push_bit (i * 8) (ucast (p ! (n + i)))) [0..<4] (0 :: u32)"
    by (rule fold_join_cong)
  with assms show ?thesis unfolding readFixed32LE_def by (simp only:) simp
qed

lemma decodeRecord_torn:
  assumes "record_wf r" and "strict_prefix p (encode_record r)"
  shows "decodeRecord c p 0 = Break"
proof (cases "length p < 9")
  case True
  then show ?thesis by (simp add: decodeRecord_short)
next
  case False
  have fits: "length (payload_bytes (fst r) (snd r)) < 2 ^ 32"
    using assms(1) by (simp add: record_wf_def)
  note h = record_bytes_header [OF fits]
  have lt: "length p < length (encode_record r)" using assms(2) by (rule strict_prefix_lengthD)
  from assms(2) obtain q where q: "encode_record r = p @ q" by (auto simp: strict_prefix_def prefix_def)
  have 1: "readFixed32LE p 0 = Some (NOT (extendCrc32cSoftware 0xffffffff (payload_bytes (fst r) (snd r))), 0 + 4)"
    using h(1) [of "[]"] readFixed32LE_prefix [of 0 p q] False by (simp add: q)
  have 2: "readFixed32LE p (0 + 4) = Some (of_nat (length (payload_bytes (fst r) (snd r))), 0 + 8)"
    using h(2) [of "[]"] readFixed32LE_prefix [of 4 p q] False by (simp add: q)
  have nine: "0 + 9 \<le> length p" using False by simp
  show ?thesis
    unfolding decodeRecord_header [OF 1 2 nine] using lt h(5) fits by simp
qed

text \<open>What one turn reads: nothing beyond the record it delivers.\<close>

lemma decodeRecord_local:
  assumes "decodeRecord c bs 0 = Next d n"
  shows "decodeRecord c (take n bs @ rest) 0 = Next d n"
proof (rule decodeRecord_cases [where bs = bs and off = 0 and c = c])
  assume "decodeRecord c bs 0 = Break"
  with assms show ?thesis by simp
next
  fix expected len
  assume h: "0 + 9 \<le> length bs" "readFixed32LE bs 0 = Some (expected, 0 + 4)"
    "readFixed32LE bs (0 + 4) = Some (len, 0 + 8)"
  have n: "n = 9 + unat len" "n \<le> length bs"
    using assms unfolding decodeRecord_header [OF h(2,3,1)]
    by (auto simp: Let_def split: if_splits sum.splits)
  let ?bs = "take n bs @ rest"
  have 1: "readFixed32LE ?bs 0 = Some (expected, 0 + 4)"
    using h(2) readFixed32LE_prefix [of 0 "take n bs" rest] readFixed32LE_prefix [of 0 "take n bs" "drop n bs"] n
    by simp
  have 2: "readFixed32LE ?bs (0 + 4) = Some (len, 0 + 8)"
    using h(3) readFixed32LE_prefix [of 4 "take n bs" rest] readFixed32LE_prefix [of 4 "take n bs" "drop n bs"] n
    by simp
  have 3: "0 + 9 \<le> length ?bs" using n by simp
  have "take (unat len) (drop 9 ?bs) = take (unat len) (drop 9 bs)"
    using n by (simp add: take_drop)
  then show ?thesis
    using assms n unfolding decodeRecord_header [OF h(2,3,1)] decodeRecord_header [OF 1 2 3]
    by (auto simp: Let_def nth_append split: if_splits sum.splits)
qed

lemma framed_log_wal:
  assumes "cpu_documented c"
  shows "framed_log (\<lambda>bs. decodeRecord c bs 0) (wal_scan c) encode_record decoded_batch record_wf"
proof
  fix bs rest p r and d :: DecodedBatch and n
  show "wal_scan c bs =
      (if bs = [] then Inr ([], 0)
       else case decodeRecord c bs 0 of Break \<Rightarrow> Inr ([], 0) | Fail s \<Rightarrow> Inl s
         | Next d n \<Rightarrow> after_records [d] n (wal_scan c (drop n bs)))"
    by (rule wal_scan_step)
  show "record_wf r \<Longrightarrow>
      decodeRecord c (encode_record r @ rest) 0 = Next (decoded_batch r) (length (encode_record r))"
    by (rule decodeRecord_record [OF assms])
  show "record_wf r \<Longrightarrow> strict_prefix p (encode_record r) \<Longrightarrow> decodeRecord c p 0 = Break"
    by (rule decodeRecord_torn)
  show "decodeRecord c bs 0 = Next d n \<Longrightarrow> 0 < n \<and> n \<le> length bs"
    by (drule decodeRecord_Next_offset) simp
  show "decodeRecord c bs 0 = Next d n \<Longrightarrow> decodeRecord c (take n bs @ rest) 0 = Next d n"
    by (rule decodeRecord_local)
qed

interpretation hw_log: framed_log "\<lambda>bs. decodeRecord reference_cpu bs 0" "wal_scan reference_cpu"
  encode_record decoded_batch record_wf
  by (rule framed_log_wal) simp

interpretation sw_log: framed_log "\<lambda>bs. decodeRecord portable_cpu bs 0" "wal_scan portable_cpu"
  encode_record decoded_batch record_wf
  by (rule framed_log_wal) simp

lemma DecodeLog_scan:
  "DecodeLog c bs = map_sum id (\<lambda>(ds, v). \<lparr>batches = ds, validBytes = v\<rparr>) (wal_scan c bs)"
  by (cases "DecodeLog c bs") (simp_all add: wal_scan_def)

lemma wal_scan_Inr_iff:
  "wal_scan c bs = Inr (ds, v) \<longleftrightarrow> DecodeLog c bs = Inr \<lparr>batches = ds, validBytes = v\<rparr>"
  by (cases "DecodeLog c bs") (auto simp: wal_scan_def)

section \<open>Failures\<close>

lemma decodeEntries_error:
  "decodeEntries n p off b = Inl s \<Longrightarrow> code s = kCorruption"
  by (induction n arbitrary: off b)
     (auto simp: Let_def split: if_splits option.splits)

lemma decodePayload_error: "decodePayload p = Inl s \<Longrightarrow> code s = kCorruption"
  unfolding decodePayload_def
  by (auto split: option.splits sum.splits) (erule decodeEntries_error)

lemma decodeRecord_error:
  assumes "decodeRecord c bs off = Fail s"
  shows "code s = kCorruption"
proof (rule decodeRecord_cases [where bs = bs and off = off and c = c])
  assume "decodeRecord c bs off = Break"
  with assms show ?thesis by simp
next
  fix expected len
  assume h: "off + 9 \<le> length bs" "readFixed32LE bs off = Some (expected, off + 4)"
    "readFixed32LE bs (off + 4) = Some (len, off + 8)"
  show ?thesis
    using assms unfolding decodeRecord_header [OF h(2,3,1)]
    by (auto simp: Let_def split: if_splits sum.splits elim: decodePayload_error)
qed

lemma DecodeLoop_error: "DecodeLoop c bs off res = Inl s \<Longrightarrow> code s = kCorruption"
proof (induction c bs off res rule: DecodeLoop.induct)
  case (1 c bs off res)
  from 1(2) show ?case
    by (subst (asm) DecodeLoop.simps)
       (auto split: if_splits turn.splits elim: decodeRecord_error 1(1))
qed

lemma wal_scan_error: "wal_scan c bs = Inl s \<Longrightarrow> \<not> ok s"
  by (cases "DecodeLog c bs") (auto simp: wal_scan_def DecodeLog_def ok_def dest!: DecodeLoop_error)

text \<open>A record whose payload was replaced by other bytes of the same length.\<close>

lemma decodeRecord_bad_checksum:
  assumes "cpu_documented c" and "length (payload_bytes (fst r) (snd r)) < 2 ^ 32"
    and "length payload = length (payload_bytes (fst r) (snd r))"
    and "Crc32C c payload \<noteq> Crc32C c (payload_bytes (fst r) (snd r))"
  shows "decodeRecord c (take 9 (encode_record r) @ payload @ rest) 0
       = (if rest = [] then Break else Fail (Corruption ''WAL checksum mismatch''))"
proof -
  define hd9 where "hd9 = take 9 (encode_record r)"
  note h = record_bytes_header [OF assms(2)]
  have nine: "length hd9 = 9" using h(5) by (simp add: hd9_def)
  have whole: "encode_record r = hd9 @ drop 9 (encode_record r)" by (simp add: hd9_def)
  have any: "readFixed32LE (hd9 @ x) n = readFixed32LE (encode_record r) n" if "n + 4 \<le> 9" for x n
    using that nine whole readFixed32LE_prefix [of n hd9 x]
      readFixed32LE_prefix [of n hd9 "drop 9 (encode_record r)"] by simp
  have 1: "readFixed32LE (hd9 @ payload @ rest) 0
      = Some (NOT (extendCrc32cSoftware 0xffffffff (payload_bytes (fst r) (snd r))), 0 + 4)"
    using h(1) [of "[]"] any [of 0] by simp
  have 2: "readFixed32LE (hd9 @ payload @ rest) (0 + 4)
      = Some (of_nat (length (payload_bytes (fst r) (snd r))), 0 + 8)"
    using h(2) [of "[]"] any [of 4] by simp
  have 3: "0 + 9 \<le> length (hd9 @ payload @ rest)" using nine by simp
  have type: "hd9 ! 8 = kBatchRecord" using h(3) by (simp add: hd9_def)
  have "NOT (extendCrc32cSoftware 0xffffffff (payload_bytes (fst r) (snd r)))
      = Crc32C c (payload_bytes (fst r) (snd r))"
    by (simp only: Crc32C_software [OF assms(1)])
  with type assms(2,3,4) nine show ?thesis
    unfolding hd9_def [symmetric] decodeRecord_header [OF 1 2 3]
    by (simp add: nth_append Let_def)
qed

text \<open>Nine zero bytes are a header with an empty payload and no known type.\<close>

lemma decode_zero_tail:
  assumes "cpu_documented c" and "\<forall>r \<in> set log. record_wf r" and "9 \<le> n"
  shows "DecodeLog c (concat (map encode_record log) @ replicate n 0) =
    Inl (Corruption ''unknown WAL record type'')"
proof -
  have read: "readFixed32LE (replicate n 0) off = Some (0, off + 4)" if "off + 4 \<le> n" for off
    using that by (simp add: readFixed32LE_def upt_rec4)
  have "decodeRecord c (replicate n 0) 0 = Fail (Corruption ''unknown WAL record type'')"
    using assms(3) decodeRecord_header [of "replicate n 0" 0 0 0 c] read [of 0] read [of 4]
    by (simp add: kBatchRecord_def)
  then have "wal_scan c (replicate n 0) = Inl (Corruption ''unknown WAL record type'')"
    using assms(3) by (subst wal_scan_step) simp
  then show ?thesis
    using framed_log.scan_records [OF framed_log_wal [OF assms(1)] assms(2), of "replicate n 0"]
    by (simp add: DecodeLog_scan)
qed

end
