(* ===== verification/Log_Properties.thy ===== *)
theory Log_Properties
  imports Wal_Decode
begin

text \<open>
  What the write-ahead log promises: the checksum is CRC-32C whichever routine computes it and sees
  every short burst; the fixed-width fields, the two encoders and the decoder fit together; a torn
  tail is dropped, damage in the middle is reported.
\<close>

unbundle bit_operations_syntax

text \<open>A put and a deletion in two batches, to run the encoders on.\<close>

definition sample_group :: "WriteBatch list" where
  "sample_group = [Put WriteBatch_new [0x6b] [0x76, 0x77], Delete WriteBatch_new [0x6c]]"

lemma sample_group_entries [eval_simps]:
  "group_entries sample_group =
     [\<lparr>etype = kPut, key = [0x6b], val = [0x76, 0x77]\<rparr>, \<lparr>etype = kDelete, key = [0x6c], val = []\<rparr>]"
  by (simp add: sample_group_def group_entries_def)

lemma sample_group_wf [simp]: "record_wf (base, group_entries sample_group)"
  by (simp add: record_wf_def entries_wf_def length_payload_bytes eval_simps)

section \<open>The checksum\<close>

text \<open>
  C31: on every processor whose CRC instructions do what the manual documents, the hardware routine
  (eight, four and one byte at a time) and the table-driven software routine extend a checksum to the same value.
\<close>

theorem crc_hardware_is_software:
  assumes "cpu_documented c"
  shows "extendCrc32cHardware c crc bs = extendCrc32cSoftware crc bs"
  using extendCrc32cHardware_bitwise [OF assms] extendCrc32cSoftware_bitwise by simp

theorem crc_hardware_is_software_witness:
  "cpu_documented reference_cpu \<and>
   extendCrc32cHardware reference_cpu 0xffffffff [1, 2, 3, 4, 5, 6, 7, 8, 9] =
     extendCrc32cSoftware 0xffffffff [1, 2, 3, 4, 5, 6, 7, 8, 9]"
  using crc_hardware_is_software [OF reference_cpu_documented, of "0xffffffff" "[1, 2, 3, 4, 5, 6, 7, 8, 9]"]
  by simp

text \<open>
  C32: the table of \<open>makeCrc32cTable\<close> makes one table lookup per byte equal to eight steps of the bit-serial
  shift register with the reflected Castagnoli polynomial.
\<close>

theorem crc_table_is_bit_serial:
  "extendCrc32cSoftware crc bs = foldl (\<lambda>r b. (lfsr ^^ 8) (r XOR ucast b)) crc bs"
  unfolding extendCrc32cSoftware_bitwise crc_byte_def ..

lemma lfsr_even: "\<not> bit r 0 \<Longrightarrow> lfsr r = drop_bit 1 r"
  by (simp add: lfsr_def)

lemma lfsr_odd: "bit r 0 \<Longrightarrow> lfsr r = drop_bit 1 r XOR 0x82f63b78"
  by (simp add: lfsr_def)

lemma lfsr_eight: "(lfsr ^^ 8) r = lfsr (lfsr (lfsr (lfsr (lfsr (lfsr (lfsr (lfsr r)))))))"
  by (simp add: eval_nat_numeral)

lemma digits_register:
  "foldl crc_byte (0xffffffff :: u32) [0x31, 0x32, 0x33, 0x34, 0x35, 0x36, 0x37, 0x38, 0x39] = 0x1cf96d7c"
  by (simp add: crc_byte_def lfsr_eight lfsr_even lfsr_odd)

text \<open>
  The checksum of the digits 1 to 9 is the published check value of CRC-32C.
\<close>

lemma crc_check_value:
  "Crc32C portable_cpu [0x31, 0x32, 0x33, 0x34, 0x35, 0x36, 0x37, 0x38, 0x39] = 0xe3069283"
  by (simp only: Crc32C_software [OF portable_cpu_documented] extendCrc32cSoftware_bitwise digits_register) simp

text \<open>
  A change confined to four consecutive bytes changes the checksum, wherever it is and on every
  documented processor.
\<close>

lemma crc_detects_burst:
  assumes "cpu_documented c" and "length u = length v" and "length u \<le> 4" and "u \<noteq> v"
  shows "Crc32C c (p @ u @ s) \<noteq> Crc32C c (p @ v @ s)"
  using sw.extend_burst [OF assms(2-4)] by (simp add: Crc32C_software [OF assms(1)])

lemma crc_detects_burst_instance:
  "Crc32C reference_cpu ([7, 7] @ [1, 2, 3, 4] @ [9]) \<noteq> Crc32C reference_cpu ([7, 7] @ [4, 3, 2, 1] @ [9])"
  by (rule crc_detects_burst) simp_all

section \<open>Fixed-width fields\<close>

text \<open>
  A 32-bit and a 64-bit field written into a buffer are read back unchanged, with the offset behind them.
\<close>

lemma fixed_fields_round_trip:
  assumes "off + 12 \<le> length buf"
  shows "readFixed32LE (writeFixed64LE (writeFixed32LE buf off v) (off + 4) w) off = Some (v, off + 4) \<and>
    readFixed64LE (writeFixed64LE (writeFixed32LE buf off v) (off + 4) w) (off + 4) = Some (w, off + 12)"
proof -
  have 1: "writeFixed32LE buf off v = (take off buf @ le32 v) @ take 8 (drop (off + 4) buf) @ drop (off + 12) buf"
    using assms append_take_drop_id [of 8 "drop (off + 4) buf"] by (simp add: writeFixed32LE_eq add.commute)
  have "writeFixed64LE (writeFixed32LE buf off v) (off + 4) w = (take off buf @ le32 v) @ le64 w @ drop (off + 12) buf"
    unfolding 1 using assms by (intro writeFixed64LE_mid) simp_all
  then show ?thesis
    using assms readFixed32LE_append [of "take off buf" off v "le64 w @ drop (off + 12) buf"]
      readFixed64LE_append [of "take off buf @ le32 v" "off + 4" w "drop (off + 12) buf"] by simp
qed

lemma fixed_fields_round_trip_instance:
  "readFixed32LE (writeFixed64LE (writeFixed32LE (replicate 16 0) 1 0xdeadbeef) (1 + 4) 0x0123456789abcdef) 1
     = Some (0xdeadbeef, 1 + 4) \<and>
   readFixed64LE (writeFixed64LE (writeFixed32LE (replicate 16 0) 1 0xdeadbeef) (1 + 4) 0x0123456789abcdef) (1 + 4)
     = Some (0x0123456789abcdef, 1 + 12)"
  by (rule fixed_fields_round_trip) simp

section \<open>Encoding\<close>

text \<open>
  \<open>EncodedBatchSize\<close> is the size of the record \<open>EncodeBatchInto\<close> produces, so the length announced to the
  kernel is the length of what is written.
\<close>

lemma encoded_size_exact:
  assumes "cpu_documented c"
  shows "length (EncodeBatchInto c base bs) = EncodedBatchSize bs"
  by (simp add: EncodeBatchInto_eq [OF assms] EncodedBatchSize_eq [of bs base])

lemma encoded_size_exact_instance:
  "length (EncodeBatchInto portable_cpu 7 sample_group) = EncodedBatchSize sample_group \<and>
   EncodedBatchSize sample_group = 43"
  using encoded_size_exact [OF portable_cpu_documented, of 7 sample_group]
  by (simp add: EncodedBatchSize_def sample_group_def wal_sizes)

text \<open>
  C16: the buffers that \<open>EncodeBatchFragmentsInto\<close> lists for the gathered write, read one after the other, are
  the contiguous record of \<open>EncodeBatchInto\<close>, whatever the reused buffers held before.
\<close>

theorem fragments_are_the_record:
  assumes "cpu_documented c" and "length (group_entries bs) < 2 ^ 32"
  shows "materializeIovecs (fixed (EncodeBatchFragmentsInto base bs old)) fallback
           (iovecs (EncodeBatchFragmentsInto base bs old))
       = EncodeBatchInto c base bs"
  by (simp add: materialize_fragments [OF assms(2)] EncodeBatchInto_eq [OF assms(1)])

theorem fragments_are_the_record_witness:
  "materializeIovecs (fixed (EncodeBatchFragmentsInto 7 sample_group EncodedBatchFragments_new)) []
     (iovecs (EncodeBatchFragmentsInto 7 sample_group EncodedBatchFragments_new))
   = EncodeBatchInto reference_cpu 7 sample_group"
  by (rule fragments_are_the_record) (simp_all add: eval_simps)

section \<open>Decoding\<close>

text \<open>
  C14: a log of committed groups followed by the torn start of one more decodes to exactly the committed
  groups, in order, with their sequence numbers and entries, and the valid length ends before the torn record.
\<close>

theorem decode_log_with_torn_tail:
  assumes "cpu_documented c"
    and "\<forall>(base, bs) \<in> set log. record_wf (base, group_entries bs)"
    and "record_wf (base', group_entries bs')"
    and "strict_prefix torn (EncodeBatchInto c base' bs')"
  shows "DecodeLog c (concat (map (\<lambda>(base, bs). EncodeBatchInto c base bs) log) @ torn) =
    Inr \<lparr>batches = map (\<lambda>(base, bs). \<lparr>baseSequence = base, batch = \<lparr>entries = group_entries bs\<rparr>\<rparr>) log,
         validBytes = length (concat (map (\<lambda>(base, bs). EncodeBatchInto c base bs) log))\<rparr>"
proof -
  let ?rs = "map (\<lambda>(base, bs). (base, group_entries bs)) log"
  have enc: "concat (map (\<lambda>(base, bs). EncodeBatchInto c base bs) log) = concat (map encode_record ?rs)"
    by (induction log) (auto simp: EncodeBatchInto_eq [OF assms(1)])
  have dec: "map (\<lambda>(base, bs). \<lparr>baseSequence = base, batch = \<lparr>entries = group_entries bs\<rparr>\<rparr>) log = map decoded_batch ?rs"
    by (auto simp: decoded_batch_def)
  have "wal_scan c (concat (map encode_record ?rs) @ torn) =
      Inr (map decoded_batch ?rs, length (concat (map encode_record ?rs)))"
    by (rule framed_log.scan_log_torn [OF framed_log_wal [OF assms(1)], of _ "(base', group_entries bs')"])
       (use assms(2-4) in \<open>auto simp: EncodeBatchInto_eq [OF assms(1)]\<close>)
  then show ?thesis
    unfolding enc dec by (simp only: wal_scan_Inr_iff)
qed

theorem decode_log_with_torn_tail_witness:
  "DecodeLog reference_cpu (concat (map (\<lambda>(base, bs). EncodeBatchInto reference_cpu base bs) [(1, sample_group)]) @ []) =
    Inr \<lparr>batches = map (\<lambda>(base, bs). \<lparr>baseSequence = base, batch = \<lparr>entries = group_entries bs\<rparr>\<rparr>) [(1, sample_group)],
         validBytes = length (concat (map (\<lambda>(base, bs). EncodeBatchInto reference_cpu base bs) [(1, sample_group)]))\<rparr>"
proof (rule decode_log_with_torn_tail [where base' = 3 and bs' = sample_group])
  show "strict_prefix [] (EncodeBatchInto reference_cpu 3 sample_group)"
    by (simp add: strict_prefix_def EncodeBatchInto_eq record_bytes_def Let_def)
qed simp_all

text \<open>
  C30: for any bytes at all, the length reported as valid lies within them, and decoding just that prefix gives
  the same batches and the same length: truncating the log there loses nothing and needs no second repair.
\<close>

theorem valid_prefix_decodes_alike:
  assumes "cpu_documented c" and "DecodeLog c bytes = Inr r"
  shows "validBytes r \<le> length bytes \<and> DecodeLog c (take (validBytes r) bytes) = Inr r"
proof -
  have "wal_scan c bytes = Inr (batches r, validBytes r)"
    using assms(2) by (simp add: wal_scan_Inr_iff)
  from framed_log.scan_valid [OF framed_log_wal [OF assms(1)] this] show ?thesis
    by (simp add: wal_scan_Inr_iff)
qed

theorem valid_prefix_decodes_alike_witness:
  "DecodeLog portable_cpu [1, 2, 3] = Inr \<lparr>batches = [], validBytes = 0\<rparr> \<and>
   DecodeLog portable_cpu (take 0 [1, 2, 3]) = Inr \<lparr>batches = [], validBytes = 0\<rparr>"
proof -
  have run: "DecodeLog portable_cpu [1, 2, 3] = Inr \<lparr>batches = [], validBytes = 0\<rparr>"
    by (simp add: DecodeLog_def DecodeLoop.simps decodeRecord_short)
  show ?thesis
    using run valid_prefix_decodes_alike [OF portable_cpu_documented run] by simp
qed

text \<open>
  C15: when up to four consecutive payload bytes of a record are damaged, the records before it are intact and the
  decoder notices: a damaged last record is cut off, a damaged record with more behind it is reported as corruption.
  In no case is it delivered.
\<close>

theorem payload_damage_is_noticed:
  assumes "cpu_documented c" and "\<forall>r \<in> set log. record_wf r" and "record_wf r"
    and "payload_bytes (fst r) (snd r) = p @ u @ s"
    and "length v = length u" and "length u \<le> 4" and "u \<noteq> v"
  shows "DecodeLog c (concat (map encode_record log) @ (take 9 (encode_record r) @ p @ v @ s) @ rest) =
    (if rest = []
     then Inr \<lparr>batches = map decoded_batch log, validBytes = length (concat (map encode_record log))\<rparr>
     else Inl (Corruption ''WAL checksum mismatch''))"
proof -
  let ?bad = "take 9 (encode_record r) @ (p @ v @ s) @ rest"
  have "Crc32C c (p @ v @ s) \<noteq> Crc32C c (payload_bytes (fst r) (snd r))"
    using sw.extend_burst [OF assms(5) _ assms(7) [symmetric]] assms(4-6) by (simp add: Crc32C_software [OF assms(1)])
  then have turn: "decodeRecord c ?bad 0 =
      (if rest = [] then Break else Fail (Corruption ''WAL checksum mismatch''))"
    using assms(3-6) by (intro decodeRecord_bad_checksum [OF assms(1)]) (auto simp: record_wf_def)
  have "?bad \<noteq> []" by (simp add: record_bytes_def Let_def)
  then have scan: "wal_scan c ?bad = (if rest = [] then Inr ([], 0) else Inl (Corruption ''WAL checksum mismatch''))"
    by (subst wal_scan_step) (simp only: turn, simp)
  have "concat (map encode_record log) @ (take 9 (encode_record r) @ p @ v @ s) @ rest =
      concat (map encode_record log) @ ?bad" by simp
  moreover note framed_log.scan_records [OF framed_log_wal [OF assms(1)] assms(2), of ?bad, unfolded scan]
  ultimately show ?thesis
    by (cases "rest = []") (simp_all only: DecodeLog_scan, simp_all)
qed

theorem payload_damage_is_noticed_witness:
  "DecodeLog reference_cpu (concat (map encode_record []) @
      (take 9 (encode_record (7, [])) @ [] @ [8] @ [0, 0, 0, 0, 0, 0, 0, 0, 0, 0, 0]) @ [0]) =
    (if [0 :: byte] = [] then Inr \<lparr>batches = map decoded_batch [], validBytes = length (concat (map encode_record []))\<rparr>
     else Inl (Corruption ''WAL checksum mismatch''))"
proof (rule payload_damage_is_noticed [where u = "[7]"])
  show "record_wf (7, [])" by (simp add: record_wf_def entries_wf_def length_payload_bytes)
  show "payload_bytes (fst (7, [])) (snd (7 :: u64, [] :: Entry list)) = [] @ [7] @ [0, 0, 0, 0, 0, 0, 0, 0, 0, 0, 0]"
    by (simp add: payload_bytes_def le64_def le32_def upt_rec4 upt_rec8)
qed simp_all

text \<open>
  Whatever the bytes, the decoder terminates, and the only error it returns is corruption.
\<close>

lemma decode_errors_are_corruption:
  "(\<exists>r. DecodeLog c bytes = Inr r) \<or> (\<exists>s. DecodeLog c bytes = Inl s \<and> code s = kCorruption)"
  by (cases "DecodeLog c bytes") (auto simp: DecodeLog_def dest: DecodeLoop_error)

text \<open>
  C39: a tail of nine or more zero bytes behind the committed records is not treated as a torn write: decoding fails
  with an unknown record type, so a file the file system extended with zeros does not open.
\<close>

theorem zero_filled_tail_is_refused:
  assumes "cpu_documented c" and "\<forall>r \<in> set log. record_wf r" and "9 \<le> n"
  shows "DecodeLog c (concat (map encode_record log) @ replicate n 0) =
    Inl (Corruption ''unknown WAL record type'')"
  by (rule decode_zero_tail [OF assms])

theorem zero_filled_tail_is_refused_witness:
  "DecodeLog reference_cpu (concat (map encode_record [(1, group_entries sample_group)]) @ replicate 16 0) =
    Inl (Corruption ''unknown WAL record type'')"
  by (rule zero_filled_tail_is_refused) simp_all

end
