(* ===== verification/Kv_Table.thy ===== *)
theory Kv_Table
  imports Wal_Format
begin

text \<open>
  The contract between the database and its table: the map from keys to values that a reader can
  see, and that applying a write group changes it exactly as applying its entries one after another
  would. The database's facts about replaying groups are proved once from the contract.
\<close>

text \<open>The abstract meaning of an entry: a put binds the key, a deletion unbinds it.\<close>

definition apply_entry :: "(bytes \<rightharpoonup> bytes) \<Rightarrow> Entry \<Rightarrow> (bytes \<rightharpoonup> bytes)" where
  "apply_entry m e =
     (case etype e of kPut \<Rightarrow> m(key e \<mapsto> val e) | kDelete \<Rightarrow> m(key e := None))"

locale kv_table =
  fixes apply_group :: "'t \<Rightarrow> u64 \<Rightarrow> WriteBatch list \<Rightarrow> 't"
    and lookup :: "'t \<Rightarrow> bytes \<Rightarrow> bytes Result"
    and view :: "'t \<Rightarrow> bytes \<Rightarrow> bytes option"
    and invar :: "'t \<Rightarrow> bool"
    and initial :: 't
  assumes invar_initial: "invar initial"
    and view_initial: "view initial = Map.empty"
    and invar_apply: "invar t \<Longrightarrow> invar (apply_group t base bs)"
    and view_apply: "invar t \<Longrightarrow>
      view (apply_group t base bs) = foldl apply_entry (view t) (group_entries bs)"
    and lookup_view: "invar t \<Longrightarrow>
      lookup t k = (case view t k of None \<Rightarrow> Inl (NotFound ''key not found'') | Some v \<Rightarrow> Inr v)"
begin

definition replay :: "'t \<Rightarrow> (u64 \<times> WriteBatch list) list \<Rightarrow> 't" where
  "replay t gs = foldl (\<lambda>t (base, bs). apply_group t base bs) t gs"

lemma replay_simps [simp]:
  "replay t [] = t"
  "replay t ((base, bs) # gs) = replay (apply_group t base bs) gs"
  by (simp_all add: replay_def)

lemma replay_append [simp]: "replay t (gs @ hs) = replay (replay t gs) hs"
  by (simp add: replay_def)

lemma invar_replay: "invar t \<Longrightarrow> invar (replay t gs)"
  by (induction gs arbitrary: t) (auto simp: invar_apply)

lemma view_replay:
  "invar t \<Longrightarrow>
   view (replay t gs) = foldl apply_entry (view t) (concat (map (\<lambda>g. group_entries (snd g)) gs))"
  by (induction gs arbitrary: t) (auto simp: invar_apply view_apply)

text \<open>Only the sequence of entries matters, not how it was cut into groups and batches.\<close>

lemma view_replay_cong:
  assumes "invar t" and "invar u" and "view t = view u"
    and "concat (map (\<lambda>g. group_entries (snd g)) gs) = concat (map (\<lambda>g. group_entries (snd g)) hs)"
  shows "view (replay t gs) = view (replay u hs)"
  by (simp add: view_replay assms)

lemma lookup_cong: "invar t \<Longrightarrow> invar u \<Longrightarrow> view t = view u \<Longrightarrow> lookup t k = lookup u k"
  by (simp add: lookup_view)

lemma lookup_error: "invar t \<Longrightarrow> lookup t k = Inl s \<Longrightarrow> s = NotFound ''key not found''"
  by (auto simp: lookup_view split: option.splits)

end

end
