(* ===== verification/Mem_Table.thy ===== *)
theory Mem_Table
  imports Kv_Table "HOL-Library.AList"
begin

text \<open>
  \<open>src/src/memtable.h\<close>, \<open>src/src/memtable.cc\<close>: the sharded in-memory table. \<open>std::hash\<close> is a parameter
  of the model: any function from keys to 64-bit values. A shard's \<open>unordered_map\<close> is an
  association list with distinct keys; \<open>bucket_count\<close> is a parameter of the statistics. The shard
  mutexes serialise each shard's updates against its readers, so an update of one shard is one
  step here; the lock counters are kept.

  Shown here: applying a write group, which first distributes the entries over the shards and
  then drains shard after shard, has the effect of applying the entries in their order, leaves
  the scratch space empty and keeps every key in its own shard; \<open>Get\<close> reads the newest entry.
\<close>

section \<open>Definitions\<close>

definition kShardCount :: nat where
  "kShardCount = 16"

record MemEntry =
  sequence :: u64
  deleted :: bool
  mval :: bytes

definition MemEntry_new :: MemEntry where
  "MemEntry_new = \<lparr>sequence = 0, deleted = False, mval = []\<rparr>"

type_synonym Shard = "(bytes \<times> MemEntry) list"

record PendingMemtableUpdate =
  upd_entry :: Entry
  upd_sequence :: u64

type_synonym PendingUpdates = "PendingMemtableUpdate list list"

record MemTable =
  applyLocks :: u64
  applyShardLocks :: u64
  shards :: "Shard list"

record MemTableStats =
  stat_applyLocks :: u64
  stat_applyShardLocks :: u64
  stat_reservedBuckets :: nat
  stat_shardCount :: nat
  stat_entries :: nat

definition MemTable_new :: MemTable where
  "MemTable_new = \<lparr>applyLocks = 0, applyShardLocks = 0, shards = replicate kShardCount []\<rparr>"

definition PendingUpdates_new :: PendingUpdates where
  "PendingUpdates_new = replicate kShardCount []"

definition shardFor :: "(bytes \<Rightarrow> u64) \<Rightarrow> bytes \<Rightarrow> nat" where
  "shardFor hash k = unat (hash k) mod kShardCount"

definition MemTable_Get :: "(bytes \<Rightarrow> u64) \<Rightarrow> MemTable \<Rightarrow> bytes \<Rightarrow> bytes Result" where
  "MemTable_Get hash mt k =
     (let shard = shards mt ! shardFor hash k
      in case map_of shard k of
           None \<Rightarrow> Inl (NotFound ''key not found'')
         | Some e \<Rightarrow> if deleted e then Inl (NotFound ''key not found'') else Inr (mval e))"

text \<open>The first loop of \<open>ApplyBatches\<close>: one entry goes to the end of its shard's updates.\<close>

definition queueUpdate ::
  "(bytes \<Rightarrow> u64) \<Rightarrow> PendingUpdates \<times> u64 \<Rightarrow> Entry \<Rightarrow> PendingUpdates \<times> u64" where
  "queueUpdate hash st e =
     (let (scratch, seq) = st; i = shardFor hash (key e)
      in (scratch[i := scratch ! i @ [\<lparr>upd_entry = e, upd_sequence = seq\<rparr>]], seq + 1))"

text \<open>The innermost loop: \<open>try_emplace\<close> the key, then overwrite the slot.\<close>

definition applyUpdate :: "Shard \<Rightarrow> PendingMemtableUpdate \<Rightarrow> Shard" where
  "applyUpdate shard u =
     (let e = upd_entry u;
          slot = (case map_of shard (key e) of None \<Rightarrow> MemEntry_new | Some slot \<Rightarrow> slot)
      in AList.update (key e)
           (slot\<lparr>sequence := upd_sequence u, deleted := (etype e = kDelete), mval := val e\<rparr>) shard)"

text \<open>The second loop: drain one shard's updates, unless there are none.\<close>

definition drainShard :: "MemTable \<times> PendingUpdates \<Rightarrow> nat \<Rightarrow> MemTable \<times> PendingUpdates" where
  "drainShard st i =
     (let (mt, scratch) = st; updates = scratch ! i
      in if updates = [] then (mt, scratch)
         else (mt\<lparr>applyShardLocks := applyShardLocks mt + 1,
                  shards := (shards mt)[i := foldl applyUpdate (shards mt ! i) updates]\<rparr>,
               scratch[i := []]))"

definition ApplyBatches ::
  "(bytes \<Rightarrow> u64) \<Rightarrow> WriteBatch list \<Rightarrow> u64 \<Rightarrow> MemTable \<times> PendingUpdates \<Rightarrow> MemTable \<times> PendingUpdates" where
  "ApplyBatches hash bs base st =
     (let (mt, scratch) = st;
          mt = mt\<lparr>applyLocks := applyLocks mt + 1\<rparr>;
          (scratch, seq) = foldl (\<lambda>s b. foldl (queueUpdate hash) s (entries b)) (scratch, base) bs
      in foldl drainShard (mt, scratch) [0..<length scratch])"

definition MemTable_Stats :: "(Shard \<Rightarrow> nat) \<Rightarrow> MemTable \<Rightarrow> MemTableStats" where
  "MemTable_Stats bucket_count mt =
     foldl (\<lambda>stats shard. stats\<lparr>stat_reservedBuckets := stat_reservedBuckets stats + bucket_count shard,
                                stat_entries := stat_entries stats + length shard\<rparr>)
       \<lparr>stat_applyLocks = applyLocks mt, stat_applyShardLocks = applyShardLocks mt,
        stat_reservedBuckets = 0, stat_shardCount = length (shards mt), stat_entries = 0\<rparr>
       (shards mt)"

section \<open>Invariant and abstraction\<close>

definition shard_wf :: "(bytes \<Rightarrow> u64) \<Rightarrow> nat \<Rightarrow> Shard \<Rightarrow> bool" where
  "shard_wf hash i shard \<longleftrightarrow>
     distinct (map fst shard) \<and> (\<forall>k \<in> fst ` set shard. shardFor hash k = i)"

definition mem_wf :: "(bytes \<Rightarrow> u64) \<Rightarrow> MemTable \<Rightarrow> bool" where
  "mem_wf hash mt \<longleftrightarrow>
     length (shards mt) = kShardCount \<and>
     (\<forall>i < kShardCount. shard_wf hash i (shards mt ! i))"

definition mem_lookup :: "(bytes \<Rightarrow> u64) \<Rightarrow> MemTable \<Rightarrow> bytes \<Rightarrow> MemEntry option" where
  "mem_lookup hash mt k = map_of (shards mt ! shardFor hash k) k"

definition live :: "MemEntry option \<Rightarrow> bytes option" where
  "live slot = (case slot of None \<Rightarrow> None | Some e \<Rightarrow> if deleted e then None else Some (mval e))"

definition mem_view :: "(bytes \<Rightarrow> u64) \<Rightarrow> MemTable \<Rightarrow> bytes \<Rightarrow> bytes option" where
  "mem_view hash mt k = live (mem_lookup hash mt k)"

text \<open>The entries of a group with the sequence numbers they get.\<close>

fun numbered :: "u64 \<Rightarrow> Entry list \<Rightarrow> PendingMemtableUpdate list" where
  "numbered seq [] = []"
| "numbered seq (e # es) = \<lparr>upd_entry = e, upd_sequence = seq\<rparr> # numbered (seq + 1) es"

definition store_update :: "(bytes \<rightharpoonup> MemEntry) \<Rightarrow> PendingMemtableUpdate \<Rightarrow> (bytes \<rightharpoonup> MemEntry)" where
  "store_update m u = m(key (upd_entry u) \<mapsto>
     \<lparr>sequence = upd_sequence u, deleted = (etype (upd_entry u) = kDelete), mval = val (upd_entry u)\<rparr>)"

lemma shardFor_less [simp]: "shardFor hash k < kShardCount"
  by (simp add: shardFor_def kShardCount_def)

lemma MemEntry_overwrite:
  "(slot :: MemEntry)\<lparr>sequence := a, deleted := b, mval := c\<rparr> = \<lparr>sequence = a, deleted = b, mval = c\<rparr>"
  by (cases slot) simp

lemma map_of_applyUpdate [mem_simps]: "map_of (applyUpdate shard u) = store_update (map_of shard) u"
  by (simp add: applyUpdate_def store_update_def Let_def update_conv' MemEntry_overwrite)

lemma map_of_foldl_applyUpdate:
  "map_of (foldl applyUpdate shard us) = foldl store_update (map_of shard) us"
  by (induction us arbitrary: shard) (simp_all add: mem_simps)

lemma shard_wf_applyUpdate:
  "shard_wf hash i shard \<Longrightarrow> shardFor hash (key (upd_entry u)) = i \<Longrightarrow> shard_wf hash i (applyUpdate shard u)"
  by (auto simp: shard_wf_def applyUpdate_def Let_def distinct_update dom_update simp del: fun_upd_apply)

lemma shard_wf_foldl:
  "shard_wf hash i shard \<Longrightarrow> (\<forall>u \<in> set us. shardFor hash (key (upd_entry u)) = i) \<Longrightarrow>
   shard_wf hash i (foldl applyUpdate shard us)"
  by (induction us arbitrary: shard) (simp_all add: shard_wf_applyUpdate)

section \<open>Distributing the entries\<close>

definition shard_updates :: "(bytes \<Rightarrow> u64) \<Rightarrow> nat \<Rightarrow> PendingMemtableUpdate list \<Rightarrow> PendingMemtableUpdate list" where
  "shard_updates hash i us = filter (\<lambda>u. shardFor hash (key (upd_entry u)) = i) us"

lemma foldl_queueUpdate:
  assumes "length scratch = kShardCount"
  shows "foldl (queueUpdate hash) (scratch, seq) es
       = (map (\<lambda>i. scratch ! i @ shard_updates hash i (numbered seq es)) [0..<kShardCount],
          seq + of_nat (length es))"
  using assms
proof (induction es arbitrary: scratch seq)
  case Nil
  then show ?case using map_nth [of scratch] by (simp add: shard_updates_def)
next
  case (Cons e es)
  let ?i = "shardFor hash (key e)" and ?u = "\<lparr>upd_entry = e, upd_sequence = seq\<rparr>"
  let ?s = "scratch[?i := scratch ! ?i @ [?u]]"
  have "foldl (queueUpdate hash) (scratch, seq) (e # es) = foldl (queueUpdate hash) (?s, seq + 1) es"
    by (simp add: queueUpdate_def Let_def)
  also have "\<dots> = (map (\<lambda>i. ?s ! i @ shard_updates hash i (numbered (seq + 1) es)) [0..<kShardCount],
      seq + 1 + of_nat (length es))"
    using Cons.prems by (intro Cons.IH) simp
  also have "map (\<lambda>i. ?s ! i @ shard_updates hash i (numbered (seq + 1) es)) [0..<kShardCount]
      = map (\<lambda>i. scratch ! i @ shard_updates hash i (numbered seq (e # es))) [0..<kShardCount]"
    using Cons.prems by (auto simp: shard_updates_def nth_list_update)
  finally show ?case by (simp add: add.assoc)
qed

section \<open>Draining the shards\<close>

lemma foldl_drainShard:
  assumes "length (shards mt) = kShardCount" and "length scratch = kShardCount" and "n \<le> kShardCount"
  shows "foldl drainShard (mt, scratch) [0..<n]
       = (mt\<lparr>applyShardLocks := applyShardLocks mt + of_nat (length (filter (\<lambda>i. scratch ! i \<noteq> []) [0..<n])),
             shards := map (\<lambda>i. if i < n then foldl applyUpdate (shards mt ! i) (scratch ! i)
                                 else shards mt ! i) [0..<kShardCount]\<rparr>,
          map (\<lambda>i. if i < n then [] else scratch ! i) [0..<kShardCount])"
  using assms(3)
proof (induction n)
  case 0
  then show ?case
    using assms(1,2) map_nth [of scratch] map_nth [of "shards mt"] by simp
next
  case (Suc n)
  then have n: "n < kShardCount" by simp
  have upd: "(map f [0..<kShardCount])[n := x] = map (f(n := x)) [0..<kShardCount]" for f :: "nat \<Rightarrow> 'c" and x
    using n by (auto simp: list_eq_iff_nth_eq nth_list_update)
  have lt: "(\<lambda>i. if i < Suc n then f i else g i) = (\<lambda>i. if i < n then f i else g i)(n := f n)" for f g :: "nat \<Rightarrow> 'd"
    by (auto simp: less_Suc_eq)
  show ?case
  proof (cases "scratch ! n = []")
    case True
    have "(\<lambda>i. if i < n then [] else scratch ! i)(n := []) = (\<lambda>i. if i < n then [] else scratch ! i)"
      "(\<lambda>i. if i < n then foldl applyUpdate (shards mt ! i) (scratch ! i) else shards mt ! i)
         (n := foldl applyUpdate (shards mt ! n) (scratch ! n))
       = (\<lambda>i. if i < n then foldl applyUpdate (shards mt ! i) (scratch ! i) else shards mt ! i)"
      using True by auto
    then show ?thesis
      using Suc True n unfolding lt by (simp add: drainShard_def)
  next
    case False
    then show ?thesis
      using Suc n unfolding lt by (simp add: drainShard_def upd add.assoc)
  qed
qed

section \<open>Applying a group\<close>

lemma ApplyBatches_eq:
  fixes bs :: "WriteBatch list" and base :: u64
  assumes "mem_wf hash mt"
  defines "us \<equiv> \<lambda>i. shard_updates hash i (numbered base (group_entries bs))"
  shows "ApplyBatches hash bs base (mt, PendingUpdates_new)
       = (\<lparr>applyLocks = applyLocks mt + 1,
           applyShardLocks = applyShardLocks mt + of_nat (length (filter (\<lambda>i. us i \<noteq> []) [0..<kShardCount])),
           shards = map (\<lambda>i. foldl applyUpdate (shards mt ! i) (us i)) [0..<kShardCount]\<rparr>,
          PendingUpdates_new)"
proof -
  let ?mt = "mt\<lparr>applyLocks := applyLocks mt + 1\<rparr>"
  let ?scratch = "map us [0..<kShardCount]"
  have len: "length (shards ?mt) = kShardCount" using assms(1) by (simp add: mem_wf_def)
  have "foldl (\<lambda>s b. foldl (queueUpdate hash) s (entries b)) (PendingUpdates_new, base) bs
      = (map (\<lambda>i. PendingUpdates_new ! i @ us i) [0..<kShardCount], base + of_nat (length (group_entries bs)))"
    unfolding foldl_group us_def by (rule foldl_queueUpdate) (simp add: PendingUpdates_new_def)
  also have "map (\<lambda>i. PendingUpdates_new ! i @ us i) [0..<kShardCount] = ?scratch"
    by (simp add: PendingUpdates_new_def)
  finally have dist: "foldl (\<lambda>s b. foldl (queueUpdate hash) s (entries b)) (PendingUpdates_new, base) bs
      = (?scratch, base + of_nat (length (group_entries bs)))" .
  have "map (\<lambda>i. if i < kShardCount then [] else ?scratch ! i) [0..<kShardCount] = PendingUpdates_new"
    by (auto simp: PendingUpdates_new_def list_eq_iff_nth_eq)
  moreover have "filter (\<lambda>i. ?scratch ! i \<noteq> []) [0..<kShardCount] = filter (\<lambda>i. us i \<noteq> []) [0..<kShardCount]"
    by (rule filter_cong) auto
  moreover have "map (\<lambda>i. if i < kShardCount then foldl applyUpdate (shards ?mt ! i) (?scratch ! i)
        else shards ?mt ! i) [0..<kShardCount]
      = map (\<lambda>i. foldl applyUpdate (shards mt ! i) (us i)) [0..<kShardCount]"
    by (rule map_cong) auto
  ultimately show ?thesis
    unfolding ApplyBatches_def Let_def prod.case dist
    using foldl_drainShard [OF len, of ?scratch kShardCount] by (simp add: dist)
qed

lemma foldl_store_update_filter:
  assumes "P (shardFor hash k)"
  shows "foldl store_update m (filter (\<lambda>u. P (shardFor hash (key (upd_entry u)))) us) k
       = foldl store_update m us k"
  using assms
proof (induction us arbitrary: m rule: rev_induct)
  case Nil
  then show ?case by simp
next
  case (snoc u us)
  then show ?case by (auto simp: store_update_def)
qed

lemma foldl_store_update_cong:
  "m k = m' k \<Longrightarrow> foldl store_update m us k = foldl store_update m' us k"
  by (induction us rule: rev_induct) (auto simp: store_update_def)

lemma mem_lookup_ApplyBatches:
  assumes "mem_wf hash mt"
  shows "mem_lookup hash (fst (ApplyBatches hash bs base (mt, PendingUpdates_new)))
       = foldl store_update (mem_lookup hash mt) (numbered base (group_entries bs))"
proof
  fix k
  let ?us = "numbered base (group_entries bs)"
  have "mem_lookup hash (fst (ApplyBatches hash bs base (mt, PendingUpdates_new))) k
      = foldl store_update (map_of (shards mt ! shardFor hash k))
          (shard_updates hash (shardFor hash k) ?us) k"
    by (simp add: ApplyBatches_eq [OF assms] mem_lookup_def map_of_foldl_applyUpdate)
  also have "\<dots> = foldl store_update (map_of (shards mt ! shardFor hash k)) ?us k"
    unfolding shard_updates_def by (rule foldl_store_update_filter) simp
  also have "\<dots> = foldl store_update (mem_lookup hash mt) ?us k"
    by (rule foldl_store_update_cong) (simp add: mem_lookup_def)
  finally show "mem_lookup hash (fst (ApplyBatches hash bs base (mt, PendingUpdates_new))) k
      = foldl store_update (mem_lookup hash mt) ?us k" .
qed

lemma live_foldl_store_update:
  "live \<circ> foldl store_update m (numbered base es) = foldl apply_entry (live \<circ> m) es"
proof (induction es arbitrary: m base)
  case Nil
  then show ?case by simp
next
  case (Cons e es)
  have step: "live \<circ> store_update m \<lparr>upd_entry = e, upd_sequence = base\<rparr> = apply_entry (live \<circ> m) e"
    by (cases "etype e") (auto simp: store_update_def apply_entry_def live_def)
  show ?case by (simp only: numbered.simps foldl_Cons Cons.IH step)
qed

lemma mem_view_ApplyBatches:
  assumes "mem_wf hash mt"
  shows "mem_view hash (fst (ApplyBatches hash bs base (mt, PendingUpdates_new)))
       = foldl apply_entry (mem_view hash mt) (group_entries bs)"
proof -
  have view: "mem_view hash t = live \<circ> mem_lookup hash t" for t
    by (auto simp: mem_view_def)
  show ?thesis
    unfolding view by (simp only: mem_lookup_ApplyBatches [OF assms] live_foldl_store_update)
qed

lemma mem_wf_ApplyBatches:
  assumes "mem_wf hash mt"
  shows "mem_wf hash (fst (ApplyBatches hash bs base (mt, PendingUpdates_new)))"
  using assms
  by (auto simp: ApplyBatches_eq [OF assms] mem_wf_def shard_updates_def intro!: shard_wf_foldl)

lemma scratch_ApplyBatches:
  "mem_wf hash mt \<Longrightarrow> snd (ApplyBatches hash bs base (mt, PendingUpdates_new)) = PendingUpdates_new"
  by (simp add: ApplyBatches_eq)

lemma mem_wf_new: "mem_wf hash MemTable_new"
  by (simp add: mem_wf_def MemTable_new_def shard_wf_def)

lemma mem_view_new: "mem_view hash MemTable_new = Map.empty"
  by (auto simp: mem_view_def mem_lookup_def MemTable_new_def live_def)

lemma MemTable_Get_view:
  "MemTable_Get hash mt k =
     (case mem_view hash mt k of None \<Rightarrow> Inl (NotFound ''key not found'') | Some v \<Rightarrow> Inr v)"
  by (simp add: MemTable_Get_def mem_view_def mem_lookup_def live_def Let_def split: option.split)

text \<open>The table with its scratch space provides the contract, whatever the hash function.\<close>

interpretation mem: kv_table
  "\<lambda>t base bs. ApplyBatches hash bs base t"
  "\<lambda>t. MemTable_Get hash (fst t)"
  "\<lambda>t. mem_view hash (fst t)"
  "\<lambda>t. mem_wf hash (fst t) \<and> snd t = PendingUpdates_new"
  "(MemTable_new, PendingUpdates_new)"
  for hash :: "bytes \<Rightarrow> u64"
proof (unfold_locales, goal_cases)
  case 1
  then show ?case by (simp add: mem_wf_new)
next
  case 2
  then show ?case by (simp add: mem_view_new)
next
  case (3 t base bs)
  then show ?case by (cases t) (simp add: mem_wf_ApplyBatches scratch_ApplyBatches)
next
  case (4 t base bs)
  then show ?case by (cases t) (simp add: mem_view_ApplyBatches)
next
  case (5 t k)
  then show ?case by (simp add: MemTable_Get_view)
qed

end
