(* ===== verification/Mem_Concurrent.thy ===== *)
theory Mem_Concurrent
  imports Mem_Table
begin

text \<open>
  \<open>src/src/memtable.cc\<close> with its locks: \<open>ApplyBatches\<close> holds the exclusive lock of one shard at a time and changes that shard entry
  by entry, while any number of \<open>Get\<close>s hold the shared lock of the shard of their key. The steps of the one applying thread and of the
  readers interleave in any way; the theory shows that the detailed steps amount to the functions of theory \<open>Mem_Table\<close>.
\<close>

section \<open>Definitions\<close>

text \<open>
  Where the applying thread is: before shard \<open>i\<close>, waiting for its exclusive lock, holding it with these updates still to do, or done.
\<close>

datatype apply_pc = AtShard nat | Waiting nat | Filling nat "PendingMemtableUpdate list" | Applied

text \<open>A \<open>Get\<close> that has not started, that waits for the shared lock for its key, that holds it, and that has returned.\<close>

datatype get_pc = GIdle | GWaiting bytes | GLocked bytes | GDone bytes "bytes Result"

record mem_sys =
  m_table :: MemTable
  m_scratch :: PendingUpdates
  m_apply :: apply_pc
  m_gets :: "nat \<Rightarrow> get_pc"

text \<open>A thread that is in no \<open>Get\<close> calls it.\<close>

inductive mem_call :: "mem_sys \<Rightarrow> mem_sys \<Rightarrow> bool" where
  get_call:
    "m_gets s r = GIdle \<or> m_gets s r = GDone k' res \<Longrightarrow> mem_call s (s\<lparr>m_gets := (m_gets s)(r := GWaiting k)\<rparr>)"

text \<open>The exclusive lock of a shard excludes every holder of it, the shared lock only the thread that changes the shard.\<close>

inductive mem_step :: "(bytes \<Rightarrow> u64) \<Rightarrow> mem_sys \<Rightarrow> mem_sys \<Rightarrow> bool" for hash where
  shard_skip:
    "m_apply s = AtShard i \<Longrightarrow> i < length (m_scratch s) \<Longrightarrow> m_scratch s ! i = [] \<Longrightarrow>
     mem_step hash s (s\<lparr>m_apply := AtShard (Suc i)\<rparr>)"
| shard_wait:
    "m_apply s = AtShard i \<Longrightarrow> i < length (m_scratch s) \<Longrightarrow> m_scratch s ! i \<noteq> [] \<Longrightarrow>
     mem_step hash s (s\<lparr>m_apply := Waiting i\<rparr>)"
| shard_lock:
    "m_apply s = Waiting i \<Longrightarrow> (\<forall>r k. m_gets s r = GLocked k \<longrightarrow> shardFor hash k \<noteq> i) \<Longrightarrow>
     mem_step hash s (s\<lparr>m_table := (m_table s)\<lparr>applyShardLocks := applyShardLocks (m_table s) + 1\<rparr>,
                        m_apply := Filling i (m_scratch s ! i)\<rparr>)"
| shard_update:
    "m_apply s = Filling i (u # us) \<Longrightarrow>
     mem_step hash s (s\<lparr>m_table := (m_table s)\<lparr>shards := (shards (m_table s))[i := applyUpdate (shards (m_table s) ! i) u]\<rparr>,
                        m_apply := Filling i us\<rparr>)"
| shard_unlock:
    "m_apply s = Filling i [] \<Longrightarrow>
     mem_step hash s (s\<lparr>m_scratch := (m_scratch s)[i := []], m_apply := AtShard (Suc i)\<rparr>)"
| shards_done:
    "m_apply s = AtShard i \<Longrightarrow> i \<ge> length (m_scratch s) \<Longrightarrow> mem_step hash s (s\<lparr>m_apply := Applied\<rparr>)"
| get_lock:
    "m_gets s r = GWaiting k \<Longrightarrow> \<not> (\<exists>us. m_apply s = Filling (shardFor hash k) us) \<Longrightarrow>
     mem_step hash s (s\<lparr>m_gets := (m_gets s)(r := GLocked k)\<rparr>)"
| get_read:
    "m_gets s r = GLocked k \<Longrightarrow>
     mem_step hash s (s\<lparr>m_gets := (m_gets s)(r := GDone k (MemTable_Get hash (m_table s) k))\<rparr>)"

inductive_cases mem_stepE: "mem_step hash s s'"

inductive mem_reaches :: "(bytes \<Rightarrow> u64) \<Rightarrow> mem_sys \<Rightarrow> mem_sys \<Rightarrow> bool" for hash s0 where
  mem_init: "mem_reaches hash s0 s0"
| mem_called: "mem_reaches hash s0 s \<Longrightarrow> mem_call s s' \<Longrightarrow> mem_reaches hash s0 s'"
| mem_next: "mem_reaches hash s0 s \<Longrightarrow> mem_step hash s s' \<Longrightarrow> mem_reaches hash s0 s'"

text \<open>\<open>ApplyBatches\<close> up to its second loop, which needs no lock.\<close>

definition apply_queued :: "(bytes \<Rightarrow> u64) \<Rightarrow> WriteBatch list \<Rightarrow> u64 \<Rightarrow> MemTable \<times> PendingUpdates \<Rightarrow> MemTable \<times> PendingUpdates" where
  "apply_queued hash bs base st =
     (let (mt, scratch) = st
      in (mt\<lparr>applyLocks := applyLocks mt + 1\<rparr>, fst (foldl (\<lambda>s b. foldl (queueUpdate hash) s (entries b)) (scratch, base) bs)))"

definition mem_sys_new :: "(bytes \<Rightarrow> u64) \<Rightarrow> WriteBatch list \<Rightarrow> u64 \<Rightarrow> MemTable \<times> PendingUpdates \<Rightarrow> mem_sys" where
  "mem_sys_new hash bs base st =
     (let (mt, scratch) = apply_queued hash bs base st
      in \<lparr>m_table = mt, m_scratch = scratch, m_apply = AtShard 0, m_gets = \<lambda>_. GIdle\<rparr>)"

section \<open>The detailed steps are those of the sequential function\<close>

lemma ApplyBatches_queued:
  "ApplyBatches hash bs base st =
     (case apply_queued hash bs base st of (mt, scratch) \<Rightarrow> foldl drainShard (mt, scratch) [0..<length scratch])"
  by (simp add: ApplyBatches_def apply_queued_def Let_def split: prod.splits)

lemma apply_queued_lengths:
  assumes "mem_wf hash mt" and "apply_queued hash bs base (mt, PendingUpdates_new) = (mt1, sc1)"
  shows "length (shards mt1) = kShardCount" "length sc1 = kShardCount" "shards mt1 = shards mt"
proof -
  have "length (PendingUpdates_new :: PendingUpdates) = kShardCount" by (simp add: PendingUpdates_new_def)
  from foldl_queueUpdate [OF this, of hash base "group_entries bs"] assms
  show "length (shards mt1) = kShardCount" "length sc1 = kShardCount" "shards mt1 = shards mt"
    by (auto simp: apply_queued_def foldl_group mem_wf_def)
qed

text \<open>The state after the first \<open>i\<close> shards.\<close>

abbreviation upto_shard :: "MemTable \<times> PendingUpdates \<Rightarrow> nat \<Rightarrow> MemTable \<times> PendingUpdates" where
  "upto_shard st i \<equiv> foldl drainShard st [0..<i]"

definition apply_inv :: "MemTable \<times> PendingUpdates \<Rightarrow> mem_sys \<Rightarrow> bool" where
  "apply_inv st s \<longleftrightarrow>
     (case m_apply s of
        AtShard i \<Rightarrow> i \<le> kShardCount \<and> (m_table s, m_scratch s) = upto_shard st i
      | Waiting i \<Rightarrow> i < kShardCount \<and> (m_table s, m_scratch s) = upto_shard st i \<and> m_scratch s ! i \<noteq> []
      | Filling i us \<Rightarrow> i < kShardCount \<and> m_scratch s = snd (upto_shard st i) \<and> m_scratch s ! i \<noteq> [] \<and>
          (\<exists>ds. m_scratch s ! i = ds @ us \<and>
             m_table s = (let t = fst (upto_shard st i)
               in t\<lparr>applyShardLocks := applyShardLocks t + 1, shards := (shards t)[i := foldl applyUpdate (shards t ! i) ds]\<rparr>))
      | Applied \<Rightarrow> (m_table s, m_scratch s) = upto_shard st kShardCount)"

text \<open>No reader holds the lock of the shard that is being changed.\<close>

definition lock_inv :: "(bytes \<Rightarrow> u64) \<Rightarrow> mem_sys \<Rightarrow> bool" where
  "lock_inv hash s \<longleftrightarrow> (\<forall>i us r k. m_apply s = Filling i us \<longrightarrow> m_gets s r = GLocked k \<longrightarrow> shardFor hash k \<noteq> i)"

lemma lock_inv_step: "mem_step hash s s' \<Longrightarrow> lock_inv hash s \<Longrightarrow> lock_inv hash s'"
  by (erule mem_stepE) (auto simp: lock_inv_def split: if_splits)

lemma upto_length:
  assumes "length (shards mt1) = kShardCount" and "length sc1 = kShardCount" and "i \<le> kShardCount"
    and "(mt, sc) = upto_shard (mt1, sc1) i"
  shows "length sc = kShardCount"
  using foldl_drainShard [OF assms(1-3)] assms(4) by simp

lemma upto_shard:
  assumes "length (shards mt1) = kShardCount" and "length sc1 = kShardCount" and "i \<le> kShardCount" and "j < kShardCount"
  shows "shards (fst (upto_shard (mt1, sc1) i)) ! j = shards (fst (upto_shard (mt1, sc1) (if j < i then kShardCount else 0))) ! j"
  using foldl_drainShard [OF assms(1,2,3)] foldl_drainShard [OF assms(1,2), of kShardCount] assms(1,4) by simp_all

lemma apply_inv_step:
  assumes "length (shards mt1) = kShardCount" and "length sc1 = kShardCount"
    and "mem_step hash s s'" and "apply_inv (mt1, sc1) s"
  shows "apply_inv (mt1, sc1) s'"
  using assms(3)
proof cases
  case (shard_skip i)
  then have st: "(m_table s, m_scratch s) = upto_shard (mt1, sc1) i" "i \<le> kShardCount"
    using assms(4) by (simp_all add: apply_inv_def)
  note len = upto_length [OF assms(1,2) st(2,1)]
  show ?thesis
    using shard_skip st len by (auto simp: apply_inv_def drainShard_def simp flip: st(1))
next
  case (shard_wait i)
  then have st: "(m_table s, m_scratch s) = upto_shard (mt1, sc1) i" "i \<le> kShardCount"
    using assms(4) by (simp_all add: apply_inv_def)
  note len = upto_length [OF assms(1,2) st(2,1)]
  show ?thesis using shard_wait st len by (auto simp: apply_inv_def)
next
  case (shard_lock i)
  then have st: "(m_table s, m_scratch s) = upto_shard (mt1, sc1) i" "i < kShardCount" "m_scratch s ! i \<noteq> []"
    using assms(4) by (simp_all add: apply_inv_def)
  show ?thesis
    using shard_lock st by (auto simp: apply_inv_def Let_def simp flip: st(1))
next
  case (shard_update i u us)
  then obtain ds where st: "i < kShardCount" "m_scratch s = snd (upto_shard (mt1, sc1) i)" "m_scratch s ! i = ds @ u # us"
    "m_table s = (let t = fst (upto_shard (mt1, sc1) i)
       in t\<lparr>applyShardLocks := applyShardLocks t + 1, shards := (shards t)[i := foldl applyUpdate (shards t ! i) ds]\<rparr>)"
    using assms(4) by (auto simp: apply_inv_def)
  have "length (shards (fst (upto_shard (mt1, sc1) i))) = kShardCount"
    using foldl_drainShard [OF assms(1,2), of i] st(1) by simp
  then show ?thesis
    using shard_update st by (auto simp: apply_inv_def Let_def intro!: exI [of _ "ds @ [u]"])
next
  case (shard_unlock i)
  then have st: "i < kShardCount" "m_scratch s = snd (upto_shard (mt1, sc1) i)" "m_scratch s ! i \<noteq> []"
    "m_table s = (let t = fst (upto_shard (mt1, sc1) i)
       in t\<lparr>applyShardLocks := applyShardLocks t + 1,
            shards := (shards t)[i := foldl applyUpdate (shards t ! i) (m_scratch s ! i)]\<rparr>)"
    using assms(4) by (auto simp: apply_inv_def)
  obtain t sc where u: "upto_shard (mt1, sc1) i = (t, sc)" by fastforce
  then have "upto_shard (mt1, sc1) (Suc i) = (m_table s, (m_scratch s)[i := []])"
    using st by (simp add: drainShard_def Let_def)
  then show ?thesis using shard_unlock st(1) by (simp add: apply_inv_def)
next
  case (shards_done i)
  then have st: "(m_table s, m_scratch s) = upto_shard (mt1, sc1) i" "i \<le> kShardCount"
    using assms(4) by (simp_all add: apply_inv_def)
  note len = upto_length [OF assms(1,2) st(2,1)]
  show ?thesis using shards_done st len by (simp add: apply_inv_def)
qed (use assms(4) in \<open>auto simp: apply_inv_def split: apply_pc.splits\<close>)

text \<open>What a reader with a lock sees: its shard before the group, or behind it.\<close>

lemma MemTable_Get_cong: "shards mt ! shardFor hash k = shards mt' ! shardFor hash k \<Longrightarrow> MemTable_Get hash mt k = MemTable_Get hash mt' k"
  by (simp add: MemTable_Get_def)

definition shards_applied :: "apply_pc \<Rightarrow> nat" where
  "shards_applied pc = (case pc of AtShard i \<Rightarrow> i | Waiting i \<Rightarrow> i | Filling i us \<Rightarrow> i | Applied \<Rightarrow> kShardCount)"

lemma locked_get:
  assumes "length (shards mt1) = kShardCount" and "length sc1 = kShardCount"
    and "apply_inv (mt1, sc1) s" and "lock_inv hash s" and "m_gets s r = GLocked k"
  shows "MemTable_Get hash (m_table s) k =
    (if shardFor hash k < shards_applied (m_apply s) then MemTable_Get hash (fst (upto_shard (mt1, sc1) kShardCount)) k
     else MemTable_Get hash mt1 k)"
proof -
  let ?j = "shardFor hash k" and ?n = "shards_applied (m_apply s)"
  have n: "?n \<le> kShardCount" using assms(3) by (auto simp: apply_inv_def shards_applied_def split: apply_pc.splits)
  have "shards (m_table s) ! ?j = shards (fst (upto_shard (mt1, sc1) ?n)) ! ?j"
  proof (cases "m_apply s")
    case (Filling i us)
    then have "?j \<noteq> i" using assms(4,5) by (auto simp: lock_inv_def)
    then show ?thesis using Filling assms(3) by (auto simp: apply_inv_def shards_applied_def Let_def)
  qed (use assms(3) in \<open>auto simp: apply_inv_def shards_applied_def dest: arg_cong [of _ _ fst]\<close>)
  also have "\<dots> = shards (fst (upto_shard (mt1, sc1) (if ?j < ?n then kShardCount else 0))) ! ?j"
    by (rule upto_shard [OF assms(1,2) n]) simp
  finally show ?thesis by (auto intro: MemTable_Get_cong)
qed

text \<open>A finished \<open>Get\<close> has returned the value before or behind the group.\<close>

definition get_inv :: "(bytes \<Rightarrow> u64) \<Rightarrow> MemTable \<Rightarrow> MemTable \<Rightarrow> mem_sys \<Rightarrow> bool" where
  "get_inv hash mt mt' s \<longleftrightarrow>
     (\<forall>r k res. m_gets s r = GDone k res \<longrightarrow>
        res = MemTable_Get hash mt' k \<and> shardFor hash k < shards_applied (m_apply s) \<or> res = MemTable_Get hash mt k)"

lemma shards_applied_mono: "mem_step hash s s' \<Longrightarrow> shards_applied (m_apply s) \<le> shards_applied (m_apply s') \<or> m_apply s' = Applied"
  by (erule mem_stepE) (simp_all add: shards_applied_def)

lemma get_inv_keep:
  assumes "get_inv hash mt mt' s" and "mem_step hash s s'" and "m_gets s' = m_gets s"
  shows "get_inv hash mt mt' s'"
  unfolding get_inv_def assms(3)
proof (intro allI impI)
  fix r k res
  assume "m_gets s r = GDone k res"
  then have "res = MemTable_Get hash mt' k \<and> shardFor hash k < shards_applied (m_apply s) \<or> res = MemTable_Get hash mt k"
    using assms(1) by (simp add: get_inv_def)
  moreover have "shardFor hash k < shards_applied (m_apply s')" if "shardFor hash k < shards_applied (m_apply s)"
    using shards_applied_mono [OF assms(2)] that by (auto simp: shards_applied_def)
  ultimately show "res = MemTable_Get hash mt' k \<and> shardFor hash k < shards_applied (m_apply s') \<or> res = MemTable_Get hash mt k"
    by blast
qed

lemma get_inv_step:
  assumes "length (shards mt1) = kShardCount" and "length sc1 = kShardCount" and "apply_inv (mt1, sc1) s"
    and "lock_inv hash s" and "mem_step hash s s'" and "get_inv hash mt1 (fst (upto_shard (mt1, sc1) kShardCount)) s"
  shows "get_inv hash mt1 (fst (upto_shard (mt1, sc1) kShardCount)) s'"
  using assms(5)
proof cases
  case (get_lock r k)
  then show ?thesis using assms(6) by (simp add: get_inv_def)
next
  case (get_read r k)
  then show ?thesis
    using assms(6) locked_get [OF assms(1-4) get_read(2)] by (auto simp: get_inv_def split: if_splits)
qed (use get_inv_keep [OF assms(6,5)] in simp_all)

lemma mem_reaches_inv:
  assumes "mem_wf hash mt" and "apply_queued hash bs base (mt, PendingUpdates_new) = (mt1, sc1)"
    and "mem_reaches hash (mem_sys_new hash bs base (mt, PendingUpdates_new)) s"
  shows "apply_inv (mt1, sc1) s \<and> lock_inv hash s \<and> get_inv hash mt1 (fst (upto_shard (mt1, sc1) kShardCount)) s"
  using assms(3)
proof induction
  case mem_init
  then show ?case using assms(2) by (simp add: mem_sys_new_def apply_inv_def lock_inv_def get_inv_def)
next
  case (mem_called s s')
  from mem_called(2,3) show ?case
    by cases (auto simp: apply_inv_def lock_inv_def get_inv_def split: apply_pc.splits)
next
  case (mem_next s s')
  note len = apply_queued_lengths [OF assms(1,2)]
  from mem_next show ?case
    using apply_inv_step [OF len(1,2)] lock_inv_step get_inv_step [OF len(1,2)] by blast
qed

section \<open>Nobody waits forever\<close>

text \<open>The work that is left: every step makes it smaller.\<close>

definition shards_work :: "PendingUpdates \<Rightarrow> nat \<Rightarrow> nat" where
  "shards_work scratch i = (\<Sum>us \<leftarrow> drop i scratch. length us + 3) + 1"

fun apply_work :: "PendingUpdates \<Rightarrow> apply_pc \<Rightarrow> nat" where
  "apply_work scratch (AtShard i) = shards_work scratch i"
| "apply_work scratch (Waiting i) = length (scratch ! i) + 2 + shards_work scratch (Suc i)"
| "apply_work scratch (Filling i us) = length us + 1 + shards_work scratch (Suc i)"
| "apply_work scratch Applied = 0"

fun get_work :: "get_pc \<Rightarrow> nat" where
  "get_work (GWaiting _) = 2"
| "get_work (GLocked _) = 1"
| "get_work _ = 0"

definition active_gets :: "mem_sys \<Rightarrow> nat set" where
  "active_gets s = {r. get_work (m_gets s r) \<noteq> 0}"

definition mem_work :: "mem_sys \<Rightarrow> nat" where
  "mem_work s = apply_work (m_scratch s) (m_apply s) + (\<Sum>r \<in> active_gets s. get_work (m_gets s r))"

lemma shards_work_step: "i < length scratch \<Longrightarrow> shards_work scratch i = length (scratch ! i) + 3 + shards_work scratch (Suc i)"
  by (simp add: shards_work_def Cons_nth_drop_Suc [symmetric])

lemma shards_work_pos: "0 < shards_work scratch i"
  by (simp add: shards_work_def)

lemma shards_work_update: "shards_work (scratch[i := us]) (Suc i) = shards_work scratch (Suc i)"
  by (simp add: shards_work_def)

lemma get_work_step:
  assumes "finite (active_gets s)" and "m_gets s' = (m_gets s)(r := pc)" and "get_work pc < get_work (m_gets s r)"
  shows "(\<Sum>r \<in> active_gets s'. get_work (m_gets s' r)) < (\<Sum>r \<in> active_gets s. get_work (m_gets s r))"
proof -
  have r: "r \<in> active_gets s" and sub: "active_gets s' \<subseteq> active_gets s"
    using assms(2,3) by (auto simp: active_gets_def)
  have "(\<Sum>r \<in> active_gets s'. get_work (m_gets s' r)) = (\<Sum>r \<in> active_gets s. get_work (m_gets s' r))"
    using sub by (intro sum.mono_neutral_left assms(1)) (auto simp: active_gets_def)
  also have "\<dots> < (\<Sum>r \<in> active_gets s. get_work (m_gets s r))"
    using r assms(2,3) by (intro sum_strict_mono_ex1 assms(1)) (auto intro!: bexI [of _ r])
  finally show ?thesis .
qed

lemma mem_step_work:
  assumes "finite (active_gets s)" and "mem_step hash s s'"
  shows "mem_work s' < mem_work s"
  using assms(2)
proof cases
  case (get_lock r k)
  then show ?thesis using get_work_step [OF assms(1), of s' r "GLocked k"] by (simp add: mem_work_def)
next
  case (get_read r k)
  then show ?thesis
    using get_work_step [OF assms(1), of s' r "GDone k (MemTable_Get hash (m_table s) k)"] by (simp add: mem_work_def)
qed (auto simp: mem_work_def active_gets_def shards_work_step shards_work_update shards_work_pos)

lemma finite_active_gets:
  assumes "mem_reaches hash (mem_sys_new hash bs base st) s"
  shows "finite (active_gets s)"
  using assms
proof induction
  case mem_init
  show ?case by (simp add: mem_sys_new_def active_gets_def split: prod.splits)
next
  case (mem_called s s')
  from mem_called(2) obtain r k where "m_gets s' = (m_gets s)(r := GWaiting k)" by cases auto
  then have "active_gets s' \<subseteq> insert r (active_gets s)" by (auto simp: active_gets_def)
  then show ?case using mem_called(3) by (meson finite_insert finite_subset)
next
  case (mem_next s s')
  from mem_next(2) have "active_gets s' \<subseteq> active_gets s"
    by (cases; auto simp: active_gets_def split: if_splits)
  then show ?case using mem_next(3) by (meson finite_subset)
qed

text \<open>
  A state without a step. A reader with a lock could return; a reader without one waits for the applying thread,
  which holds the lock and could go on; and the applying thread waits only for readers.
\<close>

lemma mem_at_rest:
  assumes "\<nexists>s'. mem_step hash s s'"
  shows "m_apply s = Applied" and "m_gets s r = GIdle \<or> (\<exists>k res. m_gets s r = GDone k res)"
proof -
  have unlocked: "m_gets s r \<noteq> GLocked k" for r k using assms mem_step.get_read [of s r k hash] by blast
  show applied: "m_apply s = Applied"
  proof (cases "m_apply s")
    case (AtShard i)
    then show ?thesis
      using assms mem_step.shard_skip [of s i hash] mem_step.shard_wait [of s i hash] mem_step.shards_done [of s i hash]
      by (metis not_le)
  next
    case (Waiting i)
    then show ?thesis using assms mem_step.shard_lock [of s i hash] unlocked by blast
  next
    case (Filling i us)
    then show ?thesis
      using assms mem_step.shard_update [of s i _ _ hash] mem_step.shard_unlock [of s i hash] by (metis list.exhaust)
  qed simp
  show "m_gets s r = GIdle \<or> (\<exists>k res. m_gets s r = GDone k res)"
    using assms mem_step.get_lock [of s r _ hash] unlocked applied by (cases "m_gets s r") auto
qed

end
