(* ===== verification/Table_Properties.thy ===== *)
theory Table_Properties
  imports Mem_Concurrent
begin

text \<open>
  What batches and the in-memory table promise: copies and assignments of a batch, self-assignment
  included; a write group acts on the table as its entries one after the other; readers see the newest entry;
  the table stays well formed and its scratch space empty.
\<close>

section \<open>Batches\<close>

text \<open>
  Copy construction yields an equal batch, and assignment makes the target equal to the source and
  touches no other batch, also when both are the same object.
\<close>

lemma batch_copy_and_assign:
  "WriteBatch_copy b = b \<and> WriteBatch_assign store this other = store(this := store other)"
proof -
  have "WriteBatch_copy b = b" by (rule WriteBatch_copy_eq)
  moreover have "WriteBatch_assign store this other = store(this := store other)"
    by (auto simp: WriteBatch_assign_def Let_def foldl_append_store intro: WriteBatch_eqI)
  ultimately show ?thesis ..
qed

section \<open>The table\<close>

text \<open>
  C17: applying a write group, which first distributes its entries over sixteen shards and then drains shard after
  shard, changes the visible map exactly as its entries applied one by one in their order.
\<close>

theorem apply_group_refines_entries:
  assumes "mem_wf hash mt"
  shows "mem_view hash (fst (ApplyBatches hash bs base (mt, PendingUpdates_new))) =
    foldl apply_entry (mem_view hash mt) (group_entries bs)"
  by (rule mem_view_ApplyBatches [OF assms])

theorem apply_group_refines_entries_witness:
  "mem_view (\<lambda>k. of_nat (length k)) (fst (ApplyBatches (\<lambda>k. of_nat (length k))
      [Put (Put WriteBatch_new [1] [2]) [1, 1] [3]] 5 (MemTable_new, PendingUpdates_new))) =
   foldl apply_entry (mem_view (\<lambda>k. of_nat (length k)) MemTable_new)
     (group_entries [Put (Put WriteBatch_new [1] [2]) [1, 1] [3]])"
  by (rule apply_group_refines_entries [OF mem_wf_new])

lemma apply_entries_last:
  "foldl apply_entry m es k =
     (case filter (\<lambda>e. key e = k) es of
        [] \<Rightarrow> m k
      | es' \<Rightarrow> if etype (last es') = kPut then Some (val (last es')) else None)"
proof (induction es rule: rev_induct)
  case Nil
  then show ?case by simp
next
  case (snoc e es)
  have "\<exists>x xs. filter (\<lambda>e. key e = k) es @ [e] = x # xs" by (cases "filter (\<lambda>e. key e = k) es") auto
  with snoc show ?case
    by (cases "etype e") (auto simp: apply_entry_def split: list.splits if_splits)
qed

text \<open>
  C18: after a group, \<open>Get\<close> of a key returns the value of the last entry of the group for that key, reports it missing
  when that entry is a deletion, and answers as before when the group does not mention the key.
\<close>

theorem get_returns_newest:
  assumes "mem_wf hash mt"
  shows "MemTable_Get hash (fst (ApplyBatches hash bs base (mt, PendingUpdates_new))) k =
    (case filter (\<lambda>e. key e = k) (group_entries bs) of
       [] \<Rightarrow> MemTable_Get hash mt k
     | es \<Rightarrow> if etype (last es) = kPut then Inr (val (last es)) else Inl (NotFound ''key not found''))"
  by (simp add: MemTable_Get_view mem_view_ApplyBatches [OF assms] apply_entries_last split: list.split)

theorem get_returns_newest_witness:
  "MemTable_Get (\<lambda>_. 3) (fst (ApplyBatches (\<lambda>_. 3) [Delete (Put WriteBatch_new [1] [2]) [1], Put WriteBatch_new [1] [9]]
      1 (MemTable_new, PendingUpdates_new))) [1] = Inr [9]"
  using get_returns_newest [OF mem_wf_new, of "\<lambda>_. 3" "[Delete (Put WriteBatch_new [1] [2]) [1], Put WriteBatch_new [1] [9]]" 1 "[1]"]
  by (simp add: group_entries_def)

lemma numbered_nth:
  "i < length es \<Longrightarrow> numbered base es ! i = \<lparr>upd_entry = es ! i, upd_sequence = base + of_nat i\<rparr>"
  by (induction es arbitrary: i base) (auto simp: nth_Cons split: nat.splits)

lemma length_numbered [simp]: "length (numbered base es) = length es"
  by (induction es arbitrary: base) simp_all

lemma foldl_store_update_last:
  assumes "i < length us" and "\<forall>j. i < j \<longrightarrow> j < length us \<longrightarrow> key (upd_entry (us ! j)) \<noteq> key (upd_entry (us ! i))"
  shows "foldl store_update m us (key (upd_entry (us ! i))) =
    Some \<lparr>sequence = upd_sequence (us ! i), deleted = (etype (upd_entry (us ! i)) = kDelete),
          mval = val (upd_entry (us ! i))\<rparr>"
  using assms
proof (induction us rule: rev_induct)
  case Nil
  then show ?case by simp
next
  case (snoc u us)
  show ?case
  proof (cases "i = length us")
    case True
    then show ?thesis by (simp add: store_update_def)
  next
    case False
    then have i: "i < length us" using snoc.prems(1) by simp
    have "key (upd_entry u) \<noteq> key (upd_entry (us ! i))"
      using snoc.prems(2) [rule_format, of "length us"] i by (simp add: nth_append)
    moreover have "\<forall>j. i < j \<longrightarrow> j < length us \<longrightarrow> key (upd_entry (us ! j)) \<noteq> key (upd_entry (us ! i))"
      using snoc.prems(2) i by (auto simp: nth_append dest!: spec split: if_splits)
    ultimately show ?thesis
      using snoc.IH i by (simp add: store_update_def nth_append)
  qed
qed

text \<open>
  The entry at position \<open>i\<close> of a group, unless a later one of the group has the same key, is stored with sequence
  number base plus \<open>i\<close>, its deletion mark and its value.
\<close>

lemma stored_sequence_numbers:
  assumes "mem_wf hash mt" and "i < length (group_entries bs)"
    and "\<forall>j. i < j \<longrightarrow> j < length (group_entries bs) \<longrightarrow> key (group_entries bs ! j) \<noteq> key (group_entries bs ! i)"
  shows "mem_lookup hash (fst (ApplyBatches hash bs base (mt, PendingUpdates_new))) (key (group_entries bs ! i)) =
    Some \<lparr>sequence = base + of_nat i, deleted = (etype (group_entries bs ! i) = kDelete), mval = val (group_entries bs ! i)\<rparr>"
  using foldl_store_update_last [of i "numbered base (group_entries bs)" "mem_lookup hash mt"] assms(2,3)
  by (simp add: mem_lookup_ApplyBatches [OF assms(1)] numbered_nth)

lemma stored_sequence_numbers_instance:
  "mem_lookup (\<lambda>_. 0) (fst (ApplyBatches (\<lambda>_. 0) [Put (Delete WriteBatch_new [1]) [2] [7]] 10
      (MemTable_new, PendingUpdates_new))) [2] = Some \<lparr>sequence = 11, deleted = False, mval = [7]\<rparr>"
  using stored_sequence_numbers [OF mem_wf_new, of 1 "[Put (Delete WriteBatch_new [1]) [2] [7]]" "\<lambda>_. 0" 10]
  by (simp add: group_entries_def)

text \<open>
  C33: a group keeps the table well formed (sixteen shards, each with distinct keys that hash to it), leaves the reusable
  scratch space empty for the next group, and counts one application.
\<close>

theorem apply_group_keeps_invariant:
  assumes "mem_wf hash mt" and "ApplyBatches hash bs base (mt, PendingUpdates_new) = (mt', scratch')"
  shows "mem_wf hash mt' \<and> scratch' = PendingUpdates_new \<and> applyLocks mt' = applyLocks mt + 1"
  using mem_wf_ApplyBatches [OF assms(1), of bs base] scratch_ApplyBatches [OF assms(1), of bs base]
    ApplyBatches_eq [OF assms(1), of bs base] assms(2) by auto

theorem apply_group_keeps_invariant_witness:
  "mem_wf (\<lambda>_. 0) (fst (ApplyBatches (\<lambda>_. 0) [Put WriteBatch_new [1] [2]] 1 (MemTable_new, PendingUpdates_new)))"
  using apply_group_keeps_invariant [OF mem_wf_new, of "\<lambda>_. 0" "[Put WriteBatch_new [1] [2]]" 1]
  by (metis prod.collapse)

text \<open>
  C19: while one thread applies a group shard by shard and entry by entry, every concurrent \<open>Get\<close> returns what its key had before the group or
  what it has behind it, never something in between; a key whose shard has been done is never seen in its old state again. When the
  applying thread is done, its steps have made exactly the change of \<open>ApplyBatches\<close>. Nobody blocks for ever: every step makes the work that is left
  smaller, so unless new \<open>Get\<close>s keep coming the threads come to rest, and at rest the group is applied and every \<open>Get\<close> that was called has returned.
\<close>

theorem concurrent_get_is_old_or_new:
  assumes "mem_wf hash mt" and "ApplyBatches hash bs base (mt, PendingUpdates_new) = (mt', scratch')"
    and "mem_reaches hash (mem_sys_new hash bs base (mt, PendingUpdates_new)) s"
  shows "(\<forall>r k res. m_gets s r = GDone k res \<longrightarrow> res = MemTable_Get hash mt k \<or> res = MemTable_Get hash mt' k) \<and>
    (\<forall>r k. m_gets s r = GLocked k \<longrightarrow> MemTable_Get hash (m_table s) k =
       (if shardFor hash k < shards_applied (m_apply s) then MemTable_Get hash mt' k else MemTable_Get hash mt k)) \<and>
    (m_apply s = Applied \<longrightarrow> m_table s = mt' \<and> m_scratch s = scratch') \<and>
    (\<forall>s'. mem_step hash s s' \<longrightarrow> mem_work s' < mem_work s) \<and>
    ((\<exists>s'. mem_step hash s s') \<or>
     (m_apply s = Applied \<and> (\<forall>r. m_gets s r = GIdle \<or> (\<exists>k res. m_gets s r = GDone k res))))"
proof -
  obtain mt1 sc1 where q: "apply_queued hash bs base (mt, PendingUpdates_new) = (mt1, sc1)" by fastforce
  note len = apply_queued_lengths [OF assms(1) q] and inv = mem_reaches_inv [OF assms(1) q assms(3)]
  have all: "foldl drainShard (mt1, sc1) [0..<kShardCount] = (mt', scratch')"
    using assms(2) len(2) by (simp add: ApplyBatches_queued q)
  have old: "MemTable_Get hash mt1 k = MemTable_Get hash mt k" for k by (rule MemTable_Get_cong) (simp add: len(3))
  have "\<forall>r k res. m_gets s r = GDone k res \<longrightarrow> res = MemTable_Get hash mt k \<or> res = MemTable_Get hash mt' k"
    using conjunct2 [OF conjunct2 [OF inv]] unfolding get_inv_def all old fst_conv by blast
  moreover have "\<forall>r k. m_gets s r = GLocked k \<longrightarrow> MemTable_Get hash (m_table s) k =
       (if shardFor hash k < shards_applied (m_apply s) then MemTable_Get hash mt' k else MemTable_Get hash mt k)"
    using locked_get [OF len(1,2) conjunct1 [OF inv], of hash] inv by (simp add: all old)
  moreover have "m_apply s = Applied \<longrightarrow> m_table s = mt' \<and> m_scratch s = scratch'"
    using conjunct1 [OF inv] by (auto simp: apply_inv_def all)
  moreover have "\<forall>s'. mem_step hash s s' \<longrightarrow> mem_work s' < mem_work s"
    using mem_step_work [OF finite_active_gets [OF assms(3)]] by blast
  moreover have "(\<exists>s'. mem_step hash s s') \<or>
     (m_apply s = Applied \<and> (\<forall>r. m_gets s r = GIdle \<or> (\<exists>k res. m_gets s r = GDone k res)))"
    using mem_at_rest [of hash s] by blast
  ultimately show ?thesis by (intro conjI)
qed

theorem concurrent_get_is_old_or_new_witness:
  "\<exists>s. mem_reaches (\<lambda>_. 0) (mem_sys_new (\<lambda>_. 0) [Put WriteBatch_new [1] [2]] 1 (MemTable_new, PendingUpdates_new)) s \<and>
     m_gets s 0 = GLocked [1] \<and> MemTable_Get (\<lambda>_. 0) (m_table s) [1] = MemTable_Get (\<lambda>_. 0) MemTable_new [1] \<and>
     (\<exists>s'. mem_step (\<lambda>_. 0) s s')"
proof -
  let ?s0 = "mem_sys_new (\<lambda>_. 0) [Put WriteBatch_new [1] [2]] 1 (MemTable_new, PendingUpdates_new)"
  define s1 where "s1 = ?s0\<lparr>m_gets := (m_gets ?s0)(0 := GWaiting [1])\<rparr>"
  define s where "s = s1\<lparr>m_gets := (m_gets s1)(0 := GLocked [1])\<rparr>"
  have idle: "m_gets ?s0 0 = GIdle" "m_apply ?s0 = AtShard 0" by (simp_all add: mem_sys_new_def split: prod.splits)
  have call: "mem_call ?s0 s1" unfolding s1_def using idle(1) by (intro mem_call.get_call) simp
  have lock: "mem_step (\<lambda>_. 0) s1 s" unfolding s_def using idle(2) by (intro mem_step.get_lock) (simp_all add: s1_def)
  have r: "mem_reaches (\<lambda>_. 0) ?s0 s"
    by (rule mem_reaches.mem_next [OF mem_reaches.mem_called [OF mem_reaches.mem_init call] lock])
  have at: "m_apply s = AtShard 0" "m_gets s 0 = GLocked [1]" using idle(2) by (simp_all add: s_def s1_def)
  obtain mt' sc' where "ApplyBatches (\<lambda>_. 0) [Put WriteBatch_new [1] [2]] 1 (MemTable_new, PendingUpdates_new) = (mt', sc')"
    by fastforce
  note main = concurrent_get_is_old_or_new [OF mem_wf_new this r]
  have "MemTable_Get (\<lambda>_. 0) (m_table s) [1] = MemTable_Get (\<lambda>_. 0) MemTable_new [1]"
    using conjunct1 [OF conjunct2 [OF main], rule_format, OF at(2)] at(1) by (simp add: shards_applied_def)
  moreover have "\<exists>s'. mem_step (\<lambda>_. 0) s s'" using main at(1) by simp
  ultimately show ?thesis using r at(2) by blast
qed

lemma Stats_foldl:
  "stat_entries (foldl (\<lambda>stats shard. stats\<lparr>stat_reservedBuckets := stat_reservedBuckets stats + bc shard,
      stat_entries := stat_entries stats + length shard\<rparr>) s sh) = stat_entries s + sum_list (map length sh)"
  by (induction sh arbitrary: s) simp_all

text \<open>
  \<open>Stats\<close> reports as entries the number of distinct keys the table holds, deleted ones included.
\<close>

lemma stats_count_keys:
  assumes "mem_wf hash mt"
  shows "stat_entries (MemTable_Stats bc mt) = card (dom (mem_lookup hash mt))"
proof -
  let ?K = "\<lambda>i. fst ` set (shards mt ! i)"
  have wf: "length (shards mt) = kShardCount" "\<And>i. i < kShardCount \<Longrightarrow> distinct (map fst (shards mt ! i))"
    "\<And>i k. i < kShardCount \<Longrightarrow> k \<in> ?K i \<Longrightarrow> shardFor hash k = i"
    using assms by (auto simp: mem_wf_def shard_wf_def)
  have dom: "mem_lookup hash mt k \<noteq> None \<longleftrightarrow> k \<in> ?K (shardFor hash k)" for k
    by (simp add: mem_lookup_def map_of_eq_None_iff)
  have "dom (mem_lookup hash mt) = (\<Union>i < kShardCount. ?K i)"
  proof (intro equalityI subsetI)
    fix k assume "k \<in> dom (mem_lookup hash mt)"
    then have "k \<in> ?K (shardFor hash k)" using dom by blast
    then show "k \<in> (\<Union>i < kShardCount. ?K i)" using shardFor_less by blast
  next
    fix k assume "k \<in> (\<Union>i < kShardCount. ?K i)"
    then obtain i where i: "i < kShardCount" "k \<in> ?K i" by blast
    then have "k \<in> ?K (shardFor hash k)" using wf(3) by simp
    then show "k \<in> dom (mem_lookup hash mt)" using dom by blast
  qed
  also have "card \<dots> = (\<Sum>i < kShardCount. card (?K i))"
  proof (rule card_UN_disjoint)
    have "?K i \<inter> ?K j = {}" if "i < kShardCount" "j < kShardCount" "i \<noteq> j" for i j
    proof (rule equals0I)
      fix k assume "k \<in> ?K i \<inter> ?K j"
      then have "shardFor hash k = i" "shardFor hash k = j"
        by (rule wf(3) [OF that(1) IntD1], rule wf(3) [OF that(2) IntD2])
      with that(3) show False by simp
    qed
    then show "\<forall>i \<in> {..<kShardCount}. \<forall>j \<in> {..<kShardCount}. i \<noteq> j \<longrightarrow> ?K i \<inter> ?K j = {}"
      by simp
  qed auto
  also have "\<dots> = (\<Sum>i < kShardCount. length (shards mt ! i))"
    using distinct_card [OF wf(2)] by (intro sum.cong) simp_all
  also have "\<dots> = sum_list (map length (shards mt))"
    using wf(1) by (simp add: sum_list_sum_nth atLeast0LessThan)
  finally show ?thesis by (simp add: MemTable_Stats_def Stats_foldl)
qed

lemma stats_count_keys_instance:
  "stat_entries (MemTable_Stats (\<lambda>_. 1) MemTable_new) = card (dom (mem_lookup (\<lambda>_. 0) MemTable_new))"
  by (rule stats_count_keys [OF mem_wf_new])

end
