(* ===== verification/Uring_Executor.thy ===== *)
theory Uring_Executor
  imports Status_Result
begin

text \<open>
  \<open>src/src/io/uring_executor.h\<close>, \<open>src/src/io/uring_executor.cc\<close>: the rings shared with the kernel,
  submission, the completion loop, and the three operations the database uses. The ring indices
  are 32-bit words that wrap around, as in the shared memory.

  The kernel is not in the sources: a \<open>kernel\<close> is an argument of the model, with the return of
  \<open>io_uring_enter\<close>, what it does with the queued entries and the file (\<open>k_run\<close>), the texts of
  \<open>strerror\<close>, and where the frame of a coroutine places its operations (\<open>k_frame\<close>). An operation lives in the frame of the coroutine that waits for it, and its address is
  its \<open>user_data\<close>; the completion loop writes through that address, so a completion for a frame that
  is gone is an error of its own (\<open>Dangling\<close>).
\<close>

unbundle bit_operations_syntax

section \<open>Definitions\<close>

datatype opcode = IORING_OP_NOP | IORING_OP_READV | IORING_OP_WRITEV | IORING_OP_FSYNC

text \<open>The memory an entry's \<open>addr\<close> and \<open>len\<close> designate: buffers to write from or to read into.\<close>

datatype membuf = NoBuf | Gather "bytes list" | Scatter nat

record io_uring_sqe =
  opcode :: opcode
  sqe_link :: bool
  sqe_fd :: int
  sqe_addr :: membuf
  sqe_len :: u32
  sqe_off :: u64
  sqe_datasync :: bool
  user_data :: u64

definition sqe_zero :: io_uring_sqe where
  "sqe_zero = \<lparr>opcode = IORING_OP_NOP, sqe_link = False, sqe_fd = 0, sqe_addr = NoBuf, sqe_len = 0,
     sqe_off = 0, sqe_datasync = False, user_data = 0\<rparr>"

text \<open>A completion: the \<open>int32_t\<close> result, and what was stored in the entry's buffers.\<close>

record io_uring_cqe =
  cqe_user_data :: u64
  cqe_res :: u32
  cqe_data :: bytes

record Operation =
  op_sqe :: io_uring_sqe
  continuation :: bool
  result :: u32
  op_data :: bytes

record State =
  ringFd :: int
  sq_head :: u32
  sq_tail :: u32
  sq_ringMask :: u32
  sq_ringEntries :: u32
  sq_flags :: u32
  sq_array :: "u32 list"
  sqes :: "io_uring_sqe list"
  cq_head :: u32
  cq_tail :: u32
  cq_ringMask :: u32
  cq_ringEntries :: u32
  cqes :: "io_uring_cqe list"
  sqRingPtr :: u64
  cqRingPtr :: u64
  sqesPtr :: u64
  sqRingSize :: u64
  cqRingSize :: u64
  sqesSize :: u64
  singleMmap :: bool
  completionThread :: bool
  stopping :: bool
  completionLoopCompletions :: u64
  sqPollEnabled :: bool

text \<open>The log file: what a read sees, and what survives a power failure.\<close>

record wal_file =
  content :: bytes
  stable :: bytes

record kernel =
  k_enter :: "State \<Rightarrow> nat \<Rightarrow> int \<times> string"
  k_wakeup :: "State \<Rightarrow> int \<times> string"
  k_run :: "State \<Rightarrow> wal_file \<Rightarrow> State \<times> wal_file"
  k_strerror :: "int \<Rightarrow> string"
  k_frame :: "u64 \<times> u64"

definition IORING_SQ_NEED_WAKEUP :: u32 where
  "IORING_SQ_NEED_WAKEUP = 1"

definition wakeSqPollIfNeeded :: "kernel \<Rightarrow> State \<Rightarrow> Status" where
  "wakeSqPollIfNeeded k st =
     (if \<not> sqPollEnabled st then Ok
      else if sq_flags st AND IORING_SQ_NEED_WAKEUP = 0 then Ok
      else let (ret, err) = k_wakeup k st
      in if ret < 0 then IoError (errnoMessage ''io_uring_enter sqpoll wakeup'' err) else Ok)"

definition submitRaw :: "kernel \<Rightarrow> State \<Rightarrow> io_uring_sqe \<Rightarrow> u64 \<Rightarrow> Status \<times> State" where
  "submitRaw k st source userData =
     (let tail = sq_tail st; head = sq_head st; n = sq_ringEntries st
      in if tail - head \<ge> n then (IoError ''io_uring submission queue is full'', st)
      else let index = tail AND sq_ringMask st;
               st = st\<lparr>sqes := (sqes st)[unat index := source\<lparr>user_data := userData\<rparr>],
                       sq_array := (sq_array st)[unat index := index],
                       sq_tail := tail + 1\<rparr>
      in if sqPollEnabled st then (wakeSqPollIfNeeded k st, st)
      else let (ret, err) = k_enter k st 1
      in if ret < 0 then (IoError (errnoMessage ''io_uring_enter submit'' err), st) else (Ok, st))"

text \<open>\<open>submit\<close> and \<open>submitLinked\<close>: \<^const>\<open>None\<close> is an executor without a state.\<close>

definition submit :: "kernel \<Rightarrow> State option \<Rightarrow> u64 \<Rightarrow> Operation \<Rightarrow> Status \<times> State option" where
  "submit k st_opt addr operation =
     (case st_opt of
        None \<Rightarrow> (IoError ''io_uring executor is closed'', None)
      | Some st \<Rightarrow>
        if ringFd st < 0 then (IoError ''io_uring executor is closed'', Some st)
        else map_prod id Some (submitRaw k st (op_sqe operation) addr))"

definition submitLinked ::
  "kernel \<Rightarrow> State option \<Rightarrow> u64 \<times> Operation \<Rightarrow> u64 \<times> Operation \<Rightarrow> Status \<times> State option" where
  "submitLinked k st_opt first second =
     (case st_opt of
        None \<Rightarrow> (IoError ''io_uring executor is closed'', None)
      | Some st \<Rightarrow>
        if ringFd st < 0 then (IoError ''io_uring executor is closed'', Some st)
        else let tail = sq_tail st; head = sq_head st; n = sq_ringEntries st
        in if tail - head + 2 > n then (IoError ''io_uring submission queue is full'', Some st)
        else let firstIndex = tail AND sq_ringMask st;
                 secondIndex = (tail + 1) AND sq_ringMask st;
                 firstSqe = (op_sqe (snd first))\<lparr>sqe_link := True, user_data := fst first\<rparr>;
                 secondSqe = (op_sqe (snd second))\<lparr>user_data := fst second\<rparr>;
                 st = st\<lparr>sqes := (sqes st)[unat firstIndex := firstSqe, unat secondIndex := secondSqe],
                         sq_array := (sq_array st)[unat firstIndex := firstIndex, unat secondIndex := secondIndex],
                         sq_tail := tail + 2\<rparr>
        in if sqPollEnabled st then (wakeSqPollIfNeeded k st, Some st)
        else let (ret, err) = k_enter k st 2
        in if ret < 0 then (IoError (errnoMessage ''io_uring_enter submit linked'' err), Some st)
           else (Ok, Some st))"

text \<open>
  The inner loop of \<open>completionLoop\<close>: take completions until the ring is empty, or stop at the
  wake-up entry that \<open>closeRing\<close> queued. \<open>ops\<close> is the memory of the waiting frames and \<open>resumed\<close>
  the continuations that were resumed, in order.
\<close>

datatype drain_end = Drained | Stopped | Dangling u64

type_synonym frames = "u64 \<Rightarrow> Operation option"

lemma cq_distance_less:
  assumes "(h :: u32) \<noteq> t"
  shows "unat (t - (h + 1)) < unat (t - h)"
proof -
  have "t - h \<noteq> 0" using assms by simp
  then have "unat (t - h - 1) < unat (t - h)" by (rule measure_unat)
  then show ?thesis by (simp add: diff_diff_eq)
qed

function drainCompletions ::
  "State \<Rightarrow> frames \<Rightarrow> u64 list \<Rightarrow> drain_end \<times> State \<times> frames \<times> u64 list" where
  "drainCompletions st ops resumed =
     (if cq_head st = cq_tail st then (Drained, st, ops, resumed)
      else let cqe = cqes st ! unat (cq_head st AND cq_ringMask st);
               st = st\<lparr>cq_head := cq_head st + 1\<rparr>
      in if cqe_user_data cqe = 0
         then if stopping st then (Stopped, st, ops, resumed)
              else drainCompletions st ops resumed
         else case ops (cqe_user_data cqe) of
           None \<Rightarrow> (Dangling (cqe_user_data cqe), st, ops, resumed)
         | Some operation \<Rightarrow>
             drainCompletions
               (st\<lparr>completionLoopCompletions := completionLoopCompletions st + 1\<rparr>)
               (ops(cqe_user_data cqe \<mapsto> operation\<lparr>result := cqe_res cqe, op_data := cqe_data cqe\<rparr>))
               (if continuation operation then resumed @ [cqe_user_data cqe] else resumed))"
  by pat_completeness auto
termination
  by (relation "measure (\<lambda>(st, ops, resumed). unat (cq_tail st - cq_head st))")
     (auto intro: cq_distance_less)

declare drainCompletions.simps [simp del]

text \<open>The continuation of a single operation (\<open>SingleOperationAwaiter::await_resume\<close>).\<close>

definition single_await_resume ::
  "kernel \<Rightarrow> string \<Rightarrow> string \<Rightarrow> bool \<Rightarrow> u32 \<Rightarrow> u32 Result" where
  "single_await_resume k submitError operationError submitFailed res =
     (if submitFailed then Inl (IoError submitError)
      else if sint res < 0
      then Inl (IoError (operationError @ '': '' @ k_strerror k (- sint res)))
      else Inr res)"

text \<open>The continuation of the linked pair (\<open>Awaiter::await_resume\<close> of \<open>WritevAndFDataSync\<close>).\<close>

definition linked_await_resume :: "kernel \<Rightarrow> bool \<Rightarrow> u32 \<Rightarrow> u32 \<Rightarrow> nat \<Rightarrow> Status" where
  "linked_await_resume k submitFailed write_result sync_result expectedBytes =
     (if submitFailed then IoError ''io_uring linked writev+fdatasync submit failed''
      else if sint write_result < 0
      then IoError (''io_uring writev failed: '' @ k_strerror k (- sint write_result))
      else if nat (sint write_result) \<noteq> expectedBytes then IoError ''io_uring writev completed short''
      else if sint sync_result < 0
      then IoError (''io_uring fdatasync failed: '' @ k_strerror k (- sint sync_result))
      else Ok)"

text \<open>
  A coroutine that waits at \<open>addr\<close>: the kernel runs what is queued, the completion loop takes the
  completions. \<^const>\<open>None\<close>: the coroutine is never resumed.
\<close>

definition await_completion ::
  "kernel \<Rightarrow> State \<Rightarrow> wal_file \<Rightarrow> frames \<Rightarrow> u64 \<Rightarrow> frames option \<times> State \<times> wal_file" where
  "await_completion k st file ops addr =
     (let (st, file) = k_run k st file;
          (_, st, ops, resumed) = drainCompletions st ops []
      in (if addr \<in> set resumed then Some ops else None, st, file))"

definition await_single ::
  "kernel \<Rightarrow> State option \<Rightarrow> wal_file \<Rightarrow> io_uring_sqe \<Rightarrow> string \<Rightarrow> string \<Rightarrow>
   (u32 \<times> bytes) Result option \<times> State option \<times> wal_file" where
  "await_single k ex file sqe submitError operationError =
     (let addr = fst (k_frame k);
          operation = \<lparr>op_sqe = sqe, continuation = True, result = 0, op_data = []\<rparr>;
          (status, ex) = submit k ex addr operation
      in case ex of
           None \<Rightarrow> (Some (Inl (IoError submitError)), None, file)
         | Some st \<Rightarrow>
           if \<not> ok status
           then (Some (map_sum id (\<lambda>r. (r, [])) (single_await_resume k submitError operationError True 0)),
                 Some st, file)
           else let (ops, st, file) = await_completion k st file [addr \<mapsto> operation] addr
           in (map_option (\<lambda>ops. let operation = the (ops addr)
                 in map_sum id (\<lambda>r. (r, op_data operation))
                      (single_await_resume k submitError operationError False (result operation))) ops,
               Some st, file))"

definition WritevAndFDataSync ::
  "kernel \<Rightarrow> State option \<Rightarrow> wal_file \<Rightarrow> int \<Rightarrow> bytes list \<Rightarrow> u64 \<Rightarrow> nat \<Rightarrow>
   Status option \<times> State option \<times> wal_file" where
  "WritevAndFDataSync k ex file fd iovs off expectedBytes =
     (let (wa, sa) = k_frame k;
          writeSqe = sqe_zero\<lparr>opcode := IORING_OP_WRITEV, sqe_fd := fd, sqe_addr := Gather iovs,
                              sqe_len := of_nat (length iovs), sqe_off := off\<rparr>;
          syncSqe = sqe_zero\<lparr>opcode := IORING_OP_FSYNC, sqe_fd := fd, sqe_datasync := True\<rparr>;
          writeOperation = \<lparr>op_sqe = writeSqe, continuation = False, result = 0, op_data = []\<rparr>;
          syncOperation = \<lparr>op_sqe = syncSqe, continuation = True, result = 0, op_data = []\<rparr>;
          (status, ex) = submitLinked k ex (wa, writeOperation) (sa, syncOperation)
      in case ex of
           None \<Rightarrow> (Some (linked_await_resume k True 0 0 expectedBytes), None, file)
         | Some st \<Rightarrow>
           if \<not> ok status then (Some (linked_await_resume k True 0 0 expectedBytes), Some st, file)
           else let (ops, st, file) = await_completion k st file
                      [wa \<mapsto> writeOperation, sa \<mapsto> syncOperation] sa
           in (map_option (\<lambda>ops. linked_await_resume k False (result (the (ops wa)))
                                  (result (the (ops sa))) expectedBytes) ops,
               Some st, file))"

text \<open>\<open>ReadAt\<close> returns the size and leaves the bytes read in the caller's buffer.\<close>

definition ReadAt ::
  "kernel \<Rightarrow> State option \<Rightarrow> wal_file \<Rightarrow> int \<Rightarrow> bytes \<Rightarrow> u64 \<Rightarrow>
   (nat \<times> bytes) Result option \<times> State option \<times> wal_file" where
  "ReadAt k ex file fd buffer off =
     (let sqe = sqe_zero\<lparr>opcode := IORING_OP_READV, sqe_fd := fd, sqe_addr := Scatter (length buffer),
                         sqe_len := 1, sqe_off := off\<rparr>;
          (res, ex, file) = await_single k ex file sqe ''io_uring readv submit failed'' ''io_uring readv failed''
      in (map_option (map_sum id (\<lambda>(n, data). (nat (sint n), overwrite buffer 0 data))) res, ex, file))"

definition FDataSync ::
  "kernel \<Rightarrow> State option \<Rightarrow> wal_file \<Rightarrow> int \<Rightarrow> Status option \<times> State option \<times> wal_file" where
  "FDataSync k ex file fd =
     (let sqe = sqe_zero\<lparr>opcode := IORING_OP_FSYNC, sqe_fd := fd, sqe_datasync := True\<rparr>;
          (res, ex, file) = await_single k ex file sqe ''io_uring fdatasync submit failed'' ''io_uring fdatasync failed''
      in (map_option (\<lambda>res. case res of Inl s \<Rightarrow> s | Inr _ \<Rightarrow> Ok) res, ex, file))"

section \<open>The rings as queues\<close>

text \<open>
  What the rings stand for: the entries the kernel has still to take, in the order it takes them
  (through the index array), and the completions the loop has still to take.
\<close>

definition sq_pending :: "State \<Rightarrow> io_uring_sqe list" where
  "sq_pending st =
     map (\<lambda>i. sqes st ! unat (sq_array st ! unat ((sq_head st + of_nat i) AND sq_ringMask st)))
       [0..<unat (sq_tail st - sq_head st)]"

definition cq_pending :: "State \<Rightarrow> io_uring_cqe list" where
  "cq_pending st =
     map (\<lambda>i. cqes st ! unat ((cq_head st + of_nat i) AND cq_ringMask st))
       [0..<unat (cq_tail st - cq_head st)]"

text \<open>
  The invariant of the submission ring: a power of two of entries (what \<open>io_uring_setup\<close> promises),
  never more queued than entries, and every queued slot of the index array holds its own index.
\<close>

definition sq_wf :: "State \<Rightarrow> bool" where
  "sq_wf st \<longleftrightarrow>
     (\<exists>n \<le> 15. sq_ringEntries st = 2 ^ n) \<and> sq_ringMask st = sq_ringEntries st - 1 \<and>
     length (sqes st) = unat (sq_ringEntries st) \<and> length (sq_array st) = unat (sq_ringEntries st) \<and>
     sq_tail st - sq_head st \<le> sq_ringEntries st \<and>
     (\<forall>i < unat (sq_tail st - sq_head st).
        sq_array st ! unat ((sq_head st + of_nat i) AND sq_ringMask st) =
        (sq_head st + of_nat i) AND sq_ringMask st)"

lemma ring_index:
  assumes "n \<le> 15"
  shows "unat (((h :: u32) + of_nat i) AND (2 ^ n - 1)) = (unat h + i) mod 2 ^ n"
proof -
  have d: "(2 ^ n :: nat) dvd 2 ^ 32"
    using assms by (intro le_imp_power_dvd) simp
  have "unat ((h + of_nat i) AND (2 ^ n - 1)) = unat (h + of_nat i) mod 2 ^ n"
    by (simp add: mask_eq_exp_minus_1 [symmetric] take_bit_eq_mask [symmetric] unsigned_take_bit_eq)
       (simp add: take_bit_eq_mod)
  also have "\<dots> = (unat h + i mod 2 ^ 32) mod 2 ^ 32 mod 2 ^ n"
    by (simp add: unat_word_ariths unsigned_of_nat take_bit_eq_mod)
  also have "\<dots> = (unat h + i) mod 2 ^ n"
    using d by (metis mod_add_right_eq mod_mod_cancel)
  finally show ?thesis .
qed

lemma slot_distinct:
  assumes "i < d" and "d < N"
  shows "(a + i) mod N \<noteq> (a + d) mod (N :: nat)"
proof
  assume "(a + i) mod N = (a + d) mod N"
  then have "N dvd (a + d) - (a + i)"
    using assms(1) by (metis mod_eq_dvd_iff_nat add_left_mono less_imp_le)
  then have "N dvd d - i" by simp
  then show False using assms by (auto dest: dvd_imp_le)
qed

lemma u32_distance_Suc:
  assumes "unat ((t :: u32) - h) < 2 ^ 15"
  shows "unat (t + 1 - h) = Suc (unat (t - h))"
proof -
  have "unat (x + 1) = Suc (unat x)" if "unat x < 2 ^ 15" for x :: u32
    using that by (simp add: unat_word_ariths)
  from this [OF assms] show ?thesis by (simp add: algebra_simps)
qed

text \<open>Writing the slot at the tail and moving the tail queues the entry behind the others.\<close>

lemma sq_push:
  assumes wf: "sq_wf st" and room: "sq_tail st - sq_head st < sq_ringEntries st"
    and ix: "ix = sq_tail st AND sq_ringMask st"
    and st': "st' = st\<lparr>sqes := (sqes st)[unat ix := e], sq_array := (sq_array st)[unat ix := ix],
                       sq_tail := sq_tail st + 1\<rparr>"
  shows "sq_pending st' = sq_pending st @ [e]" and "sq_wf st'"
proof -
  obtain n where n: "n \<le> 15" "sq_ringEntries st = 2 ^ n" "sq_ringMask st = 2 ^ n - 1"
    using wf by (auto simp: sq_wf_def)
  define h where "h = sq_head st"
  define d where "d = unat (sq_tail st - h)"
  define slot where "slot i = (h + of_nat i) AND (2 ^ n - 1)" for i
  have pow: "(2 :: nat) ^ n \<le> 2 ^ 15" using n(1) by (intro power_increasing) auto
  then have N: "unat (2 ^ n :: u32) = 2 ^ n"
    using unat_of_nat_u32 [of "2 ^ n"] by simp
  have dN: "d < 2 ^ n" using room n N by (simp add: d_def h_def word_less_nat_alt)
  have tail: "sq_tail st = h + of_nat d" by (simp add: d_def)
  have ix_slot: "ix = slot d" using ix n(3) tail by (simp add: slot_def)
  have slotu: "unat (slot i) = (unat h + i) mod 2 ^ n" for i
    unfolding slot_def by (rule ring_index [OF n(1)])
  have other: "unat (slot i) \<noteq> unat (slot d)" if "i < d" for i
    using slot_distinct [OF that dN] by (simp add: slotu)
  have small: "unat (slot d) < 2 ^ n" by (simp add: slotu)
  have len: "length (sqes st) = 2 ^ n" "length (sq_array st) = 2 ^ n"
    using wf n N by (auto simp: sq_wf_def)
  have arr: "sq_array st ! unat (slot i) = slot i" if "i < d" for i
    using wf that n(3) unfolding sq_wf_def d_def h_def slot_def by auto
  have dist: "unat (sq_tail st + 1 - h) = Suc d"
    unfolding d_def using dN pow by (intro u32_distance_Suc) (simp add: d_def)
  have pend: "sq_pending st = map (\<lambda>i. sqes st ! unat (sq_array st ! unat (slot i))) [0..<d]"
    by (simp add: sq_pending_def slot_def n(3) h_def d_def)
  have "sq_pending st' =
    map (\<lambda>i. (sqes st)[unat (slot d) := e] ! unat ((sq_array st)[unat (slot d) := slot d] ! unat (slot i)))
      [0..<Suc d]"
    using dist by (simp add: sq_pending_def st' ix_slot slot_def n(3) h_def)
  also have "\<dots> = sq_pending st @ [e]"
    using len small by (auto simp: pend arr other other [symmetric])
  finally show "sq_pending st' = sq_pending st @ [e]" .
  have "sq_tail st + 1 - h \<le> 2 ^ n" using dist dN N by (simp add: word_le_nat_alt)
  moreover have "(sq_array st)[unat (slot d) := slot d] ! unat (slot i) = slot i" if "i < Suc d" for i
    using that len small arr [of i] other [of i] by (cases "i = d") auto
  ultimately show "sq_wf st'"
    using wf n N dist by (auto simp: sq_wf_def st' ix_slot slot_def h_def)
qed

lemma length_sq_pending [simp]: "length (sq_pending st) = unat (sq_tail st - sq_head st)"
  by (simp add: sq_pending_def)

lemma sq_wf_entries:
  assumes "sq_wf st"
  shows "unat (sq_ringEntries st) \<le> 2 ^ 15" and "unat (sq_tail st - sq_head st) \<le> unat (sq_ringEntries st)"
proof -
  obtain n where n: "n \<le> 15" "sq_ringEntries st = 2 ^ n"
    using assms by (auto simp: sq_wf_def)
  have "(2 :: nat) ^ n \<le> 2 ^ 15" using n(1) by (intro power_increasing) auto
  then show "unat (sq_ringEntries st) \<le> 2 ^ 15"
    using n(2) unat_of_nat_u32 [of "2 ^ n"] by simp
  show "unat (sq_tail st - sq_head st) \<le> unat (sq_ringEntries st)"
    using assms by (simp add: sq_wf_def word_le_nat_alt)
qed

lemma submitRaw_full:
  assumes "sq_wf st" and "length (sq_pending st) = unat (sq_ringEntries st)"
  shows "submitRaw k st e a = (IoError ''io_uring submission queue is full'', st)"
proof -
  have "sq_ringEntries st \<le> sq_tail st - sq_head st" using assms(2) by (simp add: word_le_nat_alt)
  then show ?thesis by (simp add: submitRaw_def)
qed

lemma submitRaw_room:
  assumes "sq_wf st" and "length (sq_pending st) < unat (sq_ringEntries st)"
  shows "sq_pending (snd (submitRaw k st e a)) = sq_pending st @ [e\<lparr>user_data := a\<rparr>]"
    and "sq_wf (snd (submitRaw k st e a))"
proof -
  have room: "sq_tail st - sq_head st < sq_ringEntries st" using assms(2) by (simp add: word_less_nat_alt)
  define st' where "st' = st\<lparr>sqes := (sqes st)[unat (sq_tail st AND sq_ringMask st) := e\<lparr>user_data := a\<rparr>],
    sq_array := (sq_array st)[unat (sq_tail st AND sq_ringMask st) := sq_tail st AND sq_ringMask st],
    sq_tail := sq_tail st + 1\<rparr>"
  have "snd (submitRaw k st e a) = st'"
    using room by (simp add: submitRaw_def st'_def Let_def not_le [symmetric] split: prod.splits if_splits)
  then show "sq_pending (snd (submitRaw k st e a)) = sq_pending st @ [e\<lparr>user_data := a\<rparr>]"
    and "sq_wf (snd (submitRaw k st e a))"
    using sq_push [OF assms(1) room refl st'_def] by simp_all
qed

text \<open>A pair goes in as two single entries, or not at all.\<close>

definition linked_state :: "State \<Rightarrow> u64 \<times> Operation \<Rightarrow> u64 \<times> Operation \<Rightarrow> State" where
  "linked_state st first second =
     (let firstIndex = sq_tail st AND sq_ringMask st;
          secondIndex = (sq_tail st + 1) AND sq_ringMask st
      in st\<lparr>sqes := (sqes st)[unat firstIndex := (op_sqe (snd first))\<lparr>sqe_link := True, user_data := fst first\<rparr>,
                              unat secondIndex := (op_sqe (snd second))\<lparr>user_data := fst second\<rparr>],
            sq_array := (sq_array st)[unat firstIndex := firstIndex, unat secondIndex := secondIndex],
            sq_tail := sq_tail st + 2\<rparr>)"

lemma submitLinked_cases:
  assumes "sq_wf st" and "ringFd st \<ge> 0"
  shows "submitLinked k (Some st) first second =
     (if unat (sq_ringEntries st) < length (sq_pending st) + 2
      then (IoError ''io_uring submission queue is full'', Some st)
      else let st' = linked_state st first second
      in (if sqPollEnabled st then wakeSqPollIfNeeded k st'
          else if fst (k_enter k st' 2) < 0
          then IoError (errnoMessage ''io_uring_enter submit linked'' (snd (k_enter k st' 2))) else Ok,
          Some st'))"
proof -
  have "unat (sq_tail st - sq_head st + 2) = unat (sq_tail st - sq_head st) + 2"
    using sq_wf_entries [OF assms(1)] by (simp add: unat_word_ariths)
  then have "sq_ringEntries st < sq_tail st - sq_head st + 2 \<longleftrightarrow>
    unat (sq_ringEntries st) < length (sq_pending st) + 2"
    by (simp add: word_less_nat_alt)
  then show ?thesis
    using assms(2)
    by (simp add: submitLinked_def linked_state_def Let_def split: prod.splits)
qed

lemma linked_state_push:
  assumes "sq_wf st" and "length (sq_pending st) + 2 \<le> unat (sq_ringEntries st)"
  shows "sq_pending (linked_state st first second) = sq_pending st @
      [(op_sqe (snd first))\<lparr>sqe_link := True, user_data := fst first\<rparr>, (op_sqe (snd second))\<lparr>user_data := fst second\<rparr>]"
    and "sq_wf (linked_state st first second)"
proof -
  define st1 where "st1 = st\<lparr>sqes := (sqes st)[unat (sq_tail st AND sq_ringMask st) :=
       (op_sqe (snd first))\<lparr>sqe_link := True, user_data := fst first\<rparr>],
    sq_array := (sq_array st)[unat (sq_tail st AND sq_ringMask st) := sq_tail st AND sq_ringMask st],
    sq_tail := sq_tail st + 1\<rparr>"
  have room: "sq_tail st - sq_head st < sq_ringEntries st"
    using assms(2) by (simp add: word_less_nat_alt)
  note one = sq_push [OF assms(1) room refl st1_def]
  have room1: "sq_tail st1 - sq_head st1 < sq_ringEntries st1"
    using assms(2) arg_cong [OF one(1), of length]
    by (simp add: word_less_nat_alt) (simp add: st1_def)
  have two: "linked_state st first second = st1\<lparr>
      sqes := (sqes st1)[unat (sq_tail st1 AND sq_ringMask st1) := (op_sqe (snd second))\<lparr>user_data := fst second\<rparr>],
      sq_array := (sq_array st1)[unat (sq_tail st1 AND sq_ringMask st1) := sq_tail st1 AND sq_ringMask st1],
      sq_tail := sq_tail st1 + 1\<rparr>"
    by (simp add: linked_state_def st1_def Let_def)
  show "sq_pending (linked_state st first second) = sq_pending st @
      [(op_sqe (snd first))\<lparr>sqe_link := True, user_data := fst first\<rparr>, (op_sqe (snd second))\<lparr>user_data := fst second\<rparr>]"
    using sq_push(1) [OF one(2) room1 refl two] one(1) by simp
  show "sq_wf (linked_state st first second)"
    by (rule sq_push(2) [OF one(2) room1 refl two])
qed

end
