(* ===== verification/Uring_Completion.thy ===== *)
theory Uring_Completion
  imports Uring_Executor
begin

text \<open>
  The completion side of \<open>src/src/io/uring_executor.cc\<close> and the contract of the kernel: the
  completion loop as a walk over the list of completions, what the manual promises of the linked
  write and sync, of a read and of a sync (\<open>kernel_documented\<close>), and what \<open>WritevAndFDataSync\<close>,
  \<open>ReadAt\<close> and \<open>FDataSync\<close> then return. A reference kernel shows the contract can be met.
\<close>

unbundle bit_operations_syntax

section \<open>The completion loop\<close>

text \<open>The loop on a list: what remains of it, the frames, the continuations resumed.\<close>

primrec deliver ::
  "bool \<Rightarrow> io_uring_cqe list \<Rightarrow> frames \<Rightarrow> u64 list \<Rightarrow>
   drain_end \<times> io_uring_cqe list \<times> frames \<times> u64 list" where
  "deliver stop [] ops resumed = (Drained, [], ops, resumed)"
| "deliver stop (c # cs) ops resumed =
     (if cqe_user_data c = 0
      then if stop then (Stopped, cs, ops, resumed) else deliver stop cs ops resumed
      else case ops (cqe_user_data c) of
             None \<Rightarrow> (Dangling (cqe_user_data c), cs, ops, resumed)
           | Some operation \<Rightarrow>
               deliver stop cs
                 (ops(cqe_user_data c \<mapsto> operation\<lparr>result := cqe_res c, op_data := cqe_data c\<rparr>))
                 (if continuation operation then resumed @ [cqe_user_data c] else resumed))"

lemma length_cq_pending [simp]: "length (cq_pending st) = unat (cq_tail st - cq_head st)"
  by (simp add: cq_pending_def)

lemma cq_pending_empty_iff: "cq_pending st = [] \<longleftrightarrow> cq_head st = cq_tail st"
  by (metis length_0_conv length_cq_pending right_minus_eq unat_eq_zero)

lemma cq_pending_cong:
  "cq_pending (st\<lparr>completionLoopCompletions := n\<rparr>) = cq_pending st"
  by (simp add: cq_pending_def)

lemma unat_word_pred: "(x :: u32) \<noteq> 0 \<Longrightarrow> unat x = Suc (unat (x - 1))"
  using unat_minus_one [of x] unat_gt_0 [of x] by simp

lemma cq_pending_step:
  assumes "cq_head st \<noteq> cq_tail st"
  shows "cq_pending st =
     cqes st ! unat (cq_head st AND cq_ringMask st) # cq_pending (st\<lparr>cq_head := cq_head st + 1\<rparr>)"
proof -
  have "unat (cq_tail st - cq_head st) = Suc (unat (cq_tail st - (cq_head st + 1)))"
    using unat_word_pred [of "cq_tail st - cq_head st"] assms by (simp add: diff_diff_eq)
  then show ?thesis
    by (simp add: cq_pending_def upt_conv_Cons map_Suc_upt [symmetric] ac_simps del: upt_Suc)
qed

lemma drain_unfold:
  "drainCompletions st ops resumed =
     (case cq_pending st of
        [] \<Rightarrow> (Drained, st, ops, resumed)
      | c # cs \<Rightarrow>
        let st' = st\<lparr>cq_head := cq_head st + 1\<rparr>
        in if cqe_user_data c = 0
           then if stopping st then (Stopped, st', ops, resumed) else drainCompletions st' ops resumed
           else case ops (cqe_user_data c) of
                  None \<Rightarrow> (Dangling (cqe_user_data c), st', ops, resumed)
                | Some operation \<Rightarrow>
                    drainCompletions (st'\<lparr>completionLoopCompletions := completionLoopCompletions st + 1\<rparr>)
                      (ops(cqe_user_data c \<mapsto> operation\<lparr>result := cqe_res c, op_data := cqe_data c\<rparr>))
                      (if continuation operation then resumed @ [cqe_user_data c] else resumed))"
proof (cases "cq_head st = cq_tail st")
  case True
  then have "cq_pending st = []" by (simp add: cq_pending_empty_iff)
  then show ?thesis using True by (simp add: drainCompletions.simps)
next
  case False
  then show ?thesis
    by (subst drainCompletions.simps) (simp add: cq_pending_step Let_def cong: option.case_cong)
qed

lemma cq_pending_tl:
  "cq_pending st = c # cs \<Longrightarrow> cq_pending (st\<lparr>cq_head := cq_head st + 1\<rparr>) = cs"
  by (metis cq_pending_empty_iff cq_pending_step list.distinct(1) list.inject)

text \<open>
  The ring refines the list, wrap-around included; draining touches the head of the completion
  ring and the counter of the executor only.
\<close>

lemma drain_deliver:
  assumes "cq_pending st = cs" and "deliver (stopping st) cs ops resumed = (e, rest, ops', resumed')"
  shows "\<exists>h n. drainCompletions st ops resumed =
           (e, st\<lparr>cq_head := h, completionLoopCompletions := n\<rparr>, ops', resumed') \<and>
         cq_pending (st\<lparr>cq_head := h, completionLoopCompletions := n\<rparr>) = rest"
  using assms
proof (induction cs arbitrary: st ops resumed)
  case Nil
  show ?case
    using Nil
    by (intro exI [of _ "cq_head st"] exI [of _ "completionLoopCompletions st"])
       (subst drain_unfold, simp)
next
  case (Cons c cs)
  define st1 where "st1 = st\<lparr>cq_head := cq_head st + 1\<rparr>"
  define st2 where "st2 = st1\<lparr>completionLoopCompletions := completionLoopCompletions st + 1\<rparr>"
  have tl: "cq_pending st1 = cs" "cq_pending st2 = cs"
    using cq_pending_tl [OF Cons.prems(1)] by (simp_all add: st1_def st2_def cq_pending_cong)
  have st1: "st1\<lparr>cq_head := h, completionLoopCompletions := n\<rparr> = st\<lparr>cq_head := h, completionLoopCompletions := n\<rparr>"
    and st2: "st2\<lparr>cq_head := h, completionLoopCompletions := n\<rparr> = st\<lparr>cq_head := h, completionLoopCompletions := n\<rparr>" for h n
    by (simp_all add: st1_def st2_def)
  have self: "\<exists>h n. (x, st1, y) = (x, st\<lparr>cq_head := h, completionLoopCompletions := n\<rparr>, y) \<and>
      cq_pending (st\<lparr>cq_head := h, completionLoopCompletions := n\<rparr>) = cs" for x :: drain_end and y :: "frames \<times> u64 list"
    using tl(1)
    by (intro exI [of _ "cq_head st + 1"] exI [of _ "completionLoopCompletions st"]) (simp add: st1_def)
  have stop: "stopping st1 = stopping st" "stopping st2 = stopping st"
    by (simp_all add: st1_def st2_def)
  have step: "drainCompletions st ops resumed =
     (if cqe_user_data c = 0
      then if stopping st then (Stopped, st1, ops, resumed) else drainCompletions st1 ops resumed
      else case ops (cqe_user_data c) of
             None \<Rightarrow> (Dangling (cqe_user_data c), st1, ops, resumed)
           | Some operation \<Rightarrow>
               drainCompletions st2
                 (ops(cqe_user_data c \<mapsto> operation\<lparr>result := cqe_res c, op_data := cqe_data c\<rparr>))
                 (if continuation operation then resumed @ [cqe_user_data c] else resumed))"
    by (subst drain_unfold) (simp add: Cons.prems(1) st1_def st2_def Let_def cong: option.case_cong)
  note IH1 = Cons.IH [OF tl(1), unfolded stop st1] and IH2 = Cons.IH [OF tl(2), unfolded stop st2]
  show ?case
  proof (cases "cqe_user_data c = 0")
    case True
    show ?thesis
    proof (cases "stopping st")
      case stopped: True
      then show ?thesis using Cons.prems(2) True self unfolding step by auto
    next
      case running: False
      then show ?thesis using Cons.prems(2) True unfolding step by (auto intro!: IH1)
    qed
  next
    case False
    show ?thesis
    proof (cases "ops (cqe_user_data c)")
      case None
      then show ?thesis using Cons.prems(2) False self unfolding step by auto
    next
      case (Some operation)
      then show ?thesis using Cons.prems(2) False unfolding step
        by (cases "continuation operation") (simp_all, (erule IH2)+)
    qed
  qed
qed

text \<open>A completion of an operation whose frame still waits, and one that resumes its frame.\<close>

definition waiting :: "frames \<Rightarrow> io_uring_cqe \<Rightarrow> bool" where
  "waiting ops c \<longleftrightarrow> cqe_user_data c \<noteq> 0 \<and> ops (cqe_user_data c) \<noteq> None"

definition resumes :: "frames \<Rightarrow> io_uring_cqe \<Rightarrow> bool" where
  "resumes ops c \<longleftrightarrow> (\<exists>operation. ops (cqe_user_data c) = Some operation \<and> continuation operation)"

lemma deliver_waiting:
  assumes "\<forall>c \<in> set cs. waiting ops c"
  shows "\<exists>ops'. deliver stop cs ops resumed =
      (Drained, [], ops', resumed @ map cqe_user_data (filter (resumes ops) cs)) \<and>
    waiting ops' = waiting ops \<and> resumes ops' = resumes ops"
  using assms
proof (induction cs arbitrary: ops resumed)
  case Nil
  then show ?case by simp
next
  case (Cons c cs)
  then obtain operation where c: "cqe_user_data c \<noteq> 0" "ops (cqe_user_data c) = Some operation"
    by (auto simp: waiting_def)
  define ops1 where "ops1 = ops(cqe_user_data c \<mapsto> operation\<lparr>result := cqe_res c, op_data := cqe_data c\<rparr>)"
  have same: "waiting ops1 = waiting ops" "resumes ops1 = resumes ops"
    using c by (auto simp: ops1_def waiting_def resumes_def fun_eq_iff)
  have head: "resumes ops c = continuation operation" using c by (simp add: resumes_def)
  have "\<forall>d \<in> set cs. waiting ops1 d" using Cons.prems same(1) by simp
  from Cons.IH [OF this, of "if continuation operation then resumed @ [cqe_user_data c] else resumed"]
  show ?case using c head by (cases "continuation operation") (simp_all add: same ops1_def [symmetric])
qed

section \<open>The contract of the kernel\<close>

definition cq_wf :: "State \<Rightarrow> bool" where
  "cq_wf st \<longleftrightarrow> (\<exists>n \<in> {1..15}. cq_ringMask st = 2 ^ n - 1 \<and> length (cqes st) = 2 ^ n)"

text \<open>An open executor with both rings empty: no operation is in flight.\<close>

definition idle :: "State \<Rightarrow> bool" where
  "idle st \<longleftrightarrow> ringFd st \<ge> 0 \<and> \<not> stopping st \<and> sq_wf st \<and> cq_wf st \<and> 2 \<le> sq_ringEntries st \<and>
     sq_head st = sq_tail st \<and> cq_head st = cq_tail st"

text \<open>The kernel has taken every entry and posted the completions \<open>cs\<close>.\<close>

definition kernel_posted :: "State \<Rightarrow> State \<Rightarrow> io_uring_cqe list \<Rightarrow> bool" where
  "kernel_posted st st' cs \<longleftrightarrow>
     st' = st\<lparr>sq_head := sq_tail st, sq_flags := sq_flags st', cq_tail := cq_tail st', cqes := cqes st'\<rparr> \<and>
     length (cqes st') = length (cqes st) \<and> cq_pending st' = cs"

text \<open>
  A write at \<open>off\<close> changes nothing before \<open>off\<close>, and what was already stable there stays so. A
  result that is not negative is the number of bytes written.
\<close>

definition write_effect :: "wal_file \<Rightarrow> wal_file \<Rightarrow> nat \<Rightarrow> bytes \<Rightarrow> u32 \<Rightarrow> bool" where
  "write_effect file file' off data r \<longleftrightarrow>
     take off (content file') = take off (content file) \<and>
     (take off (stable file) = take off (content file) \<longrightarrow> take off (stable file') = take off (content file)) \<and>
     (0 \<le> sint r \<longrightarrow> nat (sint r) \<le> length data \<and>
        content file' = overwrite (content file) off (take (nat (sint r)) data))"

text \<open>Reads and syncs leave the content; pages may reach the disk at any time.\<close>

definition unchanged :: "wal_file \<Rightarrow> wal_file \<Rightarrow> bool" where
  "unchanged file file' \<longleftrightarrow>
     content file' = content file \<and> (stable file = content file \<longrightarrow> stable file' = content file)"

definition documented_write :: "kernel \<Rightarrow> bool" where
  "documented_write k \<longleftrightarrow>
     (\<forall>st file w s iovs. cq_wf st \<longrightarrow> cq_head st = cq_tail st \<longrightarrow> sq_pending st = [w, s] \<longrightarrow>
        opcode w = IORING_OP_WRITEV \<longrightarrow> sqe_link w \<longrightarrow> sqe_addr w = Gather iovs \<longrightarrow>
        unat (sqe_len w) = length iovs \<longrightarrow> length iovs \<le> 1024 \<longrightarrow>
        unat (sqe_off w) \<le> length (content file) \<longrightarrow>
        opcode s = IORING_OP_FSYNC \<longrightarrow> sqe_fd s = sqe_fd w \<longrightarrow>
        (\<exists>r1 r2.
           kernel_posted st (fst (k_run k st file))
             [\<lparr>cqe_user_data = user_data w, cqe_res = r1, cqe_data = []\<rparr>,
              \<lparr>cqe_user_data = user_data s, cqe_res = r2, cqe_data = []\<rparr>] \<and>
           write_effect file (snd (k_run k st file)) (unat (sqe_off w)) (concat iovs) r1 \<and>
           (0 \<le> sint r2 \<longrightarrow> stable (snd (k_run k st file)) = content (snd (k_run k st file)))))"

definition documented_read :: "kernel \<Rightarrow> bool" where
  "documented_read k \<longleftrightarrow>
     (\<forall>st file e n. cq_wf st \<longrightarrow> cq_head st = cq_tail st \<longrightarrow> sq_pending st = [e] \<longrightarrow>
        opcode e = IORING_OP_READV \<longrightarrow> sqe_addr e = Scatter n \<longrightarrow> sqe_len e = 1 \<longrightarrow>
        (\<exists>r data.
           kernel_posted st (fst (k_run k st file))
             [\<lparr>cqe_user_data = user_data e, cqe_res = r, cqe_data = data\<rparr>] \<and>
           unchanged file (snd (k_run k st file)) \<and>
           (0 \<le> sint r \<longrightarrow> nat (sint r) \<le> n \<and> nat (sint r) \<le> length (content file) - unat (sqe_off e) \<and>
              data = take (nat (sint r)) (drop (unat (sqe_off e)) (content file)))))"

definition documented_sync :: "kernel \<Rightarrow> bool" where
  "documented_sync k \<longleftrightarrow>
     (\<forall>st file e. cq_wf st \<longrightarrow> cq_head st = cq_tail st \<longrightarrow> sq_pending st = [e] \<longrightarrow>
        opcode e = IORING_OP_FSYNC \<longrightarrow>
        (\<exists>r.
           kernel_posted st (fst (k_run k st file))
             [\<lparr>cqe_user_data = user_data e, cqe_res = r, cqe_data = []\<rparr>] \<and>
           unchanged file (snd (k_run k st file)) \<and>
           (0 \<le> sint r \<longrightarrow> stable (snd (k_run k st file)) = content file)))"

definition kernel_documented :: "kernel \<Rightarrow> bool" where
  "kernel_documented k \<longleftrightarrow>
     fst (k_frame k) \<noteq> 0 \<and> snd (k_frame k) \<noteq> 0 \<and> fst (k_frame k) \<noteq> snd (k_frame k) \<and>
     documented_write k \<and> documented_read k \<and> documented_sync k"

text \<open>\<open>io_uring_enter\<close> takes what it is given; it may fail (\<open>EAGAIN\<close>, \<open>EBUSY\<close>), so this is separate.\<close>

definition enter_accepts :: "kernel \<Rightarrow> bool" where
  "enter_accepts k \<longleftrightarrow> (\<forall>st n. 0 \<le> fst (k_enter k st n)) \<and> (\<forall>st. 0 \<le> fst (k_wakeup k st))"

text \<open>
  A kernel whose device answers: a read of at most \<open>0x7ffff000\<close> bytes (Linux never transfers more
  at once) that covers the file returns all of it.
\<close>

definition max_rw_count :: nat where
  "max_rw_count = 0x7ffff000"

definition reads_exactly :: "kernel \<Rightarrow> wal_file \<Rightarrow> nat \<Rightarrow> nat \<Rightarrow> bool" where
  "reads_exactly k file n m \<longleftrightarrow>
     (\<forall>st e r data. cq_wf st \<longrightarrow> cq_head st = cq_tail st \<longrightarrow> sq_pending st = [e] \<longrightarrow>
        opcode e = IORING_OP_READV \<longrightarrow> sqe_addr e = Scatter n \<longrightarrow> sqe_len e = 1 \<longrightarrow> sqe_off e = 0 \<longrightarrow>
        cq_pending (fst (k_run k st file)) = [\<lparr>cqe_user_data = user_data e, cqe_res = r, cqe_data = data\<rparr>] \<longrightarrow>
        sint r = int m)"

definition full_reads :: "kernel \<Rightarrow> bool" where
  "full_reads k \<longleftrightarrow>
     (\<forall>file n. length (content file) \<le> n \<longrightarrow> length (content file) \<le> max_rw_count \<longrightarrow>
        reads_exactly k file n (length (content file)))"

text \<open>A read that covers a file of at most that size may fail, but when it succeeds it returns all of it.\<close>

definition never_short :: "kernel \<Rightarrow> bool" where
  "never_short k \<longleftrightarrow>
     (\<forall>st file e n r data. cq_wf st \<longrightarrow> cq_head st = cq_tail st \<longrightarrow> sq_pending st = [e] \<longrightarrow>
        opcode e = IORING_OP_READV \<longrightarrow> sqe_addr e = Scatter n \<longrightarrow> sqe_len e = 1 \<longrightarrow> sqe_off e = 0 \<longrightarrow>
        length (content file) \<le> n \<longrightarrow> length (content file) \<le> max_rw_count \<longrightarrow>
        cq_pending (fst (k_run k st file)) = [\<lparr>cqe_user_data = user_data e, cqe_res = r, cqe_data = data\<rparr>] \<longrightarrow>
        0 \<le> sint r \<longrightarrow> sint r = int (length (content file)))"

lemma full_reads_never_short [simp]: "full_reads k \<Longrightarrow> never_short k"
  unfolding full_reads_def reads_exactly_def never_short_def by blast

text \<open>
  The device takes a write of that size to this file as a whole, and \<open>Q\<close> holds of the result of the sync behind it: an
  error, or success. A healthy device takes and syncs every such write.
\<close>

definition whole_write :: "kernel \<Rightarrow> wal_file \<Rightarrow> (int \<Rightarrow> bool) \<Rightarrow> bool" where
  "whole_write k file Q \<longleftrightarrow>
     (\<forall>st w s iovs r1 r2. cq_wf st \<longrightarrow> cq_head st = cq_tail st \<longrightarrow> sq_pending st = [w, s] \<longrightarrow>
        opcode w = IORING_OP_WRITEV \<longrightarrow> sqe_link w \<longrightarrow> sqe_addr w = Gather iovs \<longrightarrow>
        unat (sqe_len w) = length iovs \<longrightarrow> length iovs \<le> 1024 \<longrightarrow> length (concat iovs) \<le> max_rw_count \<longrightarrow>
        opcode s = IORING_OP_FSYNC \<longrightarrow>
        cq_pending (fst (k_run k st file)) =
          [\<lparr>cqe_user_data = user_data w, cqe_res = r1, cqe_data = []\<rparr>,
           \<lparr>cqe_user_data = user_data s, cqe_res = r2, cqe_data = []\<rparr>] \<longrightarrow>
        sint r1 = int (length (concat iovs)) \<and> Q (sint r2))"

definition sync_fails :: "kernel \<Rightarrow> wal_file \<Rightarrow> bool" where
  "sync_fails k file \<longleftrightarrow> whole_write k file (\<lambda>r. r < 0)"

definition sync_succeeds :: "kernel \<Rightarrow> wal_file \<Rightarrow> bool" where
  "sync_succeeds k file \<longleftrightarrow> whole_write k file (\<lambda>r. 0 \<le> r)"

definition full_writes :: "kernel \<Rightarrow> bool" where
  "full_writes k \<longleftrightarrow> (\<forall>file. sync_succeeds k file)"

section \<open>What the operations return\<close>

lemma idle_pending [simp]: "idle st \<Longrightarrow> sq_pending st = []"
  by (simp add: idle_def sq_pending_def)

lemma sq_wf_drained:
  "sq_wf st \<Longrightarrow> sq_wf (st\<lparr>sq_head := sq_tail st, sq_flags := f, cq_tail := t, cqes := c, cq_head := h,
     completionLoopCompletions := n\<rparr>)"
  by (simp add: sq_wf_def)

lemma idle_after:
  assumes "sq_wf st" "cq_wf st" "ringFd st \<ge> 0" "\<not> stopping st" "2 \<le> sq_ringEntries st"
    and "kernel_posted st st' cs"
    and "cq_pending (st'\<lparr>cq_head := h, completionLoopCompletions := n\<rparr>) = []"
  shows "idle (st'\<lparr>cq_head := h, completionLoopCompletions := n\<rparr>)"
proof -
  obtain f t c where st': "st' = st\<lparr>sq_head := sq_tail st, sq_flags := f, cq_tail := t, cqes := c\<rparr>"
    and len: "length c = length (cqes st)"
    using assms(6) unfolding kernel_posted_def by blast
  have "cq_head (st'\<lparr>cq_head := h, completionLoopCompletions := n\<rparr>) =
        cq_tail (st'\<lparr>cq_head := h, completionLoopCompletions := n\<rparr>)"
    using assms(7) by (simp only: cq_pending_empty_iff)
  moreover have "sq_wf (st'\<lparr>cq_head := h, completionLoopCompletions := n\<rparr>)"
    unfolding st' using sq_wf_drained [OF assms(1)] by simp
  ultimately show ?thesis
    using assms(2-5) len by (simp add: idle_def cq_wf_def st')
qed

text \<open>The completions of the waiting frame are delivered, and its continuation resumed.\<close>

lemma await_posted:
  assumes "sq_wf st" "cq_wf st" "ringFd st \<ge> 0" "\<not> stopping st" "2 \<le> sq_ringEntries st"
    and "kernel_posted st (fst (k_run k st file)) cs"
    and "deliver False cs ops [] = (Drained, [], ops', resumed)" and "addr \<in> set resumed"
  shows "\<exists>st'. await_completion k st file ops addr = (Some ops', st', snd (k_run k st file)) \<and> idle st'"
proof -
  define st1 where "st1 = fst (k_run k st file)"
  have posted: "kernel_posted st st1 cs" using assms(6) by (simp add: st1_def)
  then obtain f t c where "st1 = st\<lparr>sq_head := sq_tail st, sq_flags := f, cq_tail := t, cqes := c\<rparr>"
    and pend: "cq_pending st1 = cs"
    unfolding kernel_posted_def by blast
  then have "stopping st1 = stopping st" by simp
  then have "deliver (stopping st1) cs ops [] = (Drained, [], ops', resumed)"
    using assms(4,7) by simp
  from drain_deliver [OF pend this] obtain h n where
    d: "drainCompletions st1 ops [] =
          (Drained, st1\<lparr>cq_head := h, completionLoopCompletions := n\<rparr>, ops', resumed)"
    and e: "cq_pending (st1\<lparr>cq_head := h, completionLoopCompletions := n\<rparr>) = []" by blast
  have "idle (st1\<lparr>cq_head := h, completionLoopCompletions := n\<rparr>)"
    by (rule idle_after [OF assms(1-5) posted e])
  then show ?thesis
    using d assms(8) by (simp add: await_completion_def st1_def case_prod_beta Let_def)
qed

lemma linked_state_fields [simp]:
  "ringFd (linked_state st a b) = ringFd st" "stopping (linked_state st a b) = stopping st"
  "sq_ringEntries (linked_state st a b) = sq_ringEntries st" "cq_head (linked_state st a b) = cq_head st"
  "cq_tail (linked_state st a b) = cq_tail st" "cq_wf (linked_state st a b) = cq_wf st"
  by (simp_all add: linked_state_def Let_def cq_wf_def)

lemma linked_await_resume_ok:
  "ok (linked_await_resume k False r1 r2 n) \<longleftrightarrow> 0 \<le> sint r1 \<and> nat (sint r1) = n \<and> 0 \<le> sint r2"
  by (auto simp: linked_await_resume_def)

lemma linked_await_resume_failed [simp]: "\<not> ok (linked_await_resume k True r1 r2 n)"
  by (simp add: linked_await_resume_def)

lemma enter_acceptsD:
  assumes "enter_accepts k"
  shows "\<not> fst (k_enter k st n) < 0" "ok (wakeSqPollIfNeeded k st)"
proof -
  show "\<not> fst (k_enter k st n) < 0" using assms by (simp add: enter_accepts_def not_less)
  have "\<not> fst (k_wakeup k st) < 0" using assms by (simp add: enter_accepts_def not_less)
  then show "ok (wakeSqPollIfNeeded k st)" by (simp add: wakeSqPollIfNeeded_def Let_def case_prod_beta)
qed

text \<open>
  The linked write and sync on an idle executor: it always returns; on success the whole record is
  in the file and on the disk; whatever happens, the bytes before the offset stay.
\<close>

definition write_sync_result ::
  "wal_file \<Rightarrow> nat \<Rightarrow> bytes \<Rightarrow> nat \<Rightarrow> Status option \<times> State option \<times> wal_file \<Rightarrow> bool" where
  "write_sync_result file off data n = (\<lambda>(res, ex, file').
     (\<exists>s. res = Some s \<and>
        (ok s \<longrightarrow> n < 2 ^ 31 \<and> n \<le> length data \<and> content file' = overwrite (content file) off (take n data) \<and>
           stable file' = content file' \<and> (\<exists>st. ex = Some st \<and> idle st))) \<and>
     take off (content file') = take off (content file) \<and>
     (take off (stable file) = take off (content file) \<longrightarrow> take off (stable file') = take off (content file)))"

lemma nat_sint_u32_less: "nat (sint (r :: u32)) < 2 ^ 31"
  using sint_lt [of r] by (simp add: nat_less_iff)

lemma WritevAndFDataSync_idle:
  assumes k: "kernel_documented k" and idle: "idle st"
    and iovs: "length iovs \<le> 1024" and off: "unat off \<le> length (content file)"
  shows "write_sync_result file (unat off) (concat iovs) n (WritevAndFDataSync k (Some st) file fd iovs off n)"
    and "enter_accepts k \<Longrightarrow>
      \<exists>st'. fst (snd (WritevAndFDataSync k (Some st) file fd iovs off n)) = Some st' \<and> idle st'"
    and "enter_accepts k \<Longrightarrow> sync_succeeds k file \<Longrightarrow> n = length (concat iovs) \<Longrightarrow> n \<le> max_rw_count \<Longrightarrow>
      fst (WritevAndFDataSync k (Some st) file fd iovs off n) = Some Ok"
    and "enter_accepts k \<Longrightarrow> sync_fails k file \<Longrightarrow> n = length (concat iovs) \<Longrightarrow> n \<le> max_rw_count \<Longrightarrow>
      \<exists>s st' file'. WritevAndFDataSync k (Some st) file fd iovs off n = (Some s, Some st', file') \<and> \<not> ok s \<and>
        content file' = overwrite (content file) (unat off) (concat iovs)"
proof -
  obtain wa sa where frame: "k_frame k = (wa, sa)" by fastforce
  define w where "w = \<lparr>op_sqe = sqe_zero\<lparr>opcode := IORING_OP_WRITEV, sqe_fd := fd, sqe_addr := Gather iovs,
      sqe_len := of_nat (length iovs), sqe_off := off\<rparr>, continuation = False, result = 0, op_data = []\<rparr>"
  define s where "s = \<lparr>op_sqe = sqe_zero\<lparr>opcode := IORING_OP_FSYNC, sqe_fd := fd, sqe_datasync := True\<rparr>,
      continuation = True, result = 0, op_data = []\<rparr>"
  define st1 where "st1 = linked_state st (wa, w) (sa, s)"
  define status where "status = fst (submitLinked k (Some st) (wa, w) (sa, s))"
  have wf: "sq_wf st" "cq_wf st" "ringFd st \<ge> 0" "\<not> stopping st" "2 \<le> sq_ringEntries st"
    "cq_head st = cq_tail st" using idle by (auto simp: idle_def)
  have two: "2 \<le> unat (sq_ringEntries st)" using wf(5) by (simp add: word_le_nat_alt)
  have sub: "submitLinked k (Some st) (wa, w) (sa, s) = (status, Some st1)"
    using two idle wf(3) unfolding status_def st1_def
    by (simp add: submitLinked_cases [OF wf(1,3)] Let_def)
  have ok: "ok status" if "enter_accepts k"
    using two idle by (simp add: status_def submitLinked_cases [OF wf(1,3)] Let_def enter_acceptsD [OF that])
  have pend: "sq_pending st1 =
    [(op_sqe w)\<lparr>sqe_link := True, user_data := wa\<rparr>, (op_sqe s)\<lparr>user_data := sa\<rparr>]"
    and wf1: "sq_wf st1"
    using linked_state_push [OF wf(1), of "(wa, w)" "(sa, s)"] two idle by (simp_all add: st1_def)
  have wf2: "cq_wf st1" "ringFd st1 \<ge> 0" "\<not> stopping st1" "2 \<le> sq_ringEntries st1" "cq_head st1 = cq_tail st1"
    using wf by (simp_all add: st1_def)
  let ?R = "WritevAndFDataSync k (Some st) file fd iovs off n"
  have R: "?R = (if \<not> ok status then (Some (linked_await_resume k True 0 0 n), Some st1, file)
       else let (ops, st, file) = await_completion k st1 file [wa \<mapsto> w, sa \<mapsto> s] sa
       in (map_option (\<lambda>ops. linked_await_resume k False (result (the (ops wa))) (result (the (ops sa))) n) ops,
           Some st, file))"
    using sub by (simp add: WritevAndFDataSync_def frame Let_def w_def s_def)
  have dw: "documented_write k" using k by (simp add: kernel_documented_def)
  obtain r1 r2 where
    posted: "kernel_posted st1 (fst (k_run k st1 file))
      [\<lparr>cqe_user_data = wa, cqe_res = r1, cqe_data = []\<rparr>, \<lparr>cqe_user_data = sa, cqe_res = r2, cqe_data = []\<rparr>]"
    and eff: "write_effect file (snd (k_run k st1 file)) (unat off) (concat iovs) r1"
    and sync: "0 \<le> sint r2 \<Longrightarrow> stable (snd (k_run k st1 file)) = content (snd (k_run k st1 file))"
    using dw [unfolded documented_write_def, rule_format, OF wf2(1,5) pend, of iovs "file"] iovs off
    by (auto simp: w_def s_def sqe_zero_def)
  have del: "deliver False
      [\<lparr>cqe_user_data = wa, cqe_res = r1, cqe_data = []\<rparr>, \<lparr>cqe_user_data = sa, cqe_res = r2, cqe_data = []\<rparr>]
      [wa \<mapsto> w, sa \<mapsto> s] [] =
      (Drained, [], [wa \<mapsto> w\<lparr>result := r1\<rparr>, sa \<mapsto> s\<lparr>result := r2\<rparr>], [sa])"
    using k frame by (auto simp: kernel_documented_def w_def s_def fun_eq_iff)
  obtain st2 where aw: "await_completion k st1 file [wa \<mapsto> w, sa \<mapsto> s] sa =
      (Some [wa \<mapsto> w\<lparr>result := r1\<rparr>, sa \<mapsto> s\<lparr>result := r2\<rparr>], st2, snd (k_run k st1 file))" and "idle st2"
    using await_posted [OF wf1 wf2(1-4) posted del] by auto
  then have R2: "?R = (Some (linked_await_resume k False r1 r2 n), Some st2, snd (k_run k st1 file))" if "ok status"
    using that k frame by (simp add: R kernel_documented_def)
  show "write_sync_result file (unat off) (concat iovs) n ?R"
    using R R2 \<open>idle st2\<close> eff sync nat_sint_u32_less [of r1]
    by (cases "ok status") (auto simp: write_sync_result_def write_effect_def linked_await_resume_ok)
  show "\<exists>st'. fst (snd ?R) = Some st' \<and> idle st'" if "enter_accepts k"
    using R2 [OF ok [OF that]] \<open>idle st2\<close> by simp
  show "fst ?R = Some Ok"
    if "enter_accepts k" "sync_succeeds k file" "n = length (concat iovs)" "n \<le> max_rw_count"
  proof -
    have "sint r1 = int (length (concat iovs)) \<and> 0 \<le> sint r2"
      using that(2) [unfolded sync_succeeds_def whole_write_def, rule_format, OF wf2(1,5) pend, of iovs r1 r2] posted iovs that(3,4)
      by (simp add: w_def s_def sqe_zero_def kernel_posted_def del: length_concat)
    then show ?thesis
      using R2 [OF ok [OF that(1)]] that(3) by (simp add: linked_await_resume_def del: length_concat)
  qed
  show "\<exists>s st' file'. ?R = (Some s, Some st', file') \<and> \<not> ok s \<and>
      content file' = overwrite (content file) (unat off) (concat iovs)"
    if "enter_accepts k" "sync_fails k file" "n = length (concat iovs)" "n \<le> max_rw_count"
  proof -
    have "sint r1 = int (length (concat iovs)) \<and> sint r2 < 0"
      using that(2) [unfolded sync_fails_def whole_write_def, rule_format, OF wf2(1,5) pend, of iovs r1 r2] posted iovs that(3,4)
      by (simp add: w_def s_def sqe_zero_def kernel_posted_def del: length_concat)
    then show ?thesis
      using R2 [OF ok [OF that(1)]] eff by (auto simp: linked_await_resume_ok write_effect_def simp del: length_concat)
  qed
qed

lemma submitRaw_fields:
  assumes "submitRaw k st e a = (status, st')"
  shows "ringFd st' = ringFd st" "stopping st' = stopping st" "sq_ringEntries st' = sq_ringEntries st"
    "cq_head st' = cq_head st" "cq_tail st' = cq_tail st" "cq_wf st' = cq_wf st"
  using assms
  by (auto simp: submitRaw_def Let_def cq_wf_def split: if_splits prod.splits)

lemma submitRaw_accepted:
  assumes "enter_accepts k" and "sq_tail st - sq_head st < sq_ringEntries st"
  shows "ok (fst (submitRaw k st e a))"
  using assms(2) by (simp add: submitRaw_def Let_def case_prod_beta enter_acceptsD [OF assms(1)])

text \<open>A single operation on an idle executor, whatever the kernel promises (\<open>P\<close>) of it.\<close>

lemma await_single_idle:
  assumes idle: "idle st" and a: "fst (k_frame k) \<noteq> 0"
    and law: "\<forall>st1. cq_wf st1 \<longrightarrow> cq_head st1 = cq_tail st1 \<longrightarrow>
      sq_pending st1 = [e\<lparr>user_data := fst (k_frame k)\<rparr>] \<longrightarrow>
      (\<exists>r data. kernel_posted st1 (fst (k_run k st1 file))
          [\<lparr>cqe_user_data = fst (k_frame k), cqe_res = r, cqe_data = data\<rparr>] \<and>
        P r data (snd (k_run k st1 file)))"
  shows "(\<not> enter_accepts k \<and>
       (\<exists>st'. await_single k (Some st) file e se oe = (Some (Inl (IoError se)), Some st', file))) \<or>
     (\<exists>st' r data file'. await_single k (Some st) file e se oe =
        (Some (map_sum id (\<lambda>r. (r, data)) (single_await_resume k se oe False r)), Some st', file') \<and>
        idle st' \<and> P r data file')"
proof -
  define adr where "adr = fst (k_frame k)"
  define oper where "oper = \<lparr>op_sqe = e, continuation = True, result = 0, op_data = []\<rparr>"
  obtain status st1 where sub: "submitRaw k st e adr = (status, st1)" by fastforce
  have wf: "sq_wf st" "cq_wf st" "ringFd st \<ge> 0" "\<not> stopping st" "2 \<le> sq_ringEntries st"
    "cq_head st = cq_tail st" "sq_head st = sq_tail st" using idle by (auto simp: idle_def)
  have two: "0 < unat (sq_ringEntries st)" using wf(5) by (simp add: word_le_nat_alt)
  have pend: "sq_pending st1 = [e\<lparr>user_data := adr\<rparr>]" and wf1: "sq_wf st1"
    using submitRaw_room [OF wf(1), of k e adr] two idle wf(7) by (simp_all add: sub)
  note st1 = submitRaw_fields [OF sub]
  have acc: "ok status" if "enter_accepts k"
    using submitRaw_accepted [OF that, of st e adr] two wf(7) by (simp add: sub word_less_nat_alt)
  have R: "await_single k (Some st) file e se oe =
    (if \<not> ok status then (Some (Inl (IoError se)), Some st1, file)
     else let (ops, st, file) = await_completion k st1 file [adr \<mapsto> oper] adr
     in (map_option (\<lambda>ops. map_sum id (\<lambda>r. (r, op_data (the (ops adr))))
            (single_await_resume k se oe False (result (the (ops adr))))) ops, Some st, file))"
    using sub wf(3)
    by (simp add: await_single_def submit_def Let_def adr_def oper_def single_await_resume_def)
  obtain r data where
    posted: "kernel_posted st1 (fst (k_run k st1 file)) [\<lparr>cqe_user_data = adr, cqe_res = r, cqe_data = data\<rparr>]"
    and P: "P r data (snd (k_run k st1 file))"
    using law [rule_format, of st1] pend wf(2,6) st1 by (auto simp: adr_def)
  have del: "deliver False [\<lparr>cqe_user_data = adr, cqe_res = r, cqe_data = data\<rparr>] [adr \<mapsto> oper] [] =
    (Drained, [], [adr \<mapsto> oper\<lparr>result := r, op_data := data\<rparr>], [adr])"
    using a by (simp add: adr_def oper_def)
  have wf2: "cq_wf st1" "ringFd st1 \<ge> 0" "\<not> stopping st1" "2 \<le> sq_ringEntries st1"
    using wf st1 by simp_all
  obtain st2 where "await_completion k st1 file [adr \<mapsto> oper] adr =
      (Some [adr \<mapsto> oper\<lparr>result := r, op_data := data\<rparr>], st2, snd (k_run k st1 file))" and "idle st2"
    using await_posted [OF wf1 wf2 posted del] by auto
  then show ?thesis using R acc P by (cases "ok status") auto
qed

text \<open>\<open>ReadAt\<close> may come back short; what it did read is the start of the file.\<close>

lemma ReadAt_idle:
  assumes k: "kernel_documented k" and "idle st"
    and "ReadAt k (Some st) file fd buffer 0 = (res, ex, file')"
  shows "res \<noteq> None" "unchanged file file'"
    "enter_accepts k \<Longrightarrow> \<exists>st'. ex = Some st' \<and> idle st'"
    "res = Some (Inr (n, buf)) \<Longrightarrow> n < 2 ^ 31 \<and> n \<le> length buffer \<and> n \<le> length (content file) \<and>
       take n buf = take n (content file) \<and> n \<le> length buf \<and> (\<exists>st'. ex = Some st' \<and> idle st')"
    "enter_accepts k \<Longrightarrow> reads_exactly k file (length buffer) m \<Longrightarrow> \<exists>buf. res = Some (Inr (m, buf))"
    "res = Some (Inr (n, buf)) \<Longrightarrow> never_short k \<Longrightarrow> length (content file) \<le> length buffer \<Longrightarrow>
       length (content file) \<le> max_rw_count \<Longrightarrow> n = length (content file)"
    "res = Some (Inl s) \<Longrightarrow> \<not> ok s"
proof -
  define e where "e = sqe_zero\<lparr>opcode := IORING_OP_READV, sqe_fd := fd, sqe_addr := Scatter (length buffer),
     sqe_len := 1, sqe_off := 0\<rparr>"
  define P where "P r data file' \<longleftrightarrow> unchanged file file' \<and>
     (0 \<le> sint r \<longrightarrow> nat (sint r) \<le> length buffer \<and> nat (sint r) \<le> length (content file) \<and>
        data = take (nat (sint r)) (content file)) \<and>
     (reads_exactly k file (length buffer) m \<longrightarrow> sint r = int m) \<and>
     (never_short k \<longrightarrow> length (content file) \<le> length buffer \<longrightarrow> length (content file) \<le> max_rw_count \<longrightarrow>
        0 \<le> sint r \<longrightarrow> sint r = int (length (content file)))" for r :: u32 and data and file' :: wal_file
  have a: "fst (k_frame k) \<noteq> 0" and dr: "documented_read k" using k by (simp_all add: kernel_documented_def)
  have fr: "sint r = int m"
    if "cq_wf st1" "cq_head st1 = cq_tail st1" "sq_pending st1 = [e\<lparr>user_data := fst (k_frame k)\<rparr>]"
      "reads_exactly k file (length buffer) m"
      "cq_pending (fst (k_run k st1 file)) = [\<lparr>cqe_user_data = fst (k_frame k), cqe_res = r, cqe_data = data\<rparr>]"
    for st1 r data
    using that(4) [unfolded reads_exactly_def, rule_format, OF that(1-3), of r data] that(5)
    by (simp add: e_def)
  have ns: "never_short k \<longrightarrow> length (content file) \<le> length buffer \<longrightarrow> length (content file) \<le> max_rw_count \<longrightarrow>
      0 \<le> sint r \<longrightarrow> sint r = int (length (content file))"
    if "cq_wf st1" "cq_head st1 = cq_tail st1" "sq_pending st1 = [e\<lparr>user_data := fst (k_frame k)\<rparr>]"
      "cq_pending (fst (k_run k st1 file)) = [\<lparr>cqe_user_data = fst (k_frame k), cqe_res = r, cqe_data = data\<rparr>]"
    for st1 r data
    unfolding never_short_def using that by (auto simp: e_def)
  have law: "\<forall>st1. cq_wf st1 \<longrightarrow> cq_head st1 = cq_tail st1 \<longrightarrow>
      sq_pending st1 = [e\<lparr>user_data := fst (k_frame k)\<rparr>] \<longrightarrow>
      (\<exists>r data. kernel_posted st1 (fst (k_run k st1 file))
        [\<lparr>cqe_user_data = fst (k_frame k), cqe_res = r, cqe_data = data\<rparr>] \<and> P r data (snd (k_run k st1 file)))"
  proof (intro allI impI)
    fix st1
    assume "cq_wf st1" "cq_head st1 = cq_tail st1" "sq_pending st1 = [e\<lparr>user_data := fst (k_frame k)\<rparr>]"
    note st1 = this
    from dr [unfolded documented_read_def, rule_format, OF st1, of "length buffer" "file"]
      fr [OF st1] ns [OF st1]
    show "\<exists>r data. kernel_posted st1 (fst (k_run k st1 file))
        [\<lparr>cqe_user_data = fst (k_frame k), cqe_res = r, cqe_data = data\<rparr>] \<and> P r data (snd (k_run k st1 file))"
      by (fastforce simp: e_def P_def kernel_posted_def)
  qed
  have ok: "sint r < 0 \<or> 0 \<le> sint r" for r :: u32 by auto
  note single = await_single_idle [where e = e and P = P and se = "''io_uring readv submit failed''" and
      oe = "''io_uring readv failed''", OF \<open>idle st\<close> a law]
  have R: "(res, ex, file') = (let (res, ex, file) = await_single k (Some st) file e
      ''io_uring readv submit failed'' ''io_uring readv failed''
    in (map_option (map_sum id (\<lambda>(n, data). (nat (sint n), overwrite buffer 0 data))) res, ex, file))"
    using assms(3) by (simp add: ReadAt_def e_def)
  consider (failed) "\<not> enter_accepts k" "res = Some (Inl (IoError ''io_uring readv submit failed''))"
      "file' = file"
    | (finished) st' r data where "idle st'" "P r data file'" "ex = Some st'"
      "res = Some (map_sum id (\<lambda>r. (nat (sint r), overwrite buffer 0 data))
         (single_await_resume k ''io_uring readv submit failed'' ''io_uring readv failed'' False r))"
    using single R by (elim disjE exE conjE) (simp_all add: map_sum.compositionality comp_def id_def)
  note outcome = this
  show "res \<noteq> None" "unchanged file file'" "enter_accepts k \<Longrightarrow> \<exists>st'. ex = Some st' \<and> idle st'"
    by (cases rule: outcome; simp add: P_def unchanged_def)+
  show "n < 2 ^ 31 \<and> n \<le> length buffer \<and> n \<le> length (content file) \<and>
       take n buf = take n (content file) \<and> n \<le> length buf \<and> (\<exists>st'. ex = Some st' \<and> idle st')" if "res = Some (Inr (n, buf))"
  proof (cases rule: outcome)
    case failed
    then show ?thesis using that by simp
  next
    case finished
    then have "n = nat (sint r)" "buf = overwrite buffer 0 data" "0 \<le> sint r"
      using that by (auto simp: single_await_resume_def split: if_splits)
    then show ?thesis
      using finished nat_sint_u32_less [of r] by (auto simp: P_def overwrite_def)
  qed
  show "\<exists>buf. res = Some (Inr (m, buf))" if "enter_accepts k" "reads_exactly k file (length buffer) m"
    using that by (cases rule: outcome) (simp_all add: P_def single_await_resume_def)
  show "n = length (content file)"
    if "res = Some (Inr (n, buf))" "never_short k" "length (content file) \<le> length buffer" "length (content file) \<le> max_rw_count"
  proof (cases rule: outcome)
    case failed
    then show ?thesis using that by simp
  next
    case finished
    then have "n = nat (sint r)" "0 \<le> sint r" using that(1) by (auto simp: single_await_resume_def split: if_splits)
    then show ?thesis using finished(2) that(2-4) by (simp add: P_def)
  qed
  show "\<not> ok s" if "res = Some (Inl s)"
    using that by (cases rule: outcome) (auto simp: single_await_resume_def split: if_splits)
qed

lemma status_of_map_sum:
  "(case map_sum id f r of Inl s \<Rightarrow> s | Inr _ \<Rightarrow> c) = (case r of Inl s \<Rightarrow> s | Inr _ \<Rightarrow> c)"
  by (cases r) simp_all

lemma FDataSync_idle:
  assumes k: "kernel_documented k" and "idle st"
    and "FDataSync k (Some st) file fd = (res, ex, file')"
  shows "\<exists>s. res = Some s \<and>
           (ok s \<longrightarrow> stable file' = content file \<and> (\<exists>st'. ex = Some st' \<and> idle st'))"
    and "unchanged file file'" and "enter_accepts k \<Longrightarrow> \<exists>st'. ex = Some st' \<and> idle st'"
proof -
  define e where "e = sqe_zero\<lparr>opcode := IORING_OP_FSYNC, sqe_fd := fd, sqe_datasync := True\<rparr>"
  define P where "P r data file' \<longleftrightarrow> unchanged file file' \<and> (0 \<le> sint r \<longrightarrow> stable file' = content file)"
    for r :: u32 and data :: bytes and file' :: wal_file
  have a: "fst (k_frame k) \<noteq> 0" and ds: "documented_sync k" using k by (simp_all add: kernel_documented_def)
  have law: "\<forall>st1. cq_wf st1 \<longrightarrow> cq_head st1 = cq_tail st1 \<longrightarrow>
      sq_pending st1 = [e\<lparr>user_data := fst (k_frame k)\<rparr>] \<longrightarrow>
      (\<exists>r data. kernel_posted st1 (fst (k_run k st1 file))
        [\<lparr>cqe_user_data = fst (k_frame k), cqe_res = r, cqe_data = data\<rparr>] \<and> P r data (snd (k_run k st1 file)))"
  proof (intro allI impI)
    fix st1
    assume "cq_wf st1" "cq_head st1 = cq_tail st1" "sq_pending st1 = [e\<lparr>user_data := fst (k_frame k)\<rparr>]"
    from ds [unfolded documented_sync_def, rule_format, OF this, of "file"]
    show "\<exists>r data. kernel_posted st1 (fst (k_run k st1 file))
        [\<lparr>cqe_user_data = fst (k_frame k), cqe_res = r, cqe_data = data\<rparr>] \<and> P r data (snd (k_run k st1 file))"
      by (auto simp: e_def P_def)
  qed
  note single = await_single_idle [where e = e and P = P and se = "''io_uring fdatasync submit failed''" and
      oe = "''io_uring fdatasync failed''", OF \<open>idle st\<close> a law]
  have R: "(res, ex, file') = (let (res, ex, file) = await_single k (Some st) file e
      ''io_uring fdatasync submit failed'' ''io_uring fdatasync failed''
    in (map_option (\<lambda>res. case res of Inl s \<Rightarrow> s | Inr _ \<Rightarrow> Ok) res, ex, file))"
    using assms(3) by (simp add: FDataSync_def e_def)
  consider (failed) "\<not> enter_accepts k" "res = Some (IoError ''io_uring fdatasync submit failed'')"
      "file' = file"
    | (finished) st' r data where "idle st'" "P r data file'" "ex = Some st'"
      "res = Some (case single_await_resume k ''io_uring fdatasync submit failed'' ''io_uring fdatasync failed'' False r of
         Inl s \<Rightarrow> s | Inr _ \<Rightarrow> Ok)"
    using single R by (elim disjE exE conjE) (simp_all add: status_of_map_sum)
  note outcome = this
  show "\<exists>s. res = Some s \<and> (ok s \<longrightarrow> stable file' = content file \<and> (\<exists>st'. ex = Some st' \<and> idle st'))"
    by (cases rule: outcome) (auto simp: P_def single_await_resume_def)
  show "unchanged file file'" "enter_accepts k \<Longrightarrow> \<exists>st'. ex = Some st' \<and> idle st'"
    by (cases rule: outcome; simp add: P_def unchanged_def)+
qed

end
