(* ===== verification/Uring_Kernel.thy ===== *)
theory Uring_Kernel
  imports Uring_Completion
begin

text \<open>
  An instance of the kernel contract: a kernel that runs the queued entries one after the other,
  writes at most \<open>0x7ffff000\<close> bytes at once, reads at most \<open>cap\<close>, and fails only in the syncs of the files that
  \<open>bad\<close> selects. It shows that \<^const>\<open>kernel_documented\<close> and \<^const>\<open>enter_accepts\<close> can hold, also of a device
  that fails, and it is where the database is run on concrete inputs.
\<close>

unbundle bit_operations_syntax

definition execute :: "nat \<Rightarrow> bool \<Rightarrow> io_uring_sqe \<Rightarrow> wal_file \<Rightarrow> io_uring_cqe \<times> wal_file" where
  "execute cap eio e file =
     (case (opcode e, sqe_addr e) of
        (IORING_OP_WRITEV, Gather iovs) \<Rightarrow>
          let data = take max_rw_count (concat iovs)
          in (\<lparr>cqe_user_data = user_data e, cqe_res = of_nat (length data), cqe_data = []\<rparr>,
              file\<lparr>content := overwrite (content file) (unat (sqe_off e)) data\<rparr>)
      | (IORING_OP_READV, Scatter n) \<Rightarrow>
          let data = take (min n cap) (drop (unat (sqe_off e)) (content file))
          in (\<lparr>cqe_user_data = user_data e, cqe_res = of_nat (length data), cqe_data = data\<rparr>, file)
      | (IORING_OP_FSYNC, _) \<Rightarrow>
          if eio then (\<lparr>cqe_user_data = user_data e, cqe_res = -5, cqe_data = []\<rparr>, file)
          else (\<lparr>cqe_user_data = user_data e, cqe_res = 0, cqe_data = []\<rparr>, file\<lparr>stable := content file\<rparr>)
      | _ \<Rightarrow> (\<lparr>cqe_user_data = user_data e, cqe_res = 0, cqe_data = []\<rparr>, file))"

definition post_cqe :: "State \<Rightarrow> io_uring_cqe \<Rightarrow> State" where
  "post_cqe st c = st\<lparr>cqes := (cqes st)[unat (cq_tail st AND cq_ringMask st) := c], cq_tail := cq_tail st + 1\<rparr>"

definition reference_run :: "nat \<Rightarrow> bool \<Rightarrow> State \<Rightarrow> wal_file \<Rightarrow> State \<times> wal_file" where
  "reference_run cap eio st file =
     (let (st', file') = foldl (\<lambda>(st, file) e. let (c, file) = execute cap eio e file in (post_cqe st c, file))
                           (st, file) (sq_pending st)
      in (st'\<lparr>sq_head := sq_tail st'\<rparr>, file'))"

definition faulty_kernel :: "nat \<Rightarrow> (wal_file \<Rightarrow> bool) \<Rightarrow> kernel" where
  "faulty_kernel cap bad = \<lparr>k_enter = \<lambda>_ n. (int n, []), k_wakeup = \<lambda>_. (0, []),
     k_run = \<lambda>st file. reference_run cap (bad file) st file,
     k_strerror = \<lambda>_. ''error'', k_frame = (64, 192)\<rparr>"

definition capped_kernel :: "nat \<Rightarrow> kernel" where
  "capped_kernel cap = faulty_kernel cap (\<lambda>_. False)"

definition reference_kernel :: kernel where
  "reference_kernel = capped_kernel max_rw_count"

lemma post_cqe_fields [simp]:
  "cq_head (post_cqe st c) = cq_head st" "cq_ringMask (post_cqe st c) = cq_ringMask st"
  "cq_tail (post_cqe st c) = cq_tail st + 1"
  "length (cqes (post_cqe st c)) = length (cqes st)" "sq_tail (post_cqe st c) = sq_tail st"
  "cq_wf (post_cqe st c) = cq_wf st"
  by (simp_all add: post_cqe_def cq_wf_def)

lemma cq_pending_post:
  assumes wf: "cq_wf st" and room: "length (cq_pending st) < length (cqes st)"
  shows "cq_pending (post_cqe st c) = cq_pending st @ [c]"
proof -
  obtain n where n: "n \<le> 15" "cq_ringMask st = 2 ^ n - 1" "length (cqes st) = 2 ^ n"
    using wf by (auto simp: cq_wf_def)
  define h where "h = cq_head st"
  define d where "d = unat (cq_tail st - h)"
  define slot where "slot i = unat ((h + of_nat i) AND (2 ^ n - 1))" for i
  have pow: "(2 :: nat) ^ n \<le> 2 ^ 15" using n(1) by (intro power_increasing) auto
  have dN: "d < 2 ^ n" using room n(3) by (simp add: d_def h_def)
  have slotu: "slot i = (unat h + i) mod 2 ^ n" for i
    unfolding slot_def by (rule ring_index [OF n(1)])
  have other: "slot d \<noteq> slot i" if "i < d" for i
    using slot_distinct [OF that dN] by (simp add: slotu eq_commute)
  have small: "slot d < 2 ^ n" by (simp add: slotu)
  have tail: "unat (cq_tail st AND cq_ringMask st) = slot d" by (simp add: slot_def n(2) d_def)
  have dist: "unat (cq_tail st + 1 - h) = Suc d"
    unfolding d_def using dN pow by (intro u32_distance_Suc) (simp add: d_def)
  have pend: "cq_pending st = map (\<lambda>i. cqes st ! slot i) [0..<d]"
    by (simp add: cq_pending_def slot_def n(2) h_def d_def)
  have "cq_pending (post_cqe st c) = map (\<lambda>i. (cqes st)[slot d := c] ! slot i) [0..<Suc d]"
    unfolding cq_pending_def post_cqe_fields tail [symmetric]
    using dist by (simp add: post_cqe_def slot_def n(2) h_def)
  also have "\<dots> = cq_pending st @ [c]"
    using n(3) small by (auto simp: pend other)
  finally show ?thesis .
qed

lemma sint_of_nat_u32: "n < 2 ^ 31 \<Longrightarrow> sint (of_nat n :: u32) = int n"
  by (simp add: signed_of_nat signed_take_bit_int_eq_self)

lemma length_take_max: "length (take max_rw_count xs) < 2 ^ 31"
  by (simp add: max_rw_count_def)

lemma cq_pending_posted:
  assumes "cq_wf st" "cq_head st = cq_tail st"
  shows "cq_pending ((post_cqe st c)\<lparr>sq_head := s\<rparr>) = [c]"
    and "cq_pending ((post_cqe (post_cqe st c) c')\<lparr>sq_head := s\<rparr>) = [c, c']"
proof -
  have empty: "cq_pending st = []" using assms(2) by (simp add: cq_pending_empty_iff)
  obtain n where "n \<ge> 1" "length (cqes st) = 2 ^ n" using assms(1) by (auto simp: cq_wf_def)
  moreover from this have "(2 :: nat) ^ 1 \<le> 2 ^ n" by (intro power_increasing) auto
  ultimately have two: "2 \<le> length (cqes st)" by simp
  have sq: "cq_pending (st\<lparr>sq_head := s\<rparr>) = cq_pending st" for st by (simp add: cq_pending_def)
  have one: "cq_pending (post_cqe st c) = [c]"
    using cq_pending_post [OF assms(1), of c] empty two assms(2) by fastforce
  then show "cq_pending ((post_cqe st c)\<lparr>sq_head := s\<rparr>) = [c]" by (simp add: sq)
  have "length (cq_pending (post_cqe st c)) < length (cqes (post_cqe st c))"
    unfolding one using two by simp
  then show "cq_pending ((post_cqe (post_cqe st c) c')\<lparr>sq_head := s\<rparr>) = [c, c']"
    using cq_pending_post [of "post_cqe st c" c'] assms(1) one by (simp add: sq)
qed

lemma reference_write: "documented_write (faulty_kernel cap bad)"
  unfolding documented_write_def
proof (intro allI impI)
  fix st and f :: wal_file and w s iovs
  assume a: "cq_wf st" "cq_head st = cq_tail st" "sq_pending st = [w, s]" "opcode w = IORING_OP_WRITEV"
    "sqe_addr w = Gather iovs" "unat (sqe_off w) \<le> length (content f)" "opcode s = IORING_OP_FSYNC"
  let ?d = "take max_rw_count (concat iovs)"
  let ?cs = "[\<lparr>cqe_user_data = user_data w, cqe_res = of_nat (length ?d), cqe_data = []\<rparr>,
              \<lparr>cqe_user_data = user_data s, cqe_res = if bad f then -5 else 0, cqe_data = []\<rparr>]"
  have run: "k_run (faulty_kernel cap bad) st f =
      ((post_cqe (post_cqe st (?cs ! 0)) (?cs ! 1))\<lparr>sq_head := sq_tail st\<rparr>,
       \<lparr>content = overwrite (content f) (unat (sqe_off w)) ?d,
        stable = if bad f then stable f else overwrite (content f) (unat (sqe_off w)) ?d\<rparr>)"
    using a by (simp add: faulty_kernel_def reference_run_def execute_def Let_def)
  have "kernel_posted st (fst (k_run (faulty_kernel cap bad) st f)) ?cs"
    unfolding run kernel_posted_def using cq_pending_posted(2) [OF a(1,2)]
    by (simp add: post_cqe_def)
  moreover have "write_effect f (snd (k_run (faulty_kernel cap bad) st f)) (unat (sqe_off w)) (concat iovs)
      (of_nat (length ?d))"
    unfolding run write_effect_def using a(6) sint_of_nat_u32 [OF length_take_max, of "concat iovs"]
    by (simp add: min_def split: if_splits)
  moreover have synced: "stable (snd (k_run (faulty_kernel cap bad) st f)) = content (snd (k_run (faulty_kernel cap bad) st f))"
    if "0 \<le> sint (if bad f then -5 else 0 :: u32)"
    using that by (cases "bad f") (simp_all add: run)
  ultimately show "\<exists>r1 r2. kernel_posted st (fst (k_run (faulty_kernel cap bad) st f))
        [\<lparr>cqe_user_data = user_data w, cqe_res = r1, cqe_data = []\<rparr>,
         \<lparr>cqe_user_data = user_data s, cqe_res = r2, cqe_data = []\<rparr>] \<and>
      write_effect f (snd (k_run (faulty_kernel cap bad) st f)) (unat (sqe_off w)) (concat iovs) r1 \<and>
      (0 \<le> sint r2 \<longrightarrow>
         stable (snd (k_run (faulty_kernel cap bad) st f)) = content (snd (k_run (faulty_kernel cap bad) st f)))"
    by (intro exI [of _ "of_nat (length ?d)"] exI [of _ "if bad f then -5 else 0"] conjI impI)
       (simp_all only: nth_Cons_0 synced)
qed

lemma reference_read:
  assumes "cap \<le> max_rw_count"
  shows "documented_read (faulty_kernel cap bad)"
  unfolding documented_read_def
proof (intro allI impI)
  fix st and f :: wal_file and e n
  assume a: "cq_wf st" "cq_head st = cq_tail st" "sq_pending st = [e]" "opcode e = IORING_OP_READV"
    "sqe_addr e = Scatter n"
  let ?d = "take (min n cap) (drop (unat (sqe_off e)) (content f))"
  let ?c = "\<lparr>cqe_user_data = user_data e, cqe_res = of_nat (length ?d), cqe_data = ?d\<rparr>"
  have run: "k_run (faulty_kernel cap bad) st f = ((post_cqe st ?c)\<lparr>sq_head := sq_tail st\<rparr>, f)"
    using a by (simp add: faulty_kernel_def reference_run_def execute_def Let_def)
  have len: "length ?d < 2 ^ 31" using assms by (simp add: max_rw_count_def)
  have "kernel_posted st (fst (k_run (faulty_kernel cap bad) st f)) [?c]"
    unfolding run kernel_posted_def using cq_pending_posted(1) [OF a(1,2)] by (simp add: post_cqe_def)
  moreover have "unchanged f (snd (k_run (faulty_kernel cap bad) st f))" by (simp add: run unchanged_def)
  moreover have "nat (sint (of_nat (length ?d) :: u32)) = length ?d"
    using sint_of_nat_u32 [OF len] by simp
  moreover have "length ?d \<le> n" "length ?d \<le> length (content f) - unat (sqe_off e)"
    "?d = take (length ?d) (drop (unat (sqe_off e)) (content f))"
    by (simp_all add: min_def)
  ultimately show "\<exists>r data. kernel_posted st (fst (k_run (faulty_kernel cap bad) st f))
        [\<lparr>cqe_user_data = user_data e, cqe_res = r, cqe_data = data\<rparr>] \<and>
      unchanged f (snd (k_run (faulty_kernel cap bad) st f)) \<and>
      (0 \<le> sint r \<longrightarrow> nat (sint r) \<le> n \<and> nat (sint r) \<le> length (content f) - unat (sqe_off e) \<and>
         data = take (nat (sint r)) (drop (unat (sqe_off e)) (content f)))"
    by metis
qed

lemma reference_sync: "documented_sync (faulty_kernel cap bad)"
  unfolding documented_sync_def
proof (intro allI impI)
  fix st and f :: wal_file and e
  assume a: "cq_wf st" "cq_head st = cq_tail st" "sq_pending st = [e]" "opcode e = IORING_OP_FSYNC"
  let ?c = "\<lparr>cqe_user_data = user_data e, cqe_res = if bad f then -5 else 0, cqe_data = []\<rparr>"
  have run: "k_run (faulty_kernel cap bad) st f =
      ((post_cqe st ?c)\<lparr>sq_head := sq_tail st\<rparr>, if bad f then f else f\<lparr>stable := content f\<rparr>)"
    using a by (simp add: faulty_kernel_def reference_run_def execute_def Let_def)
  have "kernel_posted st (fst (k_run (faulty_kernel cap bad) st f)) [?c]"
    unfolding run kernel_posted_def using cq_pending_posted(1) [OF a(1,2)] by (simp add: post_cqe_def)
  moreover have "unchanged f (snd (k_run (faulty_kernel cap bad) st f))"
    "0 \<le> sint (cqe_res ?c) \<longrightarrow> stable (snd (k_run (faulty_kernel cap bad) st f)) = content f"
    by (simp_all add: run unchanged_def)
  ultimately show "\<exists>r. kernel_posted st (fst (k_run (faulty_kernel cap bad) st f))
        [\<lparr>cqe_user_data = user_data e, cqe_res = r, cqe_data = []\<rparr>] \<and>
      unchanged f (snd (k_run (faulty_kernel cap bad) st f)) \<and>
      (0 \<le> sint r \<longrightarrow> stable (snd (k_run (faulty_kernel cap bad) st f)) = content f)"
    by (intro exI [of _ "if bad f then -5 else 0"]) simp
qed

lemma faulty_reads:
  assumes "cap \<le> max_rw_count" and "length (content f) \<le> n"
  shows "reads_exactly (faulty_kernel cap bad) f n (min (length (content f)) cap)"
  unfolding reads_exactly_def
proof (intro allI impI)
  fix st e r data
  assume a: "cq_wf st" "cq_head st = cq_tail st" "sq_pending st = [e]" "opcode e = IORING_OP_READV"
    "sqe_addr e = Scatter n" "sqe_off e = 0"
    and posted: "cq_pending (fst (k_run (faulty_kernel cap bad) st f)) =
      [\<lparr>cqe_user_data = user_data e, cqe_res = r, cqe_data = data\<rparr>]"
  let ?c = "\<lparr>cqe_user_data = user_data e, cqe_res = of_nat (min (length (content f)) cap),
     cqe_data = take (min n cap) (content f)\<rparr>"
  have "min (length (content f)) (min n cap) = min (length (content f)) cap" using assms(2) by simp
  then have "fst (k_run (faulty_kernel cap bad) st f) = (post_cqe st ?c)\<lparr>sq_head := sq_tail st\<rparr>"
    using a by (simp add: faulty_kernel_def reference_run_def execute_def Let_def)
  then have "r = of_nat (min (length (content f)) cap)"
    using posted cq_pending_posted(1) [OF a(1,2), where c = ?c and s = "sq_tail st"] by auto
  then show "sint r = int (min (length (content f)) cap)"
    using assms(1) sint_of_nat_u32 [of "min (length (content f)) cap"] by (simp add: max_rw_count_def)
qed

lemma reference_full_reads [simp]: "full_reads reference_kernel"
  unfolding full_reads_def reference_kernel_def
proof (intro allI impI)
  fix f :: wal_file and n
  assume "length (content f) \<le> n" "length (content f) \<le> max_rw_count"
  then show "reads_exactly (capped_kernel max_rw_count) f n (length (content f))"
    using faulty_reads [of max_rw_count f n] by (simp add: capped_kernel_def min_absorb1)
qed

lemma faulty_full_reads [simp]: "full_reads (faulty_kernel max_rw_count bad)"
  using faulty_reads [of max_rw_count _ _ bad] by (auto simp: full_reads_def) (metis min.absorb1)

lemma faulty_whole_write: "whole_write (faulty_kernel cap bad) f (\<lambda>r. if bad f then r < 0 else 0 \<le> r)"
  unfolding whole_write_def
proof (intro allI impI)
  fix st w s iovs r1 r2
  assume a: "cq_wf st" "cq_head st = cq_tail st" "sq_pending st = [w, s]" "opcode w = IORING_OP_WRITEV"
    "sqe_addr w = Gather iovs" "length (concat iovs) \<le> max_rw_count" "opcode s = IORING_OP_FSYNC"
    and posted: "cq_pending (fst (k_run (faulty_kernel cap bad) st f)) =
      [\<lparr>cqe_user_data = user_data w, cqe_res = r1, cqe_data = []\<rparr>,
       \<lparr>cqe_user_data = user_data s, cqe_res = r2, cqe_data = []\<rparr>]"
  let ?c = "\<lparr>cqe_user_data = user_data w, cqe_res = of_nat (length (concat iovs)), cqe_data = []\<rparr>"
  let ?d = "\<lparr>cqe_user_data = user_data s, cqe_res = if bad f then -5 else 0, cqe_data = []\<rparr>"
  have "fst (k_run (faulty_kernel cap bad) st f) = (post_cqe (post_cqe st ?c) ?d)\<lparr>sq_head := sq_tail st\<rparr>"
    using a by (simp add: faulty_kernel_def reference_run_def execute_def Let_def del: length_concat)
  then have "r1 = of_nat (length (concat iovs))" "r2 = (if bad f then -5 else 0)"
    using posted cq_pending_posted(2) [OF a(1,2), where c = ?c and c' = ?d and s = "sq_tail st"] by auto
  then show "sint r1 = int (length (concat iovs)) \<and> (if bad f then sint r2 < 0 else 0 \<le> sint r2)"
    using a(6) sint_of_nat_u32 [of "length (concat iovs)"] by (simp add: max_rw_count_def del: length_concat)
qed

lemma faulty_sync:
  "bad f \<Longrightarrow> sync_fails (faulty_kernel cap bad) f" "\<not> bad f \<Longrightarrow> sync_succeeds (faulty_kernel cap bad) f"
  using faulty_whole_write [of cap bad f] by (simp_all add: sync_fails_def sync_succeeds_def)

lemma reference_full_writes [simp]: "full_writes reference_kernel"
  unfolding full_writes_def reference_kernel_def capped_kernel_def by (intro allI faulty_sync(2)) simp

lemma faulty_kernel_documented: "cap \<le> max_rw_count \<Longrightarrow> kernel_documented (faulty_kernel cap bad)"
  using reference_write reference_read reference_sync
  by (simp add: kernel_documented_def) (simp add: faulty_kernel_def)

lemma faulty_kernel_accepts [simp]: "enter_accepts (faulty_kernel cap bad)"
  by (simp add: enter_accepts_def faulty_kernel_def)

lemma capped_kernel_documented: "cap \<le> max_rw_count \<Longrightarrow> kernel_documented (capped_kernel cap)"
  unfolding capped_kernel_def by (rule faulty_kernel_documented)

lemma reference_kernel_documented [simp]: "kernel_documented reference_kernel"
  unfolding reference_kernel_def by (rule capped_kernel_documented) simp

lemma capped_kernel_accepts [simp]: "enter_accepts (capped_kernel cap)"
  by (simp add: capped_kernel_def)

lemma reference_kernel_accepts [simp]: "enter_accepts reference_kernel"
  by (simp add: reference_kernel_def)

text \<open>A freshly set up executor with rings of two entries.\<close>

definition fresh_ring :: State where
  "fresh_ring = \<lparr>ringFd = 5, sq_head = 0, sq_tail = 0, sq_ringMask = 1, sq_ringEntries = 2,
     sq_flags = 0, sq_array = [0, 0], sqes = [sqe_zero, sqe_zero], cq_head = 0, cq_tail = 0,
     cq_ringMask = 1, cq_ringEntries = 2,
     cqes = replicate 2 \<lparr>cqe_user_data = 0, cqe_res = 0, cqe_data = []\<rparr>,
     sqRingPtr = 4096, cqRingPtr = 4096, sqesPtr = 8192, sqRingSize = 4096, cqRingSize = 4096, sqesSize = 4096,
     singleMmap = True, completionThread = True, stopping = False, completionLoopCompletions = 0,
     sqPollEnabled = False\<rparr>"

lemma fresh_ring_simps [simp]:
  "sq_head fresh_ring = 0" "sq_tail fresh_ring = 0" "sq_ringEntries fresh_ring = 2" "ringFd fresh_ring = 5"
  "cq_head fresh_ring = 0" "cq_tail fresh_ring = 0" "length (cqes fresh_ring) = 2" "sqPollEnabled fresh_ring = False"
  by (simp_all add: fresh_ring_def)

lemma idle_fresh_ring [simp]: "idle fresh_ring"
proof -
  have "\<exists>n \<le> (15 :: nat). (2 :: u32) = 2 ^ n" by (intro exI [of _ 1]) simp
  moreover have "\<exists>n \<in> {1..15 :: nat}. (1 :: u32) = 2 ^ n - 1 \<and> (2 :: nat) = 2 ^ n" by (intro bexI [of _ 1]) simp_all
  ultimately show ?thesis by (simp add: idle_def sq_wf_def cq_wf_def fresh_ring_def)
qed

end
