(* ===== verification/Wal_Device.thy ===== *)
theory Wal_Device
  imports Uring_Kernel
begin

text \<open>
  The contract between the write path and its device: a gathered write at an offset followed by a
  sync. A record that is appended behind an intact log either becomes durable as a whole or
  the log stays intact; a device that keeps accepting work stays ready after a failure. The executor
  on every kernel that behaves as documented provides the contract.
\<close>

definition intact :: "bytes \<Rightarrow> wal_file \<Rightarrow> bool" where
  "intact log f \<longleftrightarrow> prefix log (content f) \<and> prefix log (stable f)"

lemma intactD:
  assumes "intact log f"
  shows "length log \<le> length (content f)" "take (length log) (content f) = log" "take (length log) (stable f) = log"
  using assms by (auto simp: intact_def prefix_def)

lemma intactI: "take (length log) (content f) = log \<Longrightarrow> take (length log) (stable f) = log \<Longrightarrow> intact log f"
  unfolding intact_def by (metis take_is_prefix)

locale wal_device =
  fixes write_sync :: "'e \<Rightarrow> wal_file \<Rightarrow> bytes list \<Rightarrow> u64 \<Rightarrow> nat \<Rightarrow> Status option \<times> 'e \<times> wal_file"
    and ready :: "'e \<Rightarrow> bool"
  assumes write_returns:
    "ready e \<Longrightarrow> length iovs \<le> 1024 \<Longrightarrow> unat off \<le> length (content f) \<Longrightarrow>
     write_sync e f iovs off n = (res, e', f') \<Longrightarrow> \<exists>s. res = Some s"
    and write_durable:
    "ready e \<Longrightarrow> length iovs \<le> 1024 \<Longrightarrow> unat off \<le> length (content f) \<Longrightarrow>
     write_sync e f iovs off n = (Some s, e', f') \<Longrightarrow> ok s \<Longrightarrow>
     n < 2 ^ 31 \<and> n \<le> length (concat iovs) \<and>
     content f' = overwrite (content f) (unat off) (take n (concat iovs)) \<and> stable f' = content f' \<and> ready e'"
    and write_keeps:
    "ready e \<Longrightarrow> length iovs \<le> 1024 \<Longrightarrow> unat off \<le> length (content f) \<Longrightarrow>
     write_sync e f iovs off n = (res, e', f') \<Longrightarrow>
     take (unat off) (stable f) = take (unat off) (content f) \<Longrightarrow>
     take (unat off) (content f') = take (unat off) (content f) \<and>
     take (unat off) (stable f') = take (unat off) (content f)"
begin

lemma append_record:
  assumes "ready e" and "length iovs \<le> 1024" and "intact log f" and "length log < 2 ^ 64"
    and run: "write_sync e f iovs (of_nat (length log)) (length (concat iovs)) = (res, e', f')"
  shows "\<exists>s. res = Some s \<and> intact log f' \<and>
    (ok s \<longrightarrow> intact (log @ concat iovs) f' \<and> stable f' = content f' \<and> length (concat iovs) < 2 ^ 31 \<and> ready e' \<and>
       content f' = log @ concat iovs @ drop (length (log @ concat iovs)) (content f))"
proof -
  have off: "unat (of_nat (length log) :: u64) = length log" using assms(4) by simp
  note pre = intactD [OF assms(3)]
  have bound: "unat (of_nat (length log) :: u64) \<le> length (content f)" using pre(1) off by simp
  obtain s where s: "res = Some s" using write_returns [OF assms(1,2) bound run] by blast
  have "intact log f'"
    using write_keeps [OF assms(1,2) bound run] pre off by (auto intro: intactI)
  moreover have "intact (log @ concat iovs) f' \<and> stable f' = content f' \<and> length (concat iovs) < 2 ^ 31 \<and> ready e' \<and>
       content f' = log @ concat iovs @ drop (length (log @ concat iovs)) (content f)" if "ok s"
  proof -
    have d: "content f' = overwrite (content f) (length log) (concat iovs)"
      "stable f' = content f'" "length (concat iovs) < 2 ^ 31" "ready e'"
      using write_durable [OF assms(1,2) bound run [unfolded s] that] off by simp_all
    have "take (length (log @ concat iovs)) (content f') = log @ concat iovs"
      using overwrite_prefix [OF pre(1), of "concat iovs"] pre(2) by (simp add: d(1))
    moreover have "content f' = log @ concat iovs @ drop (length (log @ concat iovs)) (content f)"
      using d(1) pre by (simp add: overwrite_def)
    ultimately show ?thesis using d(2-4) by (auto intro: intactI simp del: length_concat)
  qed
  ultimately show ?thesis using s by blast
qed

end

locale steady_device = wal_device +
  assumes stays_ready:
    "ready e \<Longrightarrow> length iovs \<le> 1024 \<Longrightarrow> unat off \<le> length (content f) \<Longrightarrow>
     write_sync e f iovs off n = (res, e', f') \<Longrightarrow> ready e'"
begin

lemma append_ready:
  assumes "ready e" and "length iovs \<le> 1024" and "intact log f" and "length log < 2 ^ 64"
    and "write_sync e f iovs (of_nat (length log)) n = (res, e', f')"
  shows "ready e'"
  using stays_ready [OF assms(1,2) _ assms(5)] intactD(1) [OF assms(3)] assms(4) by simp

end

locale healthy_device = steady_device +
  assumes write_succeeds:
    "ready e \<Longrightarrow> length iovs \<le> 1024 \<Longrightarrow> unat off \<le> length (content f) \<Longrightarrow> length (concat iovs) \<le> max_rw_count \<Longrightarrow>
     fst (write_sync e f iovs off (length (concat iovs))) = Some Ok"
begin

lemma append_succeeds:
  assumes "ready e" and "length iovs \<le> 1024" and "intact log f" and "length log < 2 ^ 64"
    and "length (concat iovs) \<le> max_rw_count"
    and "write_sync e f iovs (of_nat (length log)) (length (concat iovs)) = (res, e', f')"
  shows "res = Some Ok"
  using write_succeeds [OF assms(1,2) _ assms(5), of "of_nat (length log)" f] intactD(1) [OF assms(3)] assms(4,6)
  by (simp del: length_concat)

end

definition executor_ready :: "State option \<Rightarrow> bool" where
  "executor_ready ex \<longleftrightarrow> (\<exists>st. ex = Some st \<and> idle st)"

lemma wal_device_uring:
  assumes "kernel_documented k"
  shows "wal_device (\<lambda>ex f. WritevAndFDataSync k ex f fd) executor_ready"
proof
  fix e :: "State option" and f :: wal_file and iovs :: "bytes list" and off :: u64 and n res e' f'
  assume a: "executor_ready e" "length iovs \<le> 1024" "unat off \<le> length (content f)"
    and run: "WritevAndFDataSync k e f fd iovs off n = (res, e', f')"
  obtain st where e: "e = Some st" "idle st" using a(1) by (auto simp: executor_ready_def)
  have r: "write_sync_result f (unat off) (concat iovs) n (res, e', f')"
    using WritevAndFDataSync_idle(1) [OF assms e(2) a(2,3), of n fd] run e(1) by simp
  show "\<exists>s. res = Some s" using r by (auto simp: write_sync_result_def)
  show "take (unat off) (content f') = take (unat off) (content f) \<and>
     take (unat off) (stable f') = take (unat off) (content f)"
    if "take (unat off) (stable f) = take (unat off) (content f)"
    using r that by (simp add: write_sync_result_def)
next
  fix e :: "State option" and f :: wal_file and iovs :: "bytes list" and off :: u64 and n s e' f'
  assume a: "executor_ready e" "length iovs \<le> 1024" "unat off \<le> length (content f)"
    and run: "WritevAndFDataSync k e f fd iovs off n = (Some s, e', f')" and "ok s"
  obtain st where e: "e = Some st" "idle st" using a(1) by (auto simp: executor_ready_def)
  have "write_sync_result f (unat off) (concat iovs) n (Some s, e', f')"
    using WritevAndFDataSync_idle(1) [OF assms e(2) a(2,3), of n fd] run e(1) by simp
  then show "n < 2 ^ 31 \<and> n \<le> length (concat iovs) \<and>
     content f' = overwrite (content f) (unat off) (take n (concat iovs)) \<and> stable f' = content f' \<and> executor_ready e'"
    using \<open>ok s\<close> by (simp add: write_sync_result_def executor_ready_def)
qed

lemma steady_device_uring:
  assumes "kernel_documented k" and "enter_accepts k"
  shows "steady_device (\<lambda>ex f. WritevAndFDataSync k ex f fd) executor_ready"
proof (intro steady_device.intro wal_device_uring steady_device_axioms.intro assms)
  fix e :: "State option" and f :: wal_file and iovs :: "bytes list" and off :: u64 and n res e' f'
  assume a: "executor_ready e" "length iovs \<le> 1024" "unat off \<le> length (content f)"
    and run: "WritevAndFDataSync k e f fd iovs off n = (res, e', f')"
  obtain st where e: "e = Some st" "idle st" using a(1) by (auto simp: executor_ready_def)
  show "executor_ready e'"
    using WritevAndFDataSync_idle(2) [OF assms(1) e(2) a(2,3) assms(2), of fd n] run e(1)
    by (simp add: executor_ready_def)
qed

lemma healthy_device_uring:
  assumes "kernel_documented k" and "enter_accepts k" and "full_writes k"
  shows "healthy_device (\<lambda>ex f. WritevAndFDataSync k ex f fd) executor_ready"
proof (intro healthy_device.intro steady_device_uring healthy_device_axioms.intro assms)
  fix e :: "State option" and f :: wal_file and iovs :: "bytes list" and off :: u64
  assume a: "executor_ready e" "length iovs \<le> 1024" "unat off \<le> length (content f)"
    and small: "length (concat iovs) \<le> max_rw_count"
  obtain st where e: "e = Some st" "idle st" using a(1) by (auto simp: executor_ready_def)
  show "fst (WritevAndFDataSync k e f fd iovs off (length (concat iovs))) = Some Ok"
    unfolding e(1) by (rule WritevAndFDataSync_idle(3) [OF assms(1) e(2) a(2,3) assms(2) _ refl small])
       (use assms(3) in \<open>simp add: full_writes_def\<close>)
qed

interpretation uring: healthy_device "\<lambda>ex f. WritevAndFDataSync reference_kernel ex f fd" executor_ready
  for fd :: int
  by (rule healthy_device_uring) simp_all

end
