(* ===== verification/Device_Properties.thy ===== *)
theory Device_Properties
  imports Wal_Device
begin

text \<open>
  What the executor promises over its rings: submission is a bounded queue, linked pairs go in together, every
  completion is handed to its frame once and in order, and the linked write and sync is durable when it reports
  success; and what a failed submission leaves behind.
\<close>

unbundle bit_operations_syntax

section \<open>Submission\<close>

text \<open>
  C25: submitting one entry appends it to the queue the kernel reads, with the address of its operation; on a full
  ring nothing changes and an I/O error is returned. The ring invariant is kept, also when the 32-bit indices wrap around.
\<close>

theorem submit_appends_or_refuses:
  assumes "sq_wf st" and "submitRaw k st e a = (status, st')"
  shows "sq_wf st' \<and>
    (if length (sq_pending st) = unat (sq_ringEntries st)
     then status = IoError ''io_uring submission queue is full'' \<and> st' = st
     else sq_pending st' = sq_pending st @ [e\<lparr>user_data := a\<rparr>])"
proof (cases "length (sq_pending st) = unat (sq_ringEntries st)")
  case True
  then show ?thesis using submitRaw_full [OF assms(1) True, of k e a] assms by simp
next
  case False
  then have "length (sq_pending st) < unat (sq_ringEntries st)"
    using sq_wf_entries(2) [OF assms(1)] by simp
  from submitRaw_room [OF assms(1) this, of k e a] False assms(2) show ?thesis by simp
qed

lemma idle_sq_wf: "idle st \<Longrightarrow> sq_wf st"
  by (simp add: idle_def)

theorem submit_appends_or_refuses_witness:
  "sq_pending (snd (submitRaw reference_kernel fresh_ring sqe_zero 64)) = [sqe_zero\<lparr>user_data := 64\<rparr>]"
proof -
  obtain status st' where "submitRaw reference_kernel fresh_ring sqe_zero 64 = (status, st')" by fastforce
  from submit_appends_or_refuses [OF idle_sq_wf [OF idle_fresh_ring] this] this show ?thesis
    by (simp add: idle_pending)
qed

text \<open>
  C24: a linked pair is queued as two adjacent entries, the first one marked as linked, or not at all when fewer
  than two slots are free.
\<close>

theorem submit_linked_both_or_none:
  assumes "sq_wf st" and "0 \<le> ringFd st" and "submitLinked k (Some st) first second = (status, Some st')"
  shows "sq_wf st' \<and>
    (if length (sq_pending st) + 2 \<le> unat (sq_ringEntries st)
     then sq_pending st' = sq_pending st @
       [(op_sqe (snd first))\<lparr>sqe_link := True, user_data := fst first\<rparr>, (op_sqe (snd second))\<lparr>user_data := fst second\<rparr>]
     else status = IoError ''io_uring submission queue is full'' \<and> st' = st)"
  using assms(1,3) linked_state_push [OF assms(1), of first second]
  by (auto simp: submitLinked_cases [OF assms(1,2)] Let_def split: if_splits)

theorem submit_linked_both_or_none_witness:
  "map user_data (sq_pending (the (snd (submitLinked reference_kernel (Some fresh_ring)
      (64, \<lparr>op_sqe = sqe_zero, continuation = False, result = 0, op_data = []\<rparr>)
      (192, \<lparr>op_sqe = sqe_zero, continuation = True, result = 0, op_data = []\<rparr>))))) = [64, 192]"
proof -
  let ?a = "(64, \<lparr>op_sqe = sqe_zero, continuation = False, result = 0, op_data = []\<rparr>)"
    and ?b = "(192, \<lparr>op_sqe = sqe_zero, continuation = True, result = 0, op_data = []\<rparr>)"
  have fd: "0 \<le> ringFd fresh_ring" by (simp add: fresh_ring_def)
  obtain status st' where r: "submitLinked reference_kernel (Some fresh_ring) ?a ?b = (status, Some st')"
    using submitLinked_cases [OF idle_sq_wf [OF idle_fresh_ring] fd, of reference_kernel ?a ?b]
    by (metis old.prod.exhaust)
  from submit_linked_both_or_none [OF idle_sq_wf [OF idle_fresh_ring] fd r] r show ?thesis
    by (simp add: idle_pending)
qed

section \<open>Completion\<close>

text \<open>
  C23: the completion loop takes the completions from the ring one by one in order, wrapped around or not, exactly as the
  walk over the list of pending completions does; what it has not taken is still in the ring.
\<close>

theorem completion_loop_refines_list:
  "deliver (stopping st) (cq_pending st) ops resumed =
    (case drainCompletions st ops resumed of (e, st', ops', resumed') \<Rightarrow> (e, cq_pending st', ops', resumed'))"
proof -
  obtain e rest ops' resumed' where d: "deliver (stopping st) (cq_pending st) ops resumed = (e, rest, ops', resumed')"
    by (metis prod_cases4)
  from drain_deliver [OF refl d] obtain h n where
    "drainCompletions st ops resumed = (e, st\<lparr>cq_head := h, completionLoopCompletions := n\<rparr>, ops', resumed')"
    "cq_pending (st\<lparr>cq_head := h, completionLoopCompletions := n\<rparr>) = rest" by blast
  with d show ?thesis by simp
qed

text \<open>
  When every pending completion belongs to a frame that still waits, the loop empties the ring, resumes exactly the
  continuations registered with those operations, each once and in the order of completion, and never runs into a dangling address.
\<close>

lemma completions_reach_their_frames:
  assumes "\<forall>c \<in> set (cq_pending st). waiting ops c"
  shows "\<exists>st' ops'. drainCompletions st ops [] =
      (Drained, st', ops', map cqe_user_data (filter (resumes ops) (cq_pending st))) \<and> cq_pending st' = []"
proof -
  obtain ops' where "deliver (stopping st) (cq_pending st) ops [] =
      (Drained, [], ops', map cqe_user_data (filter (resumes ops) (cq_pending st)))"
    using deliver_waiting [OF assms, of "stopping st" "[]"] by auto
  from drain_deliver [OF refl this] show ?thesis by blast
qed

lemma cq_pending_sample:
  "cq_pending (post_cqe fresh_ring \<lparr>cqe_user_data = 64, cqe_res = 5, cqe_data = []\<rparr>) =
     [\<lparr>cqe_user_data = 64, cqe_res = 5, cqe_data = []\<rparr>]"
proof -
  have "cq_wf fresh_ring" "cq_pending fresh_ring = []" "length (cqes fresh_ring) = 2"
    using idle_fresh_ring by (simp_all add: idle_def cq_pending_empty_iff del: idle_fresh_ring)
  then show ?thesis using cq_pending_post [of fresh_ring] by (metis append_Nil list.size(3) zero_less_numeral)
qed

lemma completions_reach_their_frames_instance:
  "\<exists>st' ops'. drainCompletions (post_cqe fresh_ring \<lparr>cqe_user_data = 64, cqe_res = 5, cqe_data = []\<rparr>)
      [64 \<mapsto> \<lparr>op_sqe = sqe_zero, continuation = True, result = 0, op_data = []\<rparr>] [] = (Drained, st', ops', [64]) \<and>
    cq_pending st' = []"
  using completions_reach_their_frames [of "post_cqe fresh_ring \<lparr>cqe_user_data = 64, cqe_res = 5, cqe_data = []\<rparr>"
      "[64 \<mapsto> \<lparr>op_sqe = sqe_zero, continuation = True, result = 0, op_data = []\<rparr>]"]
  by (simp add: cq_pending_sample waiting_def resumes_def)

section \<open>The linked write and sync\<close>

text \<open>
  C10: on an idle executor, with a kernel that behaves as documented, \<open>WritevAndFDataSync\<close> always returns. If it returns
  success, all bytes are in the file at the offset and on the disk, fewer than two gigabytes of them, and the
  executor is idle again. Whatever it returns, the bytes before the offset are untouched.
\<close>

theorem write_and_sync_is_durable:
  assumes "kernel_documented k" and "idle st" and "length iovs \<le> 1024" and "unat off \<le> length (content f)"
    and "WritevAndFDataSync k (Some st) f fd iovs off (length (concat iovs)) = (res, ex, f')"
  shows "\<exists>s. res = Some s \<and>
    (ok s \<longrightarrow> content f' = overwrite (content f) (unat off) (concat iovs) \<and> stable f' = content f' \<and>
       length (concat iovs) < 2 ^ 31 \<and> (\<exists>st'. ex = Some st' \<and> idle st')) \<and>
    take (unat off) (content f') = take (unat off) (content f) \<and>
    (take (unat off) (stable f) = take (unat off) (content f) \<longrightarrow>
       take (unat off) (stable f') = take (unat off) (content f))"
  using WritevAndFDataSync_idle(1) [OF assms(1-4), of "length (concat iovs)" fd] assms(5)
  by (auto simp: write_sync_result_def simp del: length_concat)

theorem write_and_sync_is_durable_witness:
  "\<exists>s ex f'. WritevAndFDataSync reference_kernel (Some fresh_ring) \<lparr>content = [9], stable = [9]\<rparr> 3 [[1], [2, 3]] 1
       (length (concat [[1 :: byte], [2, 3]])) = (Some s, ex, f') \<and>
     take 1 (content f') = [9] \<and> take 1 (stable f') = [9]"
proof -
  obtain res ex f' where r: "WritevAndFDataSync reference_kernel (Some fresh_ring) \<lparr>content = [9], stable = [9]\<rparr> 3
      [[1], [2, 3]] 1 (length (concat [[1 :: byte], [2, 3]])) = (res, ex, f')"
    by (metis prod_cases3)
  have "length [[1 :: byte], [2, 3]] \<le> 1024"
    "unat (1 :: u64) \<le> length (content \<lparr>content = [9], stable = [9]\<rparr>)" by simp_all
  from write_and_sync_is_durable [OF reference_kernel_documented idle_fresh_ring this r] r show ?thesis
    by auto
qed

text \<open>
  \<open>ReadAt\<close> from the start of the file returns at most what the file and the buffer hold, the bytes it
  counts are the first bytes of the file, and the file is unchanged. It may be short.
\<close>

lemma read_returns_a_prefix:
  assumes "kernel_documented k" and "idle st"
    and "ReadAt k (Some st) f fd buffer 0 = (Some (Inr (n, buffer')), ex, f')"
  shows "n \<le> length buffer \<and> n \<le> length (content f) \<and> take n buffer' = take n (content f) \<and> content f' = content f"
  using ReadAt_idle(2) [OF assms] ReadAt_idle(4) [OF assms refl] by (simp add: unchanged_def)

lemma read_returns_a_prefix_instance:
  "\<exists>buffer' ex f'. ReadAt reference_kernel (Some fresh_ring) \<lparr>content = [4, 5], stable = [4, 5]\<rparr> 3 [0, 0, 0] 0 =
      (Some (Inr (2, buffer')), ex, f') \<and> take 2 buffer' = [4, 5]"
proof -
  let ?f = "\<lparr>content = [4, 5], stable = [4, 5]\<rparr>"
  obtain res ex f' where r: "ReadAt reference_kernel (Some fresh_ring) ?f 3 [0, 0, 0] 0 = (res, ex, f')"
    by (metis prod_cases3)
  have "\<exists>buf. res = Some (Inr (length (content ?f), buf))"
    using ReadAt_idle(5) [OF reference_kernel_documented idle_fresh_ring r, of "length (content ?f)"]
      reference_full_reads [unfolded full_reads_def, rule_format, of ?f "length [0, 0, 0 :: byte]"]
    by (simp add: max_rw_count_def)
  then obtain buf where buf: "res = Some (Inr (2, buf))" by auto
  from read_returns_a_prefix [OF reference_kernel_documented idle_fresh_ring r [unfolded buf]] r buf
  show ?thesis by auto
qed

section \<open>Failed submissions\<close>

text \<open>
  C34: when \<open>io_uring_enter\<close> fails, \<open>WritevAndFDataSync\<close> returns an I/O error, but both entries stay in the
  submission ring, with the addresses of operations in a frame that is about to be destroyed.
\<close>

theorem failed_enter_leaves_entries_queued:
  assumes "idle st" and "\<not> sqPollEnabled st" and "\<forall>st n. fst (k_enter k st n) < 0"
    and "WritevAndFDataSync k (Some st) f fd iovs off n = (res, ex, f')"
  shows "res = Some (IoError ''io_uring linked writev+fdatasync submit failed'') \<and> f' = f \<and>
    (\<exists>st'. ex = Some st' \<and> map user_data (sq_pending st') = [fst (k_frame k), snd (k_frame k)])"
proof -
  have wf: "sq_wf st" "0 \<le> ringFd st" and two: "2 \<le> unat (sq_ringEntries st)"
    using assms(1) by (auto simp: idle_def word_le_nat_alt)
  show ?thesis
    using assms two linked_state_push [OF wf(1)]
    by (auto simp: WritevAndFDataSync_def submitLinked_cases [OF wf] linked_await_resume_def Let_def
          case_prod_beta split: if_splits)
qed

definition failing_kernel :: kernel where
  "failing_kernel = reference_kernel\<lparr>k_enter := \<lambda>_ _. (-1, ''Resource temporarily unavailable'')\<rparr>"

theorem failed_enter_leaves_entries_queued_witness:
  "\<exists>st'. fst (snd (WritevAndFDataSync failing_kernel (Some fresh_ring) \<lparr>content = [], stable = []\<rparr> 3 [[1]] 0 1)) = Some st' \<and>
     map user_data (sq_pending st') = [64, 192]"
proof -
  obtain res ex f' where r: "WritevAndFDataSync failing_kernel (Some fresh_ring) \<lparr>content = [], stable = []\<rparr> 3 [[1]] 0 1 =
      (res, ex, f')" by (metis prod_cases3)
  from failed_enter_leaves_entries_queued [OF idle_fresh_ring _ _ r] r show ?thesis
    by (auto simp: failing_kernel_def reference_kernel_def capped_kernel_def faulty_kernel_def)
qed

text \<open>
  A completion for an operation whose frame no longer exists makes the completion loop write through a dangling
  address, whatever other frames are waiting.
\<close>

lemma stale_completion_dangles:
  assumes "cq_pending st = c # cs" and "cqe_user_data c \<noteq> 0" and "ops (cqe_user_data c) = None"
  shows "fst (drainCompletions st ops resumed) = Dangling (cqe_user_data c)"
  using assms by (subst drain_unfold) (simp add: Let_def)

lemma stale_completion_dangles_instance:
  "fst (drainCompletions (post_cqe fresh_ring \<lparr>cqe_user_data = 64, cqe_res = 5, cqe_data = []\<rparr>) Map.empty []) = Dangling 64"
  using stale_completion_dangles [OF cq_pending_sample, of Map.empty "[]"] by simp

text \<open>
  C40: a ring set up with a single entry can never take the linked pair: every write fails with an I/O error.
\<close>

theorem single_entry_ring_never_writes:
  assumes "sq_wf st" and "0 \<le> ringFd st" and "sq_ringEntries st = 1"
  shows "fst (WritevAndFDataSync k (Some st) f fd iovs off n) =
    Some (IoError ''io_uring linked writev+fdatasync submit failed'')"
  using assms(3)
  by (simp add: WritevAndFDataSync_def submitLinked_cases [OF assms(1,2)] linked_await_resume_def Let_def case_prod_beta)

theorem single_entry_ring_never_writes_witness:
  "fst (WritevAndFDataSync reference_kernel
      (Some (fresh_ring\<lparr>sq_ringEntries := 1, sq_ringMask := 0, sqes := [sqe_zero], sq_array := [0]\<rparr>))
      \<lparr>content = [], stable = []\<rparr> 3 [[1]] 0 1) =
    Some (IoError ''io_uring linked writev+fdatasync submit failed'')"
proof (rule single_entry_ring_never_writes)
  have "\<exists>n \<le> (15 :: nat). (1 :: u32) = 2 ^ n" by (intro exI [of _ 0]) simp
  then show "sq_wf (fresh_ring\<lparr>sq_ringEntries := 1, sq_ringMask := 0, sqes := [sqe_zero], sq_array := [0]\<rparr>)"
    by (simp add: sq_wf_def)
qed simp_all

end
