(* ===== verification/DB_State.thy ===== *)
theory DB_State
  imports Uring_Completion Wal_Decode Mem_Table
begin

text \<open>
  \<open>src/include/storage_engine/db.h\<close>, \<open>src/src/write_group_scratch.h\<close>: the options, the state of the database
  and its construction. The operating system is a parameter of the operations: the processor,
  the kernel behind the executor, \<open>fstat\<close>, \<open>ftruncate\<close> and \<open>std::hash\<close>.
\<close>

section \<open>Definitions\<close>

record os =
  os_cpu :: cpu
  os_kernel :: kernel
  os_hash :: "bytes \<Rightarrow> u64"
  os_fstat :: "wal_file \<Rightarrow> string + nat"
  os_ftruncate :: "wal_file \<Rightarrow> nat \<Rightarrow> string option \<times> wal_file"

record Options =
  opt_uringSqPoll :: bool
  opt_uringEntries :: u32
  opt_uringSqPollIdleMs :: u32
  opt_groupCommitWindowMicros :: u64
  opt_groupCommitTargetSize :: nat
  opt_adaptiveGroupCommit :: bool
  opt_highPressureGroupCommitWindowMicros :: u64
  opt_highPressureGroupCommitTargetSize :: nat
  opt_highPressureGroupCommitQueueThreshold :: nat

definition Options_new :: Options where
  "Options_new = \<lparr>opt_uringSqPoll = False, opt_uringEntries = 8, opt_uringSqPollIdleMs = 2000,
     opt_groupCommitWindowMicros = 100, opt_groupCommitTargetSize = 8, opt_adaptiveGroupCommit = True,
     opt_highPressureGroupCommitWindowMicros = 200, opt_highPressureGroupCommitTargetSize = 16,
     opt_highPressureGroupCommitQueueThreshold = 10\<rparr>"

record WriteGroupScratch =
  scratch_batches :: "WriteBatch list"
  scratch_capacity :: nat
  memtableUpdates :: PendingUpdates
  fallbackRecord :: bytes

definition WriteGroupScratch_new :: WriteGroupScratch where
  "WriteGroupScratch_new = \<lparr>scratch_batches = [], scratch_capacity = 0,
     memtableUpdates = PendingUpdates_new, fallbackRecord = []\<rparr>"

text \<open>A \<open>Writer*\<close> of the queue is the number of the request it belongs to.\<close>

record DB =
  walFd :: int
  executor :: "State option"
  walOffset :: u64
  nextSequence :: u64
  uringExecutorCreations :: u64
  asyncWriterSuspensions :: u64
  groupCommitWaits :: u64
  groupCommitWindowMicros :: u64
  groupCommitTargetSize :: nat
  adaptiveGroupCommit :: bool
  adaptiveGroupCommitWaits :: u64
  highPressureGroupCommitWindowMicros :: u64
  highPressureGroupCommitTargetSize :: nat
  highPressureGroupCommitQueueThreshold :: nat
  writeGroups :: u64
  maxWriteGroupSize :: u64
  writerThreadDrains :: u64
  inlineWriterDrains :: u64
  walEncodeBufferReuses :: u64
  writeGroupTimingSamples :: u64
  writeGroupTotalMicros :: u64
  writeGroupWalEncodeMicros :: u64
  writeGroupDurableWaitMicros :: u64
  writeGroupMemtableApplyMicros :: u64
  writerResumeMicros :: u64
  writeGroupScratchReuses :: u64
  writers :: "nat list"
  writing :: bool
  groupCommitArmed :: bool
  stopWriter :: bool
  writerThread :: bool
  memtable :: MemTable
  walRecord :: EncodedBatchFragments
  writeScratch :: WriteGroupScratch
  continuationsScratch :: "nat list"

definition DB_new :: "int \<Rightarrow> State option \<Rightarrow> Options \<Rightarrow> DB" where
  "DB_new fd ex options = \<lparr>walFd = fd, executor = ex, walOffset = 0, nextSequence = 1,
     uringExecutorCreations = 0, asyncWriterSuspensions = 0, groupCommitWaits = 0,
     groupCommitWindowMicros = opt_groupCommitWindowMicros options,
     groupCommitTargetSize = opt_groupCommitTargetSize options,
     adaptiveGroupCommit = opt_adaptiveGroupCommit options, adaptiveGroupCommitWaits = 0,
     highPressureGroupCommitWindowMicros = opt_highPressureGroupCommitWindowMicros options,
     highPressureGroupCommitTargetSize = opt_highPressureGroupCommitTargetSize options,
     highPressureGroupCommitQueueThreshold = opt_highPressureGroupCommitQueueThreshold options,
     writeGroups = 0, maxWriteGroupSize = 0, writerThreadDrains = 0, inlineWriterDrains = 0,
     walEncodeBufferReuses = 0, writeGroupTimingSamples = 0, writeGroupTotalMicros = 0,
     writeGroupWalEncodeMicros = 0, writeGroupDurableWaitMicros = 0, writeGroupMemtableApplyMicros = 0,
     writerResumeMicros = 0, writeGroupScratchReuses = 0, writers = [], writing = False,
     groupCommitArmed = False, stopWriter = False, writerThread = False, memtable = MemTable_new,
     walRecord = EncodedBatchFragments_new, writeScratch = WriteGroupScratch_new,
     continuationsScratch = []\<rparr>"

text \<open>
  What the model relies on: \<open>fstat\<close> reports the size of the file; \<open>ftruncate\<close> cuts the file, and may reach
  the disk at any later time; one that fails changes nothing.
\<close>

definition documented_fstat :: "os \<Rightarrow> bool" where
  "documented_fstat os \<longleftrightarrow> (\<forall>file n. os_fstat os file = Inr n \<longrightarrow> n = length (content file))"

definition documented_ftruncate :: "os \<Rightarrow> bool" where
  "documented_ftruncate os \<longleftrightarrow>
     (\<forall>file n err file'. n \<le> length (content file) \<longrightarrow> os_ftruncate os file n = (err, file') \<longrightarrow>
        (if err = None
         then content file' = take n (content file) \<and>
           (stable file' = stable file \<or> stable file' = take n (stable file))
         else file' = file))"

definition os_documented :: "os \<Rightarrow> bool" where
  "os_documented os \<longleftrightarrow>
     cpu_documented (os_cpu os) \<and> kernel_documented (os_kernel os) \<and>
     documented_fstat os \<and> documented_ftruncate os"

end
