(* ===== verification/DB_Core.thy ===== *)
theory DB_Core
  imports DB_State Wal_Device
begin

text \<open>
  \<open>src/src/db.cc\<close>: the commit of a write group, recovery and reading. The write group is what the
  writer that owns the \<open>writing\<close> flag runs. The readings of the steady clock are an argument of each
  call (\<open>now i\<close> is the \<open>i\<close>-th reading). A call that waits for an operation which never completes has
  no result (\<^const>\<open>None\<close>).
\<close>

section \<open>Definitions\<close>

definition IOV_MAX :: nat where
  "IOV_MAX = 1024"

definition fileSize :: "os \<Rightarrow> wal_file \<Rightarrow> u64 Result" where
  "fileSize os file =
     (case os_fstat os file of Inl err \<Rightarrow> Inl (IoError (errnoMessage ''fstat'' err)) | Inr n \<Rightarrow> Inr (of_nat n))"

definition DB_Get :: "os \<Rightarrow> DB \<Rightarrow> bytes \<Rightarrow> bytes Result" where
  "DB_Get os db k = MemTable_Get (os_hash os) (memtable db) k"

text \<open>The record of the group and the buffers to gather it from, the fallback included.\<close>

definition encodeGroup ::
  "os \<Rightarrow> u64 \<Rightarrow> WriteBatch list \<Rightarrow> EncodedBatchFragments \<times> WriteGroupScratch \<Rightarrow>
   EncodedBatchFragments \<times> WriteGroupScratch" where
  "encodeGroup os base bs st =
     (let (rec, scratch) = st;
          rec = EncodeBatchFragmentsInto base bs rec
      in if length (iovecs rec) > IOV_MAX
         then let scratch = scratch\<lparr>fallbackRecord := EncodeBatchInto (os_cpu os) base bs\<rparr>;
                  n = length (fallbackRecord scratch)
              in (rec\<lparr>iovecs := [\<lparr>iov_base = InFallback, iov_len = n\<rparr>], frag_size := n\<rparr>, scratch)
         else (rec, scratch))"

definition gatherBuffers :: "EncodedBatchFragments \<Rightarrow> WriteGroupScratch \<Rightarrow> bytes list" where
  "gatherBuffers rec scratch = map (iov_bytes (fixed rec) (fallbackRecord scratch)) (iovecs rec)"

definition writeGroup ::
  "os \<Rightarrow> (nat \<Rightarrow> int) \<Rightarrow> WriteBatch list \<Rightarrow> DB \<times> wal_file \<Rightarrow> Status option \<times> DB \<times> wal_file" where
  "writeGroup os now bs st =
     (let (db, file) = st;
          db = (if scratch_capacity (writeScratch db) > 0
                then db\<lparr>writeGroupScratchReuses := writeGroupScratchReuses db + 1\<rparr> else db);
          scratch = (writeScratch db)\<lparr>scratch_batches := bs,
            scratch_capacity := max (scratch_capacity (writeScratch db)) (length bs)\<rparr>;
          entryCount = foldl (\<lambda>n b. n + of_nat (length (entries b))) 0 bs;
          base = nextSequence db;
          db = (if fixed_capacity (walRecord db) > 0 \<or> iovecs_capacity (walRecord db) > 0
                then db\<lparr>walEncodeBufferReuses := walEncodeBufferReuses db + 1\<rparr> else db);
          (rec, scratch) = encodeGroup os base bs (walRecord db, scratch);
          (syncWrite, ex, file) = WritevAndFDataSync (os_kernel os) (executor db) file (walFd db)
             (gatherBuffers rec scratch) (walOffset db) (frag_size rec);
          db = db\<lparr>executor := ex, walRecord := rec, writeScratch := scratch\<rparr>
      in case syncWrite of
           None \<Rightarrow> (None, db, file)
         | Some status \<Rightarrow>
           if \<not> ok status then (Some status, db, file)
           else let (mt, updates) = ApplyBatches (os_hash os) (scratch_batches scratch) base
                      (memtable db, memtableUpdates scratch)
           in (Some Ok,
               db\<lparr>memtable := mt, writeScratch := scratch\<lparr>memtableUpdates := updates\<rparr>,
                  walOffset := walOffset db + of_nat (frag_size rec),
                  nextSequence := nextSequence db + entryCount,
                  writeGroupTimingSamples := writeGroupTimingSamples db + 1,
                  writeGroupTotalMicros := writeGroupTotalMicros db + elapsedMicros (now 0) (now 7),
                  writeGroupWalEncodeMicros := writeGroupWalEncodeMicros db + elapsedMicros (now 1) (now 2),
                  writeGroupDurableWaitMicros := writeGroupDurableWaitMicros db + elapsedMicros (now 3) (now 4),
                  writeGroupMemtableApplyMicros := writeGroupMemtableApplyMicros db + elapsedMicros (now 5) (now 6)\<rparr>,
               file))"

text \<open>One turn of the replay loop of \<open>recover\<close>.\<close>

definition recoverBatch :: "os \<Rightarrow> DB \<times> u64 \<Rightarrow> DecodedBatch \<Rightarrow> DB \<times> u64" where
  "recoverBatch os st d =
     (let (db, maxSequence) = st;
          scratch = (writeScratch db)\<lparr>scratch_batches := [batch d],
            scratch_capacity := max (scratch_capacity (writeScratch db)) 1\<rparr>;
          (mt, updates) = ApplyBatches (os_hash os) (scratch_batches scratch) (baseSequence d)
             (memtable db, memtableUpdates scratch)
      in (db\<lparr>memtable := mt, writeScratch := scratch\<lparr>memtableUpdates := updates\<rparr>\<rparr>,
          max maxSequence (baseSequence d + of_nat (length (entries (batch d))))))"

text \<open>The end of \<open>recover\<close>: cut off what is behind the valid part of the \<open>n\<close> bytes read, and sync.\<close>

definition recoverTail :: "os \<Rightarrow> nat \<Rightarrow> DB \<times> wal_file \<Rightarrow> Status option \<times> DB \<times> wal_file" where
  "recoverTail os n st =
     (let (db, file) = st
      in if walOffset db \<noteq> of_nat n
         then case os_ftruncate os file (unat (walOffset db)) of
                (Some err, file) \<Rightarrow> (Some (IoError (errnoMessage ''truncate WAL'' err)), db, file)
              | (None, file) \<Rightarrow>
                let (sync, ex, file) = FDataSync (os_kernel os) (executor db) file (walFd db);
                    db = db\<lparr>executor := ex\<rparr>
                in (case sync of
                      None \<Rightarrow> None
                    | Some s \<Rightarrow> Some (if \<not> ok s then s else Ok), db, file)
         else (Some Ok, db, file))"

text \<open>The part of \<open>recover\<close> behind the read: decode the bytes, replay the batches, set the counters.\<close>

definition recoverReplay :: "os \<Rightarrow> bytes \<Rightarrow> DB \<times> wal_file \<Rightarrow> Status option \<times> DB \<times> wal_file" where
  "recoverReplay os bytes st =
     (let (db, file) = st
      in case DecodeLog (os_cpu os) bytes of
           Inl s \<Rightarrow> (Some s, db, file)
         | Inr decodeResult \<Rightarrow>
           let (db, maxSequence) = foldl (recoverBatch os) (db, 0) (batches decodeResult);
               db = db\<lparr>nextSequence := max (nextSequence db) (maxSequence + 1),
                       walOffset := of_nat (validBytes decodeResult)\<rparr>
           in recoverTail os (length bytes) (db, file))"

definition recover :: "os \<Rightarrow> DB \<times> wal_file \<Rightarrow> Status option \<times> DB \<times> wal_file" where
  "recover os st =
     (let (db, file) = st
      in case fileSize os file of
           Inl s \<Rightarrow> (Some s, db, file)
         | Inr n \<Rightarrow>
           let db = db\<lparr>walOffset := n\<rparr>
           in if walOffset db = 0 then (Some Ok, db, file)
           else let (read, ex, file) = ReadAt (os_kernel os) (executor db) file (walFd db)
                      (replicate (unat (walOffset db)) 0) 0;
                    db = db\<lparr>executor := ex\<rparr>
           in case read of
                None \<Rightarrow> (None, db, file)
              | Some (Inl s) \<Rightarrow> (Some s, db, file)
              | Some (Inr (n, buffer)) \<Rightarrow>
                recoverReplay os (take n buffer @ replicate (n - length buffer) 0) (db, file))"

section \<open>The log behind the database\<close>

text \<open>
  The records that were committed, in order, determine the database: their bytes are at the start
  of the file, in the page cache and on the disk, the offset stands behind them, and the table is
  what replaying their entries gives.
\<close>

definition log_bytes :: "(u64 \<times> Entry list) list \<Rightarrow> bytes" where
  "log_bytes log = concat (map encode_record log)"

definition log_view :: "(u64 \<times> Entry list) list \<Rightarrow> bytes \<rightharpoonup> bytes" where
  "log_view log = foldl apply_entry Map.empty (concat (map snd log))"

definition db_inv :: "os \<Rightarrow> (u64 \<times> Entry list) list \<Rightarrow> DB \<times> wal_file \<Rightarrow> bool" where
  "db_inv os log st \<longleftrightarrow>
     mem_wf (os_hash os) (memtable (fst st)) \<and>
     memtableUpdates (writeScratch (fst st)) = PendingUpdates_new \<and>
     mem_view (os_hash os) (memtable (fst st)) = log_view log \<and>
     (\<forall>r \<in> set log. record_wf r) \<and>
     length (log_bytes log) < 2 ^ 64 \<and> walOffset (fst st) = of_nat (length (log_bytes log)) \<and>
     intact (log_bytes log) (snd st)"

lemma log_bytes_simps [simp]:
  "log_bytes [] = []" "log_bytes (log @ [r]) = log_bytes log @ encode_record r"
  by (simp_all add: log_bytes_def)

lemma log_view_simps [simp]:
  "log_view [] = Map.empty" "log_view (log @ [r]) = foldl apply_entry (log_view log) (snd r)"
  by (simp_all add: log_view_def)

lemma DB_Get_view:
  "DB_Get os db k = (case mem_view (os_hash os) (memtable db) k of None \<Rightarrow> Inl (NotFound ''key not found'') | Some v \<Rightarrow> Inr v)"
  by (simp add: DB_Get_def MemTable_Get_view)

section \<open>Encoding the group\<close>

text \<open>Gathered or contiguous, the same record goes out, in at most \<open>IOV_MAX\<close> pieces.\<close>

lemma encodeGroup_record:
  assumes "length (group_entries bs) < 2 ^ 32" and "cpu_documented (os_cpu os)"
    and "encodeGroup os base bs (rec, scratch) = (rec', scratch')"
  shows "concat (gatherBuffers rec' scratch') = record_bytes base (group_entries bs)"
    and "frag_size rec' = length (record_bytes base (group_entries bs))"
    and "length (gatherBuffers rec' scratch') \<le> IOV_MAX"
    and "scratch' = scratch\<lparr>fallbackRecord := fallbackRecord scratch'\<rparr>"
proof -
  let ?rec = "EncodeBatchFragmentsInto base bs rec"
  note frag = EncodeBatchFragmentsInto_eq [OF assms(1), of base rec]
  have mat: "concat (map (iov_bytes (fixed ?rec) fb) (iovecs ?rec)) = record_bytes base (group_entries bs)" for fb
    using materialize_fragments [OF assms(1), of base rec fb] by (simp add: materializeIovecs_def)
  have size: "frag_size ?rec = length (record_bytes base (group_entries bs))" by (simp add: frag)
  have whole: "EncodeBatchInto (os_cpu os) base bs = record_bytes base (group_entries bs)"
    by (rule EncodeBatchInto_eq [OF assms(2)])
  show "concat (gatherBuffers rec' scratch') = record_bytes base (group_entries bs)"
    "frag_size rec' = length (record_bytes base (group_entries bs))"
    "length (gatherBuffers rec' scratch') \<le> IOV_MAX"
    "scratch' = scratch\<lparr>fallbackRecord := fallbackRecord scratch'\<rparr>"
    using assms(3) mat size whole
    by (auto simp: encodeGroup_def gatherBuffers_def Let_def IOV_MAX_def iov_bytes_def split: if_splits)
qed

section \<open>Committing a group\<close>

lemma foldl_count_entries:
  "foldl (\<lambda>n b. n + of_nat (length (entries b))) n bs = n + (of_nat (length (group_entries bs)) :: u64)"
  by (induction bs arbitrary: n) (simp_all add: group_entries_def)

lemma record_wf_small:
  "entries_wf es \<Longrightarrow> length (record_bytes base es) < 2 ^ 31 \<Longrightarrow> record_wf (base, es)"
  by (simp add: record_wf_def wal_simps)

text \<open>The database after the write returned, before the table is touched.\<close>

definition writeGroup_sent :: "DB \<Rightarrow> DB \<Rightarrow> bool" where
  "writeGroup_sent db db' \<longleftrightarrow>
     memtable db' = memtable db \<and> walOffset db' = walOffset db \<and> nextSequence db' = nextSequence db \<and>
     walFd db' = walFd db \<and> memtableUpdates (writeScratch db') = memtableUpdates (writeScratch db)"

text \<open>
  A group that fails leaves the table, the offset and the sequence counter alone; one that
  succeeds adds exactly its record to the log and its entries to the table.
\<close>

lemma writeGroup_cases:
  assumes os: "os_documented os" and fits: "length (group_entries bs) < 2 ^ 32"
    and wf: "entries_wf (group_entries bs)"
    and inv: "db_inv os log (db, file)" and ready: "executor_ready (executor db)"
    and room: "length (log_bytes log) + length (record_bytes (nextSequence db) (group_entries bs)) < 2 ^ 64"
    and run: "writeGroup os now bs (db, file) = (res, db', file')"
  shows "\<exists>s. res = Some s \<and>
     (if ok s
      then s = Ok \<and> db_inv os (log @ [(nextSequence db, group_entries bs)]) (db', file') \<and>
        stable file' = content file' \<and> executor_ready (executor db') \<and>
        nextSequence db' = nextSequence db + of_nat (length (group_entries bs)) \<and>
        content file' = log_bytes (log @ [(nextSequence db, group_entries bs)]) @
          drop (length (log_bytes (log @ [(nextSequence db, group_entries bs)]))) (content file)
      else db_inv os log (db', file') \<and> writeGroup_sent db db')"
    and "enter_accepts (os_kernel os) \<Longrightarrow> executor_ready (executor db')"
    and "enter_accepts (os_kernel os) \<Longrightarrow> full_writes (os_kernel os) \<Longrightarrow>
      length (record_bytes (nextSequence db) (group_entries bs)) \<le> max_rw_count \<Longrightarrow> res = Some Ok"
    and "enter_accepts (os_kernel os) \<Longrightarrow> sync_succeeds (os_kernel os) file \<Longrightarrow>
      length (record_bytes (nextSequence db) (group_entries bs)) \<le> max_rw_count \<Longrightarrow> res = Some Ok"
    and "enter_accepts (os_kernel os) \<Longrightarrow> sync_fails (os_kernel os) file \<Longrightarrow>
      length (record_bytes (nextSequence db) (group_entries bs)) \<le> max_rw_count \<Longrightarrow>
      \<exists>s. res = Some s \<and> \<not> ok s \<and> content file' = log_bytes (log @ [(nextSequence db, group_entries bs)]) @
        drop (length (log_bytes (log @ [(nextSequence db, group_entries bs)]))) (content file)"
proof -
  let ?es = "group_entries bs" and ?base = "nextSequence db"
  let ?R = "record_bytes ?base ?es"
  define scratch where "scratch = (writeScratch db)\<lparr>scratch_batches := bs,
     scratch_capacity := max (scratch_capacity (writeScratch db)) (length bs)\<rparr>"
  obtain rec' scratch' where enc: "encodeGroup os ?base bs (walRecord db, scratch) = (rec', scratch')"
    by fastforce
  have cpu: "cpu_documented (os_cpu os)" and kern: "kernel_documented (os_kernel os)"
    using os by (simp_all add: os_documented_def)
  note rec = encodeGroup_record [OF fits cpu enc]
  have off: "walOffset db = of_nat (length (log_bytes log))" and ok_log: "intact (log_bytes log) file"
    and short: "length (log_bytes log) < 2 ^ 64" and wf_log: "\<forall>r \<in> set log. record_wf r"
    and mem: "mem_wf (os_hash os) (memtable db)" "memtableUpdates (writeScratch db) = PendingUpdates_new"
      "mem_view (os_hash os) (memtable db) = log_view log"
    using inv by (simp_all add: db_inv_def)
  have upd: "memtableUpdates scratch' = PendingUpdates_new" "scratch_batches scratch' = bs"
    using mem(2) by (subst rec(4); simp add: scratch_def)+
  obtain sw ex f where w: "WritevAndFDataSync (os_kernel os) (executor db) file (walFd db)
     (gatherBuffers rec' scratch') (walOffset db) (frag_size rec') = (sw, ex, f)" by (metis prod_cases3)
  have w': "WritevAndFDataSync (os_kernel os) (executor db) file (walFd db)
     (gatherBuffers rec' scratch') (of_nat (length (log_bytes log))) (length (concat (gatherBuffers rec' scratch'))) = (sw, ex, f)"
    using w by (simp add: off rec(1,2) del: length_concat)
  have iov: "length (gatherBuffers rec' scratch') \<le> 1024" using rec(3) by (simp add: IOV_MAX_def)
  obtain s where s: "sw = Some s" "intact (log_bytes log) f"
    and good: "ok s \<Longrightarrow> intact (log_bytes log @ ?R) f \<and> stable f = content f \<and> length ?R < 2 ^ 31 \<and>
      executor_ready ex \<and> content f = log_bytes log @ ?R @ drop (length (log_bytes log @ ?R)) (content file)"
    using wal_device.append_record [OF wal_device_uring [OF kern] ready iov ok_log short w'] rec(1) by auto
  let ?ab = "ApplyBatches (os_hash os) bs ?base (memtable db, PendingUpdates_new)"
  have "(res, executor db', memtable db', memtableUpdates (writeScratch db'), walOffset db', nextSequence db', walFd db', file') =
    (if ok s
     then (Some Ok, ex, fst ?ab, snd ?ab, walOffset db + of_nat (frag_size rec'),
           ?base + of_nat (length ?es), walFd db, f)
     else (Some s, ex, memtable db, PendingUpdates_new, walOffset db, ?base, walFd db, f))"
    using run enc [unfolded scratch_def] w s(1) upd
    unfolding writeGroup_def Let_def prod.case
    by (cases "scratch_capacity (writeScratch db) > 0";
        cases "fixed_capacity (walRecord db) > 0 \<or> iovecs_capacity (walRecord db) > 0";
        auto simp: case_prod_beta foldl_count_entries)
  note outcome = this
  show "executor_ready (executor db')" if "enter_accepts (os_kernel os)"
    using steady_device.append_ready [OF steady_device_uring [OF kern that] ready iov ok_log short w'] outcome
    by (auto split: if_splits)
  show "res = Some Ok" if "enter_accepts (os_kernel os)" "full_writes (os_kernel os)" "length ?R \<le> max_rw_count"
    using healthy_device.append_succeeds [OF healthy_device_uring [OF kern that(1,2)] ready iov ok_log short _ w']
      rec(1) that(3) s(1) outcome
    by (auto split: if_splits)
  obtain st where st: "executor db = Some st" "idle st" using ready by (auto simp: executor_ready_def)
  note pre = intactD [OF ok_log]
  have u: "unat (of_nat (length (log_bytes log)) :: u64) = length (log_bytes log)" using short by simp
  then have bound: "unat (of_nat (length (log_bytes log)) :: u64) \<le> length (content file)" using pre(1) by simp
  note linked = WritevAndFDataSync_idle [OF kern st(2) iov bound]
  show "res = Some Ok"
    if "enter_accepts (os_kernel os)" "sync_succeeds (os_kernel os) file" "length ?R \<le> max_rw_count"
    using linked(3) [OF that(1,2) refl, of "walFd db"] that(3) rec(1) w' st(1) s(1) outcome
    by (auto simp del: length_concat split: if_splits)
  show "\<exists>s. res = Some s \<and> \<not> ok s \<and> content file' = log_bytes (log @ [(?base, ?es)]) @
        drop (length (log_bytes (log @ [(?base, ?es)]))) (content file)"
    if "enter_accepts (os_kernel os)" "sync_fails (os_kernel os) file" "length ?R \<le> max_rw_count"
  proof -
    have "\<not> ok s" "content f = overwrite (content file) (length (log_bytes log)) ?R"
      using linked(4) [OF that(1,2) refl, of "walFd db"] w' s(1) st(1) rec(1) that(3) u
      by (auto simp del: length_concat)
    then show ?thesis using outcome pre by (auto simp: overwrite_def split: if_splits)
  qed
  show "\<exists>s. res = Some s \<and>
     (if ok s
      then s = Ok \<and> db_inv os (log @ [(nextSequence db, group_entries bs)]) (db', file') \<and>
        stable file' = content file' \<and> executor_ready (executor db') \<and>
        nextSequence db' = nextSequence db + of_nat (length (group_entries bs)) \<and>
        content file' = log_bytes (log @ [(nextSequence db, group_entries bs)]) @
          drop (length (log_bytes (log @ [(nextSequence db, group_entries bs)]))) (content file)
      else db_inv os log (db', file') \<and> writeGroup_sent db db')"
  proof (cases "ok s")
    case True
    have "record_wf (?base, ?es)" using record_wf_small [OF wf] good [OF True] by simp
    then show ?thesis
      using outcome True good [OF True] wf_log mem room off rec(2) mem_wf_ApplyBatches [OF mem(1)]
        scratch_ApplyBatches [OF mem(1)] mem_view_ApplyBatches [OF mem(1)]
      by (auto simp: db_inv_def)
  next
    case False
    then show ?thesis
      using outcome s(2) mem wf_log off short by (auto simp: db_inv_def writeGroup_sent_def)
  qed
qed

section \<open>Recovery\<close>

text \<open>The largest number of the replay loop, and the counter it leads to.\<close>

definition max_sequence :: "u64 \<Rightarrow> (u64 \<times> Entry list) list \<Rightarrow> u64" where
  "max_sequence m log = foldl (\<lambda>m r. max m (fst r + of_nat (length (snd r)))) m log"

definition replayed :: "os \<Rightarrow> DB \<times> u64 \<Rightarrow> (u64 \<times> Entry list) list \<Rightarrow> DB \<times> u64 \<Rightarrow> bool" where
  "replayed os st log st' \<longleftrightarrow>
     mem_wf (os_hash os) (memtable (fst st')) \<and> memtableUpdates (writeScratch (fst st')) = PendingUpdates_new \<and>
     mem_view (os_hash os) (memtable (fst st')) =
       foldl apply_entry (mem_view (os_hash os) (memtable (fst st))) (concat (map snd log)) \<and>
     executor (fst st') = executor (fst st) \<and> walFd (fst st') = walFd (fst st) \<and>
     nextSequence (fst st') = nextSequence (fst st) \<and> snd st' = max_sequence (snd st) log"

lemma recoverBatch_replayed:
  assumes "mem_wf (os_hash os) (memtable (fst st))" and "memtableUpdates (writeScratch (fst st)) = PendingUpdates_new"
  shows "replayed os st [r] (recoverBatch os st (decoded_batch r))"
  using assms mem_wf_ApplyBatches [OF assms(1)] scratch_ApplyBatches [OF assms(1)] mem_view_ApplyBatches [OF assms(1)]
  by (simp add: replayed_def recoverBatch_def decoded_batch_def max_sequence_def group_entries_def
        Let_def case_prod_beta)

lemma recoverBatch_log:
  assumes "mem_wf (os_hash os) (memtable (fst st))" and "memtableUpdates (writeScratch (fst st)) = PendingUpdates_new"
  shows "replayed os st log (foldl (recoverBatch os) st (map decoded_batch log))"
  using assms
proof (induction log arbitrary: st)
  case Nil
  then show ?case by (simp add: replayed_def max_sequence_def)
next
  case (Cons r log)
  let ?st = "recoverBatch os st (decoded_batch r)"
  have one: "replayed os st [r] ?st" by (rule recoverBatch_replayed [OF Cons.prems])
  then have "replayed os ?st log (foldl (recoverBatch os) ?st (map decoded_batch log))"
    by (intro Cons.IH) (simp_all add: replayed_def)
  with one show ?case by (simp add: replayed_def max_sequence_def)
qed

lemma max_sequence_upper:
  "m \<le> max_sequence m log" "r \<in> set log \<Longrightarrow> fst r + of_nat (length (snd r)) \<le> max_sequence m log"
proof (induction log arbitrary: m)
  case Nil
  { case 1 then show ?case by (simp add: max_sequence_def) }
  { case 2 then show ?case by simp }
next
  case (Cons q log)
  have step: "max_sequence m (q # log) = max_sequence (max m (fst q + of_nat (length (snd q)))) log" for m
    by (simp add: max_sequence_def)
  have le: "max m (fst q + of_nat (length (snd q))) \<le> max_sequence m (q # log)" for m
    unfolding step by (rule Cons.IH(1))
  { case 1 from le [of m] show ?case by simp }
  { case 2 then show ?case using le [of m] Cons.IH(2) unfolding step by auto }
qed

text \<open>A database as its constructor leaves it, on an executor that is ready.\<close>

definition fresh_db :: "DB \<Rightarrow> bool" where
  "fresh_db db \<longleftrightarrow> memtable db = MemTable_new \<and> nextSequence db = 1 \<and>
     memtableUpdates (writeScratch db) = PendingUpdates_new \<and> executor_ready (executor db)"

lemma DecodeLog_log:
  assumes "cpu_documented c" and "\<forall>r \<in> set log. record_wf r" and "wal_scan c p = Inr ([], 0)"
  shows "DecodeLog c (log_bytes log @ p) =
    Inr \<lparr>batches = map decoded_batch log, validBytes = length (log_bytes log)\<rparr>"
proof -
  have "wal_scan c (log_bytes log @ p) = Inr (map decoded_batch log, length (log_bytes log))"
    using framed_log.scan_records [OF framed_log_wal [OF assms(1)] assms(2), of p] assms(3)
    by (simp add: log_bytes_def)
  then show ?thesis by (simp add: wal_scan_Inr_iff)
qed

lemma log_bytes_eq_Nil: "log_bytes log = [] \<longleftrightarrow> log = []"
  by (cases log) (auto simp: log_bytes_def record_bytes_def Let_def)

text \<open>
  What recovery does with the \<open>n\<close> bytes the read returned. A short read is taken for the whole log: without
  a torn tail in what was read, the file is left as it is.
\<close>

lemma recoverTail_cases:
  assumes os: "os_documented os" and ready: "executor_ready (executor db)"
    and off: "walOffset db = of_nat m" and n: "m \<le> n" "n \<le> length (content f)" "length (content f) < 2 ^ 64"
    and synced: "stable f = content f" and run: "recoverTail os n (db, f) = (res, db', f')"
  shows "\<exists>s ex. res = Some s \<and> db' = db\<lparr>executor := ex\<rparr> \<and> (m = n \<longrightarrow> ok s) \<and>
    (ok s \<longrightarrow> s = Ok \<and> executor_ready ex \<and> stable f' = content f' \<and>
       content f' = (if m = n then content f else take m (content f)))"
proof (cases "m = n")
  case True
  then show ?thesis using run off ready synced by (auto simp: recoverTail_def intro!: exI [of _ "executor db"])
next
  case False
  have k: "kernel_documented (os_kernel os)" and trunc: "documented_ftruncate os" using os by (simp_all add: os_documented_def)
  have um: "unat (of_nat m :: u64) = m" and un: "unat (of_nat n :: u64) = n" using n by simp_all
  then have cut: "walOffset db \<noteq> of_nat n" using False off by metis
  obtain err f2 where t: "os_ftruncate os f m = (err, f2)" by fastforce
  show ?thesis
  proof (cases err)
    case (Some e)
    then show ?thesis using run cut t off um False by (auto simp: recoverTail_def intro!: exI [of _ "executor db"])
  next
    case None
    have f2: "content f2 = take m (content f)"
      using trunc [unfolded documented_ftruncate_def, rule_format, of m f err f2] t None n by simp
    obtain st where ex: "executor db = Some st" "idle st" using ready by (auto simp: executor_ready_def)
    obtain sync ex3 f3 where s: "FDataSync (os_kernel os) (Some st) f2 (walFd db) = (sync, ex3, f3)"
      by (metis prod_cases3)
    note S = FDataSync_idle [OF k ex(2) s]
    obtain t' where "sync = Some t'" "ok t' \<longrightarrow> stable f3 = content f2 \<and> (\<exists>st'. ex3 = Some st' \<and> idle st')"
      using S(1) by blast
    moreover have "content f3 = content f2" using S(2) by (simp add: unchanged_def)
    ultimately show ?thesis
      using run cut t None s ex(1) f2 off um False
      by (auto simp: recoverTail_def executor_ready_def intro!: exI [of _ ex3])
  qed
qed

text \<open>
  The database that replaying the records \<open>rs\<close> of the first \<open>v\<close> bytes of the log gives. The records are those the
  decoder found: whatever bytes the file holds, every batch it returns is the \<^const>\<open>decoded_batch\<close> of one.
\<close>

definition recovered :: "os \<Rightarrow> (u64 \<times> Entry list) list \<Rightarrow> nat \<Rightarrow> DB \<Rightarrow> bool" where
  "recovered os rs v db \<longleftrightarrow>
     mem_wf (os_hash os) (memtable db) \<and> memtableUpdates (writeScratch db) = PendingUpdates_new \<and>
     mem_view (os_hash os) (memtable db) = log_view rs \<and> walOffset db = of_nat v \<and>
     nextSequence db = max 1 (max_sequence 0 rs + 1) \<and> executor_ready (executor db)"

lemma decoded_records: "\<exists>rs. ds = map decoded_batch rs"
proof
  show "ds = map decoded_batch (map (\<lambda>d. (baseSequence d, entries (batch d))) ds)"
    by (induction ds) (simp_all add: decoded_batch_def)
qed

lemma map_decoded_batch_eq [simp]: "map decoded_batch rs = map decoded_batch rs' \<longleftrightarrow> rs = rs'"
  by (intro inj_map_eq_map injI) (simp add: decoded_batch_def prod_eq_iff)

lemma recoverReplay_scan:
  assumes os: "os_documented os" and fresh: "fresh_db db"
    and fits: "length (content f) < 2 ^ 64" and synced: "stable f = content f"
    and part: "length bytes \<le> length (content f)"
    and scan: "wal_scan (os_cpu os) bytes = Inr (map decoded_batch rs, v)"
    and run: "recoverReplay os bytes (db, f) = (res, db', f')"
  shows "\<exists>s. res = Some s \<and> (v = length bytes \<longrightarrow> ok s) \<and>
     (ok s \<longrightarrow> s = Ok \<and> recovered os rs v db' \<and> stable f' = content f' \<and>
        content f' = (if v = length bytes then content f else take v (content f)))"
proof -
  have cpu: "cpu_documented (os_cpu os)" using os by (simp add: os_documented_def)
  have v: "v \<le> length bytes" using framed_log.scan_valid [OF framed_log_wal [OF cpu] scan] by simp
  define st1 where "st1 = foldl (recoverBatch os) (db, 0) (map decoded_batch rs)"
  have rep: "replayed os (db, 0) rs st1"
    unfolding st1_def using fresh by (intro recoverBatch_log) (simp_all add: fresh_db_def mem_wf_new)
  define db1 where "db1 = (fst st1)\<lparr>nextSequence := max (nextSequence (fst st1)) (snd st1 + 1), walOffset := of_nat v\<rparr>"
  have flds: "recovered os rs v (db1\<lparr>executor := ex\<rparr>)" if "executor_ready ex" for ex
    using rep fresh that by (simp_all add: db1_def replayed_def fresh_db_def mem_view_new log_view_def recovered_def)
  have ready: "executor_ready (executor db1)" and off: "walOffset db1 = of_nat v"
    using rep fresh by (simp_all add: db1_def replayed_def fresh_db_def)
  have "recoverTail os (length bytes) (db1, f) = (res, db', f')"
    using run scan by (simp add: wal_scan_Inr_iff recoverReplay_def Let_def case_prod_beta db1_def st1_def [symmetric])
  from recoverTail_cases [OF os ready off v part fits synced this] flds show ?thesis by auto
qed

text \<open>The same behind a read that returned the first \<open>n\<close> bytes of the file.\<close>

lemma recover_read:
  assumes os: "os_documented os" and fresh: "fresh_db db"
    and fstat: "os_fstat os f = Inr (length (content f))" and fits: "length (content f) < 2 ^ 64"
    and cont: "content f \<noteq> []" "stable f = content f"
    and rd: "ReadAt (os_kernel os) (executor db) f (walFd db) (replicate (length (content f)) 0) 0 =
      (Some (Inr (n, buf)), ex1, f1)"
    and run: "recover os (db, f) = (res, db', f')"
  shows "wal_scan (os_cpu os) (take n (content f)) = Inl e \<Longrightarrow> res = Some e"
    and "wal_scan (os_cpu os) (take n (content f)) = Inr (map decoded_batch rs, v) \<Longrightarrow>
     \<exists>s. res = Some s \<and> (v = n \<longrightarrow> ok s) \<and>
       (ok s \<longrightarrow> s = Ok \<and> recovered os rs v db' \<and> stable f' = content f' \<and>
          content f' = (if v = n then content f else take v (content f)))"
proof -
  have k: "kernel_documented (os_kernel os)" using os by (simp add: os_documented_def)
  obtain st where ex: "executor db = Some st" "idle st"
    using fresh by (auto simp: fresh_db_def executor_ready_def)
  note R = ReadAt_idle [OF k ex(2) rd [unfolded ex(1)]]
  have bytes: "take n buf = take n (content f)" "n \<le> length buf" "n \<le> length (content f)" and ex1: "executor_ready ex1"
    using R(4) [OF refl] by (auto simp: executor_ready_def)
  have f1: "content f1 = content f" "stable f1 = content f1"
    using R(2) cont(2) by (auto simp: unchanged_def)
  have len: "unat (of_nat (length (content f)) :: u64) = length (content f)" using fits by simp
  then have nz: "(of_nat (length (content f)) :: u64) \<noteq> 0" using cont(1) by (metis length_0_conv unat_0)
  define db0 where "db0 = db\<lparr>walOffset := of_nat (length (content f)), executor := ex1\<rparr>"
  have db0: "fresh_db db0" using fresh ex1 by (simp add: db0_def fresh_db_def)
  have n: "length (take n (content f)) = n" using bytes(3) by simp
  have replay: "recoverReplay os (take n (content f)) (db0, f1) = (res, db', f')"
    using run nz fstat len rd bytes(1,2) by (simp add: recover_def fileSize_def db0_def)
  show "res = Some e" if "wal_scan (os_cpu os) (take n (content f)) = Inl e"
    using replay that by (auto simp: recoverReplay_def DecodeLog_scan)
  show "\<exists>s. res = Some s \<and> (v = n \<longrightarrow> ok s) \<and>
       (ok s \<longrightarrow> s = Ok \<and> recovered os rs v db' \<and> stable f' = content f' \<and>
          content f' = (if v = n then content f else take v (content f)))"
    if "wal_scan (os_cpu os) (take n (content f)) = Inr (map decoded_batch rs, v)"
    using recoverReplay_scan [OF os db0 _ f1(2) _ that replay, unfolded f1(1) n] fits bytes(3) by blast
qed

text \<open>
  Recovery of arbitrary bytes. The call returns, and when it returns success the decoder accepted the file: the table
  is what its records say, and the file is cut behind the last of them. Only a read that succeeds although it is short
  is excluded. It does succeed when every call of the operating system does and nothing has to be cut off.
\<close>

lemma recover_scan:
  assumes os: "os_documented os" and fresh: "fresh_db db" and synced: "stable f = content f"
    and small: "length (content f) \<le> max_rw_count" and run: "recover os (db, f) = (res, db', f')"
  shows "\<exists>s. res = Some s"
    and "res = Some s \<Longrightarrow> ok s \<Longrightarrow> never_short (os_kernel os) \<Longrightarrow>
      \<exists>rs v. wal_scan (os_cpu os) (content f) = Inr (map decoded_batch rs, v) \<and> s = Ok \<and> recovered os rs v db' \<and>
        content f' = take v (content f) \<and> stable f' = content f'"
    and "enter_accepts (os_kernel os) \<Longrightarrow> full_reads (os_kernel os) \<Longrightarrow> os_fstat os f = Inr (length (content f)) \<Longrightarrow>
      wal_scan (os_cpu os) (content f) = Inr (ds, length (content f)) \<Longrightarrow> res = Some Ok"
    and "enter_accepts (os_kernel os) \<Longrightarrow> full_reads (os_kernel os) \<Longrightarrow> os_fstat os f = Inr (length (content f)) \<Longrightarrow>
      wal_scan (os_cpu os) (content f) = Inl e \<Longrightarrow> res = Some e"
proof -
  let ?n = "length (content f)"
  have k: "kernel_documented (os_kernel os)" and cpu: "cpu_documented (os_cpu os)" and st: "documented_fstat os"
    using os by (simp_all add: os_documented_def)
  have fits: "?n < 2 ^ 64" using small by (simp add: max_rw_count_def)
  then have len: "unat (of_nat ?n :: u64) = ?n" by simp
  note empty = framed_log.scan_Nil [OF framed_log_wal [OF cpu]]
  obtain st where ex: "executor db = Some st" "idle st"
    using fresh by (auto simp: fresh_db_def executor_ready_def)
  obtain rd ex1 f1 where rd: "ReadAt (os_kernel os) (executor db) f (walFd db) (replicate ?n 0) 0 = (rd, ex1, f1)"
    by (metis prod_cases3)
  note R = ReadAt_idle [OF k ex(2) rd [unfolded ex(1)]]
  consider (stat) s where "res = Some s" "\<not> ok s" "os_fstat os f \<noteq> Inr ?n"
    | (nothing) "res = Some Ok" "content f = []" "f' = f" "recovered os [] 0 db'"
    | (unread) s where "rd = Some (Inl s)" "res = Some s"
    | (read) n buf where "rd = Some (Inr (n, buf))" "content f \<noteq> []" "os_fstat os f = Inr ?n"
  proof (cases "os_fstat os f")
    case (Inl err)
    then show ?thesis using run that(1) by (auto simp: recover_def fileSize_def)
  next
    case (Inr m)
    then have m: "os_fstat os f = Inr ?n" using st by (simp add: documented_fstat_def)
    show ?thesis
    proof (cases "content f = []")
      case True
      then have "res = Some Ok" "db' = db\<lparr>walOffset := 0\<rparr>" "f' = f"
        using run m by (simp_all add: recover_def fileSize_def)
      then show ?thesis using that(2) True fresh
        by (simp add: recovered_def fresh_db_def mem_wf_new mem_view_new max_sequence_def)
    next
      case False
      then have nz: "(of_nat ?n :: u64) \<noteq> 0" using len by (metis length_0_conv unat_0)
      obtain r where "rd = Some r" using R(1) by blast
      then show ?thesis using run m nz len rd that(3,4) False
        by (cases r) (auto simp: recover_def fileSize_def)
    qed
  qed
  note outcome = this
  have scanned: thesis if r: "rd = Some (Inr (n, buf))" "content f \<noteq> []" "os_fstat os f = Inr ?n"
    and P: "\<And>rs v s. wal_scan (os_cpu os) (take n (content f)) = Inr (map decoded_batch rs, v) \<Longrightarrow> res = Some s \<Longrightarrow>
       (v = n \<longrightarrow> ok s) \<Longrightarrow> (ok s \<longrightarrow> s = Ok \<and> recovered os rs v db' \<and> stable f' = content f' \<and>
          content f' = (if v = n then content f else take v (content f))) \<Longrightarrow> thesis"
    and Q: "\<And>s. wal_scan (os_cpu os) (take n (content f)) = Inl s \<Longrightarrow> res = Some s \<Longrightarrow> thesis"
    for n buf thesis
  proof (cases "wal_scan (os_cpu os) (take n (content f))")
    case (Inl s)
    then show ?thesis using Q recover_read(1) [OF os fresh r(3) fits r(2) synced rd [unfolded r(1)] run] by blast
  next
    case (Inr x)
    obtain rs v where "x = (map decoded_batch rs, v)" using decoded_records [of "fst x"] by (cases x) auto
    then show ?thesis
      using P recover_read(2) [OF os fresh r(3) fits r(2) synced rd [unfolded r(1)] run, of rs v] Inr by blast
  qed
  show "\<exists>s. res = Some s" using outcome by cases (auto elim: scanned)
  show "\<exists>rs v. wal_scan (os_cpu os) (content f) = Inr (map decoded_batch rs, v) \<and> s = Ok \<and> recovered os rs v db' \<and>
        content f' = take v (content f) \<and> stable f' = content f'"
    if "res = Some s" "ok s" "never_short (os_kernel os)"
    using outcome
  proof cases
    case nothing
    then show ?thesis using empty that(1) synced by (intro exI [of _ "[]"] exI [of _ 0]) simp
  next
    case (unread s')
    then show ?thesis using that(1,2) R(7) by blast
  next
    case (read n buf)
    have n: "n = ?n" using R(6) [OF read(1) that(3)] small by simp
    show ?thesis
      by (rule scanned [OF read]) (use n that(1,2) in \<open>auto split: if_splits dest: wal_scan_error\<close>)
  qed (use that in simp)
  have all: "\<exists>buf. rd = Some (Inr (?n, buf))" if "enter_accepts (os_kernel os)" "full_reads (os_kernel os)"
    using R(5) [OF that(1), of ?n] that(2) small by (simp add: full_reads_def)
  show "res = Some Ok" if "enter_accepts (os_kernel os)" "full_reads (os_kernel os)"
    "os_fstat os f = Inr ?n" "wal_scan (os_cpu os) (content f) = Inr (ds, ?n)"
    using outcome
  proof cases
    case (read n buf)
    then have n: "n = ?n" using all [OF that(1,2)] by simp
    show ?thesis by (rule scanned [OF read]) (use n that(4) in auto)
  qed (use that all in auto)
  show "res = Some e" if "enter_accepts (os_kernel os)" "full_reads (os_kernel os)"
    "os_fstat os f = Inr ?n" "wal_scan (os_cpu os) (content f) = Inl e"
    using outcome
  proof cases
    case (read n buf)
    then have n: "n = ?n" using all [OF that(1,2)] by simp
    show ?thesis by (rule scanned [OF read]) (use n that(4) in auto)
  qed (use that all empty in auto)
qed

text \<open>
  The recovered state of a file that holds the log and something behind it: everything of the log, then the records the
  decoder finds in the rest. With nothing behind the log, or only the torn start of a record, that is exactly the log.
\<close>

lemma scan_behind:
  assumes "cpu_documented c" and "\<forall>r \<in> set log. record_wf r"
  shows "wal_scan c (log_bytes log @ p) = Inr (map decoded_batch rs, v) \<longleftrightarrow>
    (\<exists>extra m. wal_scan c p = Inr (map decoded_batch extra, m) \<and> rs = log @ extra \<and> v = length (log_bytes log) + m)"
proof -
  have "wal_scan c (log_bytes log @ p) = after_records (map decoded_batch log) (length (log_bytes log)) (wal_scan c p)"
    unfolding log_bytes_def by (rule framed_log.scan_records [OF framed_log_wal [OF assms(1)] assms(2)])
  then have "wal_scan c (log_bytes log @ p) = Inr (map decoded_batch rs, v) \<longleftrightarrow>
      (\<exists>es m. wal_scan c p = Inr (es, m) \<and> map decoded_batch rs = map decoded_batch log @ es \<and> v = length (log_bytes log) + m)"
    by (simp add: after_records_eq_Inr)
  also have "\<dots> \<longleftrightarrow> (\<exists>extra m. wal_scan c p = Inr (map decoded_batch extra, m) \<and>
      map decoded_batch rs = map decoded_batch (log @ extra) \<and> v = length (log_bytes log) + m)"
    using decoded_records by (metis map_append)
  finally show ?thesis unfolding map_decoded_batch_eq .
qed

lemma scan_tail:
  assumes "cpu_documented c" and "p = [] \<or> record_wf r \<and> strict_prefix p (encode_record r)"
  shows "wal_scan c p = Inr ([], 0)"
  using assms(2) framed_log.scan_Nil [OF framed_log_wal [OF assms(1)]] framed_log.scan_torn [OF framed_log_wal [OF assms(1)]]
  by blast

lemma recover_log:
  assumes os: "os_documented os" and fresh: "fresh_db db"
    and cont: "content f = log_bytes log @ p" "stable f = content f"
    and wf: "\<forall>r \<in> set log. record_wf r" and small: "length (content f) \<le> max_rw_count"
    and run: "recover os (db, f) = (res, db', f')"
  shows "res = Some s \<Longrightarrow> ok s \<Longrightarrow> never_short (os_kernel os) \<Longrightarrow>
      \<exists>extra m. wal_scan (os_cpu os) p = Inr (map decoded_batch extra, m) \<and> s = Ok \<and>
        recovered os (log @ extra) (length (log_bytes log) + m) db' \<and>
        content f' = log_bytes log @ take m p \<and> stable f' = content f'"
    and "enter_accepts (os_kernel os) \<Longrightarrow> full_reads (os_kernel os) \<Longrightarrow> os_fstat os f = Inr (length (content f)) \<Longrightarrow>
      p = [] \<Longrightarrow> res = Some Ok"
proof -
  have cpu: "cpu_documented (os_cpu os)" using os by (simp add: os_documented_def)
  note S = recover_scan [OF os fresh cont(2) small run]
  show "\<exists>extra m. wal_scan (os_cpu os) p = Inr (map decoded_batch extra, m) \<and> s = Ok \<and>
        recovered os (log @ extra) (length (log_bytes log) + m) db' \<and>
        content f' = log_bytes log @ take m p \<and> stable f' = content f'"
    if "res = Some s" "ok s" "never_short (os_kernel os)"
    using S(2) [OF that] by (auto simp: cont(1) scan_behind [OF cpu wf])
  show "res = Some Ok" if "enter_accepts (os_kernel os)" "full_reads (os_kernel os)"
    "os_fstat os f = Inr (length (content f))" "p = []"
  proof (rule S(3) [OF that(1-3)])
    show "wal_scan (os_cpu os) (content f) = Inr (map decoded_batch log, length (content f))"
      using scan_tail [OF cpu, of "[]"] that(4) by (simp add: cont(1) scan_behind [OF cpu wf, of "[]", simplified])
  qed
qed

lemma recovered_db_inv:
  assumes "recovered os log (length (log_bytes log)) db" and "content f = log_bytes log" and "stable f = content f"
    and "\<forall>r \<in> set log. record_wf r" and "length (log_bytes log) < 2 ^ 64"
  shows "db_inv os log (db, f)"
  using assms by (simp add: recovered_def db_inv_def intact_def)

end
