(* ===== verification/DB_Properties.thy ===== *)
theory DB_Properties
  imports DB_Core
begin

text \<open>
  What the database promises of a write group and of recovery: all or nothing in memory, on disk before it is
  acknowledged, the committed groups back from a log that holds nothing else but a torn record; and the situations
  in which a failed group or a short read makes recovery do what it should not.
\<close>

section \<open>An operating system to run on\<close>

definition reference_os :: os where
  "reference_os = \<lparr>os_cpu = reference_cpu, os_kernel = reference_kernel, os_hash = \<lambda>k. of_nat (length k),
     os_fstat = \<lambda>f. Inr (length (content f)), os_ftruncate = \<lambda>f n. (None, f\<lparr>content := take n (content f)\<rparr>)\<rparr>"

lemma reference_os_simps [simp]:
  "os_cpu reference_os = reference_cpu" "os_kernel reference_os = reference_kernel"
  "os_fstat reference_os f = Inr (length (content f))"
  by (simp_all add: reference_os_def)

lemma reference_os_documented [simp]: "os_documented reference_os"
  by (simp add: os_documented_def documented_fstat_def documented_ftruncate_def)
     (auto simp: reference_os_def)

definition empty_file :: wal_file where
  "empty_file = \<lparr>content = [], stable = []\<rparr>"

lemma empty_file_simps [simp]: "content empty_file = []" "stable empty_file = []"
  by (simp_all add: empty_file_def)

definition new_db :: DB where
  "new_db = DB_new 3 (Some fresh_ring) Options_new"

lemma new_db_simps [simp]:
  "fresh_db new_db" "executor_ready (executor new_db)" "nextSequence new_db = 1" "walFd new_db = 3"
  by (simp_all add: new_db_def DB_new_def fresh_db_def WriteGroupScratch_new_def executor_ready_def)

lemma db_inv_new_db [simp]: "db_inv reference_os [] (new_db, empty_file)"
  by (simp add: db_inv_def new_db_def DB_new_def WriteGroupScratch_new_def mem_wf_new mem_view_new intact_def)

definition sample_batch :: WriteBatch where
  "sample_batch = Put WriteBatch_new [1] [2]"

lemma sample_batch_simps [simp]:
  "group_entries [sample_batch] = [\<lparr>etype = kPut, key = [1], val = [2]\<rparr>]"
  "length (record_bytes base [\<lparr>etype = kPut, key = [1], val = [2]\<rparr>]) = 32"
  "entries_wf [\<lparr>etype = kPut, key = [1], val = [2]\<rparr>]"
  "record_wf (base, [\<lparr>etype = kPut, key = [1], val = [2]\<rparr>])"
  by (simp_all add: group_entries_def sample_batch_def wal_simps entries_wf_def record_wf_def)

section \<open>Write groups\<close>

text \<open>
  C28: whether the record of a group is gathered from its parts or, with more than \<open>IOV_MAX\<close> parts, copied into one
  fallback buffer, the kernel is given at most \<open>IOV_MAX\<close> buffers that hold exactly the encoded record, and its exact length.
\<close>

theorem group_buffers_are_the_record:
  assumes "cpu_documented (os_cpu os)" and "length (group_entries bs) < 2 ^ 32"
    and "encodeGroup os base bs (old, scratch) = (rec, scratch')"
  shows "concat (gatherBuffers rec scratch') = EncodeBatchInto (os_cpu os) base bs \<and>
    length (gatherBuffers rec scratch') \<le> IOV_MAX \<and> frag_size rec = length (EncodeBatchInto (os_cpu os) base bs)"
  using encodeGroup_record [OF assms(2,1,3)] by (simp add: EncodeBatchInto_eq [OF assms(1)] del: length_concat)

theorem group_buffers_are_the_record_witness:
  "case encodeGroup reference_os 1 [sample_batch] (EncodedBatchFragments_new, WriteGroupScratch_new) of
     (rec, scratch') \<Rightarrow> frag_size rec = length (EncodeBatchInto (os_cpu reference_os) 1 [sample_batch])"
proof -
  obtain rec scratch' where
    r: "encodeGroup reference_os 1 [sample_batch] (EncodedBatchFragments_new, WriteGroupScratch_new) = (rec, scratch')"
    by fastforce
  have "cpu_documented (os_cpu reference_os)" "length (group_entries [sample_batch]) < 2 ^ 32" by simp_all
  from group_buffers_are_the_record [OF this r] r show ?thesis by simp
qed

text \<open>
  C3: a write group that reports success was appended to the log as one record with the next sequence numbers, was on the
  disk before its entries entered the table, and the table then is what the whole log says. The next group starts behind it.
\<close>

theorem committed_group_is_durable:
  assumes "os_documented os" and "length (group_entries bs) < 2 ^ 32" and "entries_wf (group_entries bs)"
    and "db_inv os log (db, f)" and "executor_ready (executor db)"
    and "length (log_bytes log) + length (record_bytes (nextSequence db) (group_entries bs)) < 2 ^ 64"
    and "writeGroup os now bs (db, f) = (Some s, db', f')" and "ok s"
  shows "db_inv os (log @ [(nextSequence db, group_entries bs)]) (db', f') \<and> stable f' = content f' \<and>
    mem_view (os_hash os) (memtable db') = foldl apply_entry (mem_view (os_hash os) (memtable db)) (group_entries bs) \<and>
    nextSequence db' = nextSequence db + of_nat (length (group_entries bs)) \<and> executor_ready (executor db')"
  using writeGroup_cases(1) [OF assms(1-7)] assms(4,8) by (auto simp: db_inv_def)

lemma sample_room: "length (log_bytes []) + length (record_bytes (nextSequence new_db) (group_entries [sample_batch])) < 2 ^ 64"
  by simp

lemma sample_group_fits: "length (group_entries [sample_batch]) < 2 ^ 32" "entries_wf (group_entries [sample_batch])"
  by simp_all

lemma sample_commit:
  obtains db' f' where "writeGroup reference_os now [sample_batch] (new_db, empty_file) = (Some Ok, db', f')"
proof -
  obtain res db' f' where run: "writeGroup reference_os now [sample_batch] (new_db, empty_file) = (res, db', f')"
    by (metis prod_cases3)
  have "res = Some Ok"
    using writeGroup_cases(3) [OF reference_os_documented sample_group_fits db_inv_new_db new_db_simps(2) sample_room run]
    by (simp add: max_rw_count_def)
  with run that show thesis by simp
qed

theorem committed_group_is_durable_witness:
  "\<exists>db' f'. writeGroup reference_os (\<lambda>_. 0) [sample_batch] (new_db, empty_file) = (Some Ok, db', f') \<and>
     db_inv reference_os ([] @ [(1, group_entries [sample_batch])]) (db', f') \<and> stable f' = content f'"
proof -
  obtain db' f' where run: "writeGroup reference_os (\<lambda>_. 0) [sample_batch] (new_db, empty_file) = (Some Ok, db', f')"
    by (rule sample_commit)
  from committed_group_is_durable [OF reference_os_documented sample_group_fits db_inv_new_db new_db_simps(2)
      sample_room run ok_simps(1)] run
  show ?thesis by auto
qed

text \<open>
  C4: a write group that reports an error has changed nothing a reader or the next group can see: the table, the log offset and
  the sequence counter are as before, and the committed records are still in the file and on the disk.
\<close>

theorem failed_group_changes_nothing:
  assumes "os_documented os" and "length (group_entries bs) < 2 ^ 32" and "entries_wf (group_entries bs)"
    and "db_inv os log (db, f)" and "executor_ready (executor db)"
    and "length (log_bytes log) + length (record_bytes (nextSequence db) (group_entries bs)) < 2 ^ 64"
    and "writeGroup os now bs (db, f) = (Some s, db', f')" and "\<not> ok s"
  shows "db_inv os log (db', f') \<and> memtable db' = memtable db \<and> walOffset db' = walOffset db \<and>
    nextSequence db' = nextSequence db"
  using writeGroup_cases(1) [OF assms(1-7)] assms(8) by (auto simp: writeGroup_sent_def)

text \<open>A kernel whose submissions fail, as a database sees it.\<close>

definition refusing_os :: os where
  "refusing_os = reference_os\<lparr>os_kernel := reference_kernel\<lparr>k_enter := \<lambda>_ _. (-1, ''busy'')\<rparr>\<rparr>"

lemma kernel_documented_enter: "kernel_documented (k\<lparr>k_enter := e\<rparr>) = kernel_documented k"
proof -
  have "k_run (k\<lparr>k_enter := e\<rparr>) = k_run k" "k_frame (k\<lparr>k_enter := e\<rparr>) = k_frame k" by simp_all
  then show ?thesis
    by (simp only: kernel_documented_def documented_write_def documented_read_def documented_sync_def)
qed

lemma refusing_os_documented [simp]: "os_documented refusing_os"
proof -
  have "os_fstat refusing_os = os_fstat reference_os" "os_ftruncate refusing_os = os_ftruncate reference_os"
    "os_cpu refusing_os = reference_cpu"
    "os_kernel refusing_os = reference_kernel\<lparr>k_enter := \<lambda>_ _. (-1, ''busy'')\<rparr>"
    by (simp_all add: refusing_os_def)
  then show ?thesis
    using reference_os_documented
    by (simp only: os_documented_def documented_fstat_def documented_ftruncate_def kernel_documented_enter
          reference_kernel_documented reference_cpu_documented simp_thms) blast
qed

lemma refused_write:
  "fst (WritevAndFDataSync (reference_kernel\<lparr>k_enter := \<lambda>_ _. (-1, m)\<rparr>) (Some fresh_ring) f fd iovs off n) =
     Some (IoError ''io_uring linked writev+fdatasync submit failed'')"
  using submitLinked_cases [of fresh_ring] idle_fresh_ring
  by (simp add: WritevAndFDataSync_def idle_def Let_def case_prod_beta linked_await_resume_def
        del: idle_fresh_ring)

lemma db_inv_refusing [simp]: "db_inv refusing_os [] (new_db, empty_file)"
  using db_inv_new_db by (simp add: refusing_os_def db_inv_def)

theorem failed_group_changes_nothing_witness:
  "\<exists>s db' f'. writeGroup refusing_os (\<lambda>_. 0) [sample_batch] (new_db, empty_file) = (Some s, db', f') \<and> \<not> ok s \<and>
     memtable db' = memtable new_db \<and> nextSequence db' = 1"
proof -
  obtain res db' f' where run: "writeGroup refusing_os (\<lambda>_. 0) [sample_batch] (new_db, empty_file) = (res, db', f')"
    by (metis prod_cases3)
  have "fst (writeGroup refusing_os (\<lambda>_. 0) [sample_batch] (new_db, empty_file)) =
      Some (IoError ''io_uring linked writev+fdatasync submit failed'')"
    by (simp add: writeGroup_def refusing_os_def new_db_def DB_new_def WriteGroupScratch_new_def
          EncodedBatchFragments_new_def Let_def case_prod_beta refused_write)
  then have "\<exists>s. res = Some s \<and> \<not> ok s" using run by simp
  then obtain s where s: "res = Some s" "\<not> ok s" by blast
  from failed_group_changes_nothing [OF refusing_os_documented sample_group_fits db_inv_refusing new_db_simps(2)
      sample_room run [unfolded s(1)] s(2)] run s show ?thesis by auto
qed

text \<open>
  C27: on a device that accepts the submission, takes the write as a whole and syncs it, a group of at most
  \<open>0x7ffff000\<close> encoded bytes commits: \<open>writeGroup\<close> returns success and the executor is ready for the next group.
\<close>

theorem healthy_device_commits:
  assumes "os_documented os" and "enter_accepts (os_kernel os)" and "full_writes (os_kernel os)"
    and "length (group_entries bs) < 2 ^ 32" and "entries_wf (group_entries bs)"
    and "db_inv os log (db, f)" and "executor_ready (executor db)"
    and "length (record_bytes (nextSequence db) (group_entries bs)) \<le> max_rw_count"
    and "length (log_bytes log) + length (record_bytes (nextSequence db) (group_entries bs)) < 2 ^ 64"
  shows "\<exists>db' f'. writeGroup os now bs (db, f) = (Some Ok, db', f') \<and> executor_ready (executor db')"
proof -
  obtain res db' f' where run: "writeGroup os now bs (db, f) = (res, db', f')" by (metis prod_cases3)
  note cases = writeGroup_cases [OF assms(1,4-7,9) run]
  show ?thesis using run cases(2) [OF assms(2)] cases(3) [OF assms(2,3,8)] by blast
qed

theorem healthy_device_commits_witness:
  "\<exists>db' f'. writeGroup reference_os (\<lambda>_. 0) [sample_batch] (new_db, empty_file) = (Some Ok, db', f') \<and>
     executor_ready (executor db')"
  by (rule healthy_device_commits [where log = "[]"]) (simp_all add: max_rw_count_def)

section \<open>Recovery\<close>

text \<open>
  C7: recovery of a file of at most \<open>0x7ffff000\<close> bytes that holds the committed records followed by nothing or by the torn
  start of one more, on a kernel whose successful reads are not short. The call returns; \<open>fstat\<close>, the submission, the read, the
  truncation and its sync may fail, and then it reports an error. When it reports success the table is exactly that of the
  committed records, the torn bytes are cut off in the file and on the disk, and the database satisfies its
  invariant and continues where the log ends. With nothing torn, and when \<open>fstat\<close>, the submission and the read succeed, it does
  report success.
\<close>

theorem recovery_restores_the_log:
  assumes "os_documented os" and "never_short (os_kernel os)" and "fresh_db db"
    and "content f = log_bytes log @ torn" and "stable f = content f"
    and "\<forall>r \<in> set log. record_wf r"
    and "torn = [] \<or> (record_wf r' \<and> strict_prefix torn (encode_record r'))"
    and "length (content f) \<le> max_rw_count"
    and "recover os (db, f) = (res, db', f')"
  shows "\<exists>s. res = Some s \<and>
    (ok s \<longrightarrow> s = Ok \<and> db_inv os log (db', f') \<and> executor_ready (executor db') \<and>
       content f' = log_bytes log \<and> stable f' = log_bytes log) \<and>
    (torn = [] \<and> os_fstat os f = Inr (length (content f)) \<and> enter_accepts (os_kernel os) \<and> full_reads (os_kernel os)
       \<longrightarrow> ok s)"
proof -
  have cpu: "cpu_documented (os_cpu os)" using assms(1) by (simp add: os_documented_def)
  note R = recover_log [OF assms(1,3-6,8,9)]
  obtain s where s: "res = Some s" using recover_scan(1) [OF assms(1,3,5,8,9)] by blast
  have "s = Ok \<and> db_inv os log (db', f') \<and> executor_ready (executor db') \<and>
      content f' = log_bytes log \<and> stable f' = log_bytes log" if ok: "ok s"
  proof -
    have r: "s = Ok" "recovered os log (length (log_bytes log)) db'" "content f' = log_bytes log" "stable f' = content f'"
      using R(1) [OF s ok assms(2)] scan_tail [OF cpu assms(7)] by auto
    have "length (log_bytes log) < 2 ^ 64" using assms(4,8) by (simp add: max_rw_count_def)
    then show ?thesis using r recovered_db_inv [OF r(2,3,4) assms(6)] by (simp add: recovered_def)
  qed
  then show ?thesis using s R(2) by auto
qed

theorem recovery_restores_the_log_witness:
  "\<exists>db' f'. recover reference_os (new_db, \<lparr>content = encode_record (1, group_entries [sample_batch]),
        stable = encode_record (1, group_entries [sample_batch])\<rparr>) = (Some Ok, db', f') \<and>
     db_inv reference_os [(1, group_entries [sample_batch])] (db', f')"
proof -
  let ?log = "[(1, group_entries [sample_batch])]" and ?f = "\<lparr>content = encode_record (1, group_entries [sample_batch]),
        stable = encode_record (1, group_entries [sample_batch])\<rparr>"
  obtain res db' f' where run: "recover reference_os (new_db, ?f) = (res, db', f')" by (metis prod_cases3)
  have "\<exists>s. res = Some s \<and> (ok s \<longrightarrow> s = Ok \<and> db_inv reference_os ?log (db', f') \<and>
      executor_ready (executor db') \<and> content f' = log_bytes ?log \<and> stable f' = log_bytes ?log) \<and>
      (([] :: bytes) = [] \<and> os_fstat reference_os ?f = Inr (length (content ?f)) \<and>
       enter_accepts (os_kernel reference_os) \<and> full_reads (os_kernel reference_os) \<longrightarrow> ok s)"
    by (rule recovery_restores_the_log [OF _ _ _ _ _ _ _ _ run])
       (simp_all add: log_bytes_def max_rw_count_def)
  then show ?thesis using run by auto
qed

lemma max_sequence_member:
  "max_sequence m log = m \<or> (\<exists>r \<in> set log. max_sequence m log = fst r + of_nat (length (snd r)))"
  by (induction log arbitrary: m) (auto simp: max_sequence_def max_def split: if_splits)

text \<open>
  C29: recovery of a file of at most \<open>0x7ffff000\<close> bytes with the committed records and possibly a torn one behind them, on a
  kernel whose successful reads are not short. When it reports success, the next sequence number is larger than
  that of every entry in the log, so numbers are not reused, as long as the numbers of the log stay below \<open>2^64 - 1\<close>.
\<close>

theorem recovered_sequence_is_fresh:
  assumes "os_documented os" and "never_short (os_kernel os)" and "fresh_db db"
    and "content f = log_bytes log @ torn" and "stable f = content f"
    and "\<forall>r \<in> set log. record_wf r \<and> unat (fst r) + length (snd r) < 2 ^ 64 - 1"
    and "torn = [] \<or> (record_wf r' \<and> strict_prefix torn (encode_record r'))"
    and "length (content f) \<le> max_rw_count" and "(base, es) \<in> set log" and "i < length es"
    and "recover os (db, f) = (Some s, db', f')" and "ok s"
  shows "base + of_nat i < nextSequence db'"
proof -
  have cpu: "cpu_documented (os_cpu os)" using assms(1) by (simp add: os_documented_def)
  have wf: "\<forall>r \<in> set log. record_wf r" using assms(6) by blast
  have next_seq: "nextSequence db' = max 1 (max_sequence 0 log + 1)"
    using recover_log(1) [OF assms(1,3-5) wf assms(8,11) refl assms(12,2)] scan_tail [OF cpu assms(7)]
    by (auto simp: recovered_def)
  have sum: "unat (fst r + of_nat (length (snd r))) = unat (fst r) + length (snd r)" if "r \<in> set log" for r
    using assms(6) that by (auto simp: unat_word_ariths unat_of_nat take_bit_nat_eq_self)
  have "unat (max_sequence 0 log) < 2 ^ 64 - 1"
    using max_sequence_member [of 0 log] sum assms(6) by auto
  then have suc: "unat (max_sequence 0 log + 1) = unat (max_sequence 0 log) + 1"
    by (simp add: unat_word_ariths)
  have "unat base + length es \<le> unat (max_sequence 0 log)"
    using max_sequence_upper(2) [OF assms(9), of 0] sum [OF assms(9)] by (simp add: word_le_nat_alt)
  moreover have "unat (base + of_nat i) = unat base + i"
    using sum [OF assms(9)] assms(6,9,10) by (auto simp: unat_word_ariths unat_of_nat take_bit_nat_eq_self)
  ultimately have "base + of_nat i < max_sequence 0 log + 1"
    using suc assms(10) by (simp add: word_less_nat_alt)
  then show ?thesis unfolding next_seq by (simp add: less_max_iff_disj)
qed

text \<open>Recovery on the reference system succeeds on whole records.\<close>

lemma reference_recovers:
  assumes "content f = log_bytes log" and "stable f = content f" and "\<forall>r \<in> set log. record_wf r"
    and "length (content f) \<le> max_rw_count"
  obtains db' f' where "recover reference_os (new_db, f) = (Some Ok, db', f')"
proof -
  obtain res db' f' where run: "recover reference_os (new_db, f) = (res, db', f')" by (metis prod_cases3)
  have "res = Some Ok"
    by (rule recover_log(2) [OF reference_os_documented new_db_simps(1) _ assms(2,3,4) run, of "[]"])
       (simp_all add: assms(1))
  with run that show thesis by simp
qed

theorem recovered_sequence_is_fresh_witness:
  "1 + of_nat 0 < nextSequence (fst (snd (recover reference_os (new_db,
     \<lparr>content = log_bytes [(1, group_entries [sample_batch])], stable = log_bytes [(1, group_entries [sample_batch])]\<rparr>))))"
proof -
  let ?f = "\<lparr>content = log_bytes [(1, group_entries [sample_batch])], stable = log_bytes [(1, group_entries [sample_batch])]\<rparr>"
  obtain db' f' where run: "recover reference_os (new_db, ?f) = (Some Ok, db', f')"
    by (rule reference_recovers [of ?f "[(1, group_entries [sample_batch])]"]) (simp_all add: log_bytes_def max_rw_count_def)
  have "1 + of_nat 0 < nextSequence db'"
    by (rule recovered_sequence_is_fresh [OF _ _ _ _ _ _ _ _ _ _ run ok_simps(1),
          where log = "[(1, group_entries [sample_batch])]" and es = "group_entries [sample_batch]" and torn = "[]"])
       (simp_all add: log_bytes_def max_rw_count_def)
  then show ?thesis using run by simp
qed

text \<open>
  Recovery skips a sequence number. A database that committed one group of \<open>n\<close> entries to an empty log continues with
  number \<open>n + 1\<close>; reopened on the same file it continues with \<open>n + 2\<close>.
\<close>

lemma recovery_skips_a_number:
  assumes "os_documented os" and "never_short (os_kernel os)" and "fresh_db db"
    and "db_inv os [] (db0, f0)" and "content f0 = []" and "executor_ready (executor db0)" and "nextSequence db0 = 1"
    and "length (group_entries bs) < 2 ^ 32" and "entries_wf (group_entries bs)"
    and "length (record_bytes 1 (group_entries bs)) \<le> max_rw_count"
    and "writeGroup os now bs (db0, f0) = (Some Ok, db1, f1)" and "recover os (db, f1) = (Some Ok, db2, f2)"
  shows "nextSequence db1 = 1 + of_nat (length (group_entries bs)) \<and>
    nextSequence db2 = nextSequence db1 + 1"
proof -
  let ?n = "length (group_entries bs)" and ?log = "[(1, group_entries bs)]"
  have room: "length (log_bytes []) + length (record_bytes (nextSequence db0) (group_entries bs)) < 2 ^ 64"
    using assms(7,10) by (simp add: max_rw_count_def)
  have one: "db_inv os ?log (db1, f1)" "stable f1 = content f1" "nextSequence db1 = 1 + of_nat ?n"
    "content f1 = log_bytes ?log @ []"
    using writeGroup_cases(1) [OF assms(1,8,9,4,6) room assms(11)] assms(5,7) by (auto simp: log_bytes_def)
  have cpu: "cpu_documented (os_cpu os)" using assms(1) by (simp add: os_documented_def)
  have wf: "\<forall>r \<in> set ?log. record_wf r" using one(1) by (simp add: db_inv_def)
  have "length (content f1) \<le> max_rw_count" using one(4) assms(10) by (simp add: log_bytes_def)
  then have "nextSequence db2 = max 1 (max_sequence 0 ?log + 1)"
    using recover_log(1) [OF assms(1,3) one(4,2) wf _ assms(12) refl _ assms(2)] scan_tail [OF cpu, of "[]"]
    by (auto simp: recovered_def)
  also have "max_sequence 0 ?log = 1 + of_nat ?n" by (simp add: max_sequence_def)
  also have "max 1 (1 + of_nat ?n + 1) = (1 + of_nat ?n + 1 :: u64)"
  proof (rule max.absorb2)
    have "unat (1 + of_nat ?n + 1 :: u64) = ?n + 2"
      using assms(8) by (simp add: unat_word_ariths unat_of_nat take_bit_nat_eq_self)
    then show "1 \<le> (1 + of_nat ?n + 1 :: u64)" by (simp add: word_le_nat_alt)
  qed
  finally show ?thesis using one(3) by simp
qed

lemma recovery_skips_a_number_instance:
  "\<exists>db1 f1 db2 f2. writeGroup reference_os (\<lambda>_. 0) [sample_batch] (new_db, empty_file) = (Some Ok, db1, f1) \<and>
     recover reference_os (new_db, f1) = (Some Ok, db2, f2) \<and> nextSequence db1 = 2 \<and> nextSequence db2 = 3"
proof -
  obtain db1 f1 where w: "writeGroup reference_os (\<lambda>_. 0) [sample_batch] (new_db, empty_file) = (Some Ok, db1, f1)"
    by (rule sample_commit)
  have f1: "content f1 = log_bytes [(1, group_entries [sample_batch])]" "stable f1 = content f1"
    using writeGroup_cases(1) [OF reference_os_documented sample_group_fits db_inv_new_db new_db_simps(2) sample_room w]
    by (auto simp: log_bytes_def)
  obtain db2 f2 where r: "recover reference_os (new_db, f1) = (Some Ok, db2, f2)"
    by (rule reference_recovers [OF f1]) (simp_all add: f1 log_bytes_def max_rw_count_def)
  have "nextSequence db1 = 1 + of_nat (length (group_entries [sample_batch])) \<and> nextSequence db2 = nextSequence db1 + 1"
    by (rule recovery_skips_a_number [OF _ _ _ _ _ _ _ _ _ _ w r])
       (simp_all add: max_rw_count_def)
  then show ?thesis using w r by auto
qed

section \<open>What recovery does not survive\<close>

text \<open>
  A group that fails through its sync, with everything written: the database is as before, but the record is in
  the file, where the next group will go.
\<close>

lemma failed_sync_leaves_record:
  assumes "os_documented os" and "enter_accepts (os_kernel os)" and "sync_fails (os_kernel os) f"
    and "length (group_entries bs) < 2 ^ 32" and "entries_wf (group_entries bs)"
    and "db_inv os log (db, f)" and "executor_ready (executor db)" and "content f = log_bytes log"
    and "length (log_bytes (log @ [(nextSequence db, group_entries bs)])) \<le> max_rw_count"
    and "writeGroup os now bs (db, f) = (res, db', f')"
  shows "\<exists>s. res = Some s \<and> \<not> ok s" and "db_inv os log (db', f')" and "executor_ready (executor db')"
    and "nextSequence db' = nextSequence db"
    and "content f' = log_bytes log @ record_bytes (nextSequence db) (group_entries bs)"
    and "record_wf (nextSequence db, group_entries bs)"
proof -
  have room: "length (log_bytes log) + length (record_bytes (nextSequence db) (group_entries bs)) < 2 ^ 64"
    and small: "length (record_bytes (nextSequence db) (group_entries bs)) \<le> max_rw_count"
    using assms(9) by (simp_all add: max_rw_count_def)
  note W = writeGroup_cases [OF assms(1,4-7) room assms(10)]
  show "\<exists>s. res = Some s \<and> \<not> ok s" "db_inv os log (db', f')" "executor_ready (executor db')"
    "nextSequence db' = nextSequence db"
    "content f' = log_bytes log @ record_bytes (nextSequence db) (group_entries bs)"
    using W(1) W(2) [OF assms(2)] W(5) [OF assms(2,3) small] assms(8) by (auto simp: writeGroup_sent_def)
  show "record_wf (nextSequence db, group_entries bs)"
    using small by (intro record_wf_small [OF assms(5)]) (simp add: max_rw_count_def)
qed

text \<open>
  C36: a group whose record is written as a whole but whose sync reports an error fails, and leaves its bytes behind the
  log. When a shorter group then commits, it overwrites only their beginning; if at least nine bytes of the old record remain and
  all of them are zero, the database with the acknowledged group cannot be opened again: recovery reads the whole file and reports corruption.
\<close>

theorem leftover_of_failed_group_blocks_reopening:
  assumes "os_documented os" and "enter_accepts (os_kernel os)" and "full_reads (os_kernel os)"
    and "db_inv os log (db, f)" and "executor_ready (executor db)" and "content f = log_bytes log"
    and "length (group_entries bs1) < 2 ^ 32" and "entries_wf (group_entries bs1)"
    and "length (log_bytes (log @ [(nextSequence db, group_entries bs1)])) \<le> max_rw_count"
    and "sync_fails (os_kernel os) f" and "writeGroup os now1 bs1 (db, f) = (res1, db1, f1)"
    and "length (group_entries bs2) < 2 ^ 32" and "entries_wf (group_entries bs2)"
    and "drop (length (record_bytes (nextSequence db) (group_entries bs2)))
           (record_bytes (nextSequence db) (group_entries bs1)) = replicate n 0" and "9 \<le> n"
    and "writeGroup os now2 bs2 (db1, f1) = (Some Ok, db2, f2)"
    and "fresh_db db3" and "os_fstat os f2 = Inr (length (content f2))"
  shows "(\<exists>s. res1 = Some s \<and> \<not> ok s) \<and> db_inv os (log @ [(nextSequence db, group_entries bs2)]) (db2, f2) \<and>
    fst (recover os (db3, f2)) = Some (Corruption ''unknown WAL record type'')"
proof -
  let ?R1 = "record_bytes (nextSequence db) (group_entries bs1)" and ?R2 = "record_bytes (nextSequence db) (group_entries bs2)"
    and ?log = "log @ [(nextSequence db, group_entries bs2)]"
  note F = failed_sync_leaves_record [OF assms(1,2,10,7,8,4-6,9,11)]
  have longer: "length ?R1 = length ?R2 + n" using arg_cong [OF assms(14), of length] assms(15) by simp
  have room: "length (log_bytes log) + length (record_bytes (nextSequence db1) (group_entries bs2)) < 2 ^ 64"
    using assms(9) longer F(4) by (simp add: max_rw_count_def)
  have ok: "db_inv os ?log (db2, f2)" "stable f2 = content f2"
    "content f2 = log_bytes ?log @ drop (length (log_bytes ?log)) (content f1)"
    using writeGroup_cases(1) [OF assms(1,12,13) F(2,3) room assms(16)] F(4) by auto
  have tail: "drop (length (log_bytes ?log)) (content f1) = replicate n 0"
    using F(5) assms(14) by simp
  have cpu: "cpu_documented (os_cpu os)" using assms(1) by (simp add: os_documented_def)
  have "\<forall>r \<in> set ?log. record_wf r" using ok(1) by (simp add: db_inv_def)
  from decode_zero_tail [OF cpu this assms(15)]
  have "wal_scan (os_cpu os) (content f2) = Inl (Corruption ''unknown WAL record type'')"
    unfolding ok(3) tail log_bytes_def [symmetric] by (simp add: wal_scan_def)
  moreover have "length (content f2) \<le> max_rw_count" using assms(9) longer ok(3) tail by simp
  moreover obtain res db' f' where run: "recover os (db3, f2) = (res, db', f')" by (metis prod_cases3)
  ultimately have "res = Some (Corruption ''unknown WAL record type'')"
    using recover_scan(4) [OF assms(1,17) ok(2) _ run assms(2,3,18)] by blast
  then show ?thesis using F(1) ok(1) run by simp
qed

text \<open>A system whose first sync, that of the empty file, fails; the batch whose record it leaves behind.\<close>

definition faulty_os :: os where
  "faulty_os = reference_os\<lparr>os_kernel := faulty_kernel max_rw_count (\<lambda>f. content f = [])\<rparr>"

lemma faulty_os_simps [simp]:
  "os_kernel faulty_os = faulty_kernel max_rw_count (\<lambda>f. content f = [])" "os_fstat faulty_os f = Inr (length (content f))"
  by (simp_all add: faulty_os_def)

lemma faulty_os_documented [simp]: "os_documented faulty_os"
  using reference_os_documented faulty_kernel_documented [of max_rw_count]
  by (simp add: os_documented_def documented_fstat_def documented_ftruncate_def faulty_os_def)

lemma faulty_os_reads: "full_reads (os_kernel faulty_os)"
  by simp

lemma faulty_os_start [simp]: "db_inv faulty_os [] (new_db, empty_file)" "sync_fails (os_kernel faulty_os) empty_file"
  using db_inv_new_db by (simp_all add: faulty_os_def db_inv_def faulty_sync)

definition long_batch :: WriteBatch where
  "long_batch = Put WriteBatch_new [1] (replicate 10 0)"

lemma long_batch_simps [simp]:
  "group_entries [long_batch] = [\<lparr>etype = kPut, key = [1], val = replicate 10 0\<rparr>]"
  "length (record_bytes b (group_entries [long_batch])) = 41" "entries_wf (group_entries [long_batch])"
  by (simp_all add: group_entries_def long_batch_def wal_simps entries_wf_def)

lemma long_batch_tail: "drop 32 (record_bytes b (group_entries [long_batch])) = replicate 9 0"
proof -
  define whole where "whole = record_bytes b (group_entries [long_batch])"
  define head where "head = take 31 whole"
  have "whole = take 31 whole @ replicate 10 0"
    by (simp add: whole_def record_bytes_def payload_bytes_def entry_bytes_def entry_header_def Let_def)
  then have f: "whole = head @ replicate 10 0" unfolding head_def .
  have "length head = 31" using long_batch_simps(2) by (simp add: head_def whole_def del: long_batch_simps(1))
  then show ?thesis unfolding whole_def [symmetric] by (subst f) (simp add: drop_replicate)
qed

lemma long_batch_fits:
  "length (group_entries [long_batch]) < 2 ^ 32"
  "length (log_bytes ([] @ [(nextSequence new_db, group_entries [long_batch])])) \<le> max_rw_count"
  "drop (length (record_bytes (nextSequence new_db) (group_entries [sample_batch])))
     (record_bytes (nextSequence new_db) (group_entries [long_batch])) = replicate 9 0"
proof -
  show "length (group_entries [long_batch]) < 2 ^ 32" by simp
  show "length (log_bytes ([] @ [(nextSequence new_db, group_entries [long_batch])])) \<le> max_rw_count"
    using long_batch_simps(2) by (simp add: log_bytes_def max_rw_count_def del: long_batch_simps(1))
  show "drop (length (record_bytes (nextSequence new_db) (group_entries [sample_batch])))
     (record_bytes (nextSequence new_db) (group_entries [long_batch])) = replicate 9 0"
    using long_batch_tail by (simp del: long_batch_simps(1))
qed

lemma failed_long_batch:
  obtains res db1 f1 where "writeGroup faulty_os (\<lambda>_. 0) [long_batch] (new_db, empty_file) = (res, db1, f1)"
    "db_inv faulty_os [] (db1, f1)" "executor_ready (executor db1)" "nextSequence db1 = 1"
    "content f1 = record_bytes 1 (group_entries [long_batch])"
proof -
  obtain res db1 f1 where run: "writeGroup faulty_os (\<lambda>_. 0) [long_batch] (new_db, empty_file) = (res, db1, f1)"
    by (metis prod_cases3)
  note F = failed_sync_leaves_record [OF faulty_os_documented _ faulty_os_start(2) long_batch_fits(1) long_batch_simps(3)
      faulty_os_start(1) new_db_simps(2) _ long_batch_fits(2) run]
  show thesis using that [OF run] F(2-5) by (simp del: long_batch_simps(1))
qed

theorem leftover_of_failed_group_blocks_reopening_witness:
  "\<exists>res db1 f1 db2 f2. writeGroup faulty_os (\<lambda>_. 0) [long_batch] (new_db, empty_file) = (res, db1, f1) \<and> res \<noteq> Some Ok \<and>
     writeGroup faulty_os (\<lambda>_. 0) [sample_batch] (db1, f1) = (Some Ok, db2, f2) \<and>
     fst (recover faulty_os (new_db, f2)) = Some (Corruption ''unknown WAL record type'')"
proof -
  obtain res db1 f1 where w1: "writeGroup faulty_os (\<lambda>_. 0) [long_batch] (new_db, empty_file) = (res, db1, f1)"
    and s1: "db_inv faulty_os [] (db1, f1)" "executor_ready (executor db1)" "nextSequence db1 = 1"
      "content f1 = record_bytes 1 (group_entries [long_batch])" by (rule failed_long_batch)
  obtain res2 db2 f2 where w2: "writeGroup faulty_os (\<lambda>_. 0) [sample_batch] (db1, f1) = (res2, db2, f2)"
    by (metis prod_cases3)
  have "content f1 \<noteq> []" using s1(4) long_batch_simps(2) [of 1] by (auto simp del: long_batch_simps)
  then have "res2 = Some Ok"
    by (intro writeGroup_cases(4) [OF faulty_os_documented sample_group_fits s1(1,2) _ w2])
       (simp_all add: max_rw_count_def faulty_sync)
  note w2 = w2 [unfolded this]
  have "(\<exists>s. res = Some s \<and> \<not> ok s) \<and> db_inv faulty_os ([] @ [(nextSequence new_db, group_entries [sample_batch])]) (db2, f2) \<and>
      fst (recover faulty_os (new_db, f2)) = Some (Corruption ''unknown WAL record type'')"
    by (rule leftover_of_failed_group_blocks_reopening [OF faulty_os_documented _ faulty_os_reads faulty_os_start(1) new_db_simps(2) _
          long_batch_fits(1) long_batch_simps(3) long_batch_fits(2) faulty_os_start(2) w1 sample_group_fits long_batch_fits(3) _ w2])
       simp_all
  then show ?thesis using w1 w2 by (intro exI [of _ res] exI conjI) auto
qed

text \<open>
  C37: the same failure without a second group. The error says that nothing was written, and the table does not have the
  entries; but the record is in the file, and the database that is opened on it later has them.
\<close>

theorem failed_group_may_reappear:
  assumes "os_documented os" and "enter_accepts (os_kernel os)" and "full_reads (os_kernel os)"
    and "db_inv os log (db, f)" and "executor_ready (executor db)" and "content f = log_bytes log"
    and "length (group_entries bs) < 2 ^ 32" and "entries_wf (group_entries bs)"
    and "length (log_bytes (log @ [(nextSequence db, group_entries bs)])) \<le> max_rw_count"
    and "sync_fails (os_kernel os) f" and "writeGroup os now bs (db, f) = (res, db1, f1)"
    and "fresh_db db2" and "content f2 = content f1" and "stable f2 = content f2"
    and "os_fstat os f2 = Inr (length (content f2))"
  shows "\<exists>s db3 f3. res = Some s \<and> \<not> ok s \<and> mem_view (os_hash os) (memtable db1) = log_view log \<and>
    recover os (db2, f2) = (Some Ok, db3, f3) \<and>
    mem_view (os_hash os) (memtable db3) = foldl apply_entry (log_view log) (group_entries bs)"
proof -
  let ?log = "log @ [(nextSequence db, group_entries bs)]"
  note F = failed_sync_leaves_record [OF assms(1,2,10,7,8,4-6,9,11)]
  have cpu: "cpu_documented (os_cpu os)" using assms(1) by (simp add: os_documented_def)
  have wf: "\<forall>r \<in> set ?log. record_wf r" using assms(4) F(6) by (simp add: db_inv_def)
  have cont: "content f2 = log_bytes ?log @ []" using F(5) assms(13) by simp
  have small: "length (content f2) \<le> max_rw_count" using cont assms(9) by simp
  obtain r db3 f3 where run: "recover os (db2, f2) = (r, db3, f3)" by (metis prod_cases3)
  note R = recover_log [OF assms(1,12) cont assms(14) wf small run]
  have r: "r = Some Ok" by (rule R(2) [OF assms(2,3,15) refl])
  have "mem_view (os_hash os) (memtable db3) = log_view ?log"
    using R(1) [OF r] assms(3) scan_tail [OF cpu, of "[]"] by (auto simp: recovered_def)
  moreover have "mem_view (os_hash os) (memtable db1) = log_view log" using F(2) by (simp add: db_inv_def)
  ultimately show ?thesis using F(1) run r by auto
qed

theorem failed_group_may_reappear_witness:
  "\<exists>res db1 f1 db3 f3. writeGroup faulty_os (\<lambda>_. 0) [long_batch] (new_db, empty_file) = (res, db1, f1) \<and> res \<noteq> Some Ok \<and>
     recover faulty_os (new_db, f1\<lparr>stable := content f1\<rparr>) = (Some Ok, db3, f3) \<and>
     mem_view (os_hash faulty_os) (memtable db3) [1] = Some (replicate 10 0)"
proof -
  obtain res db1 f1 where w1: "writeGroup faulty_os (\<lambda>_. 0) [long_batch] (new_db, empty_file) = (res, db1, f1)"
    by (rule failed_long_batch)
  have "\<exists>s db3 f3. res = Some s \<and> \<not> ok s \<and> mem_view (os_hash faulty_os) (memtable db1) = log_view [] \<and>
      recover faulty_os (new_db, f1\<lparr>stable := content f1\<rparr>) = (Some Ok, db3, f3) \<and>
      mem_view (os_hash faulty_os) (memtable db3) = foldl apply_entry (log_view []) (group_entries [long_batch])"
    by (rule failed_group_may_reappear [OF faulty_os_documented _ faulty_os_reads faulty_os_start(1) new_db_simps(2) _
          long_batch_fits(1) long_batch_simps(3) long_batch_fits(2) faulty_os_start(2) w1])
       simp_all
  then obtain s db3 f3 where r: "res = Some s" "\<not> ok s"
    "recover faulty_os (new_db, f1\<lparr>stable := content f1\<rparr>) = (Some Ok, db3, f3)"
    "mem_view (os_hash faulty_os) (memtable db3) = foldl apply_entry (log_view []) (group_entries [long_batch])" by blast
  have "mem_view (os_hash faulty_os) (memtable db3) [1] = Some (replicate 10 0)"
    unfolding r(4) by (simp add: apply_entry_def)
  then show ?thesis using w1 r by (intro exI [of _ res] exI conjI) auto
qed

text \<open>
  C38: recovery reads the file once. If that read returns only the first records, it takes them for the whole log: it succeeds,
  and the records behind them, although acknowledged and still in the file, are missing from the table and will be overwritten.
\<close>

theorem short_read_drops_records:
  assumes "os_documented os" and "enter_accepts (os_kernel os)" and "fresh_db db"
    and "os_fstat os f = Inr (length (content f))" and "length (content f) < 2 ^ 64"
    and "content f = log_bytes (log1 @ log2)" and "stable f = content f" and "log1 \<noteq> []"
    and "\<forall>r \<in> set (log1 @ log2). record_wf r"
    and "reads_exactly (os_kernel os) f (length (content f)) (length (log_bytes log1))"
  shows "\<exists>db' f'. recover os (db, f) = (Some Ok, db', f') \<and> content f' = content f \<and>
    mem_view (os_hash os) (memtable db') = log_view log1 \<and> walOffset db' = of_nat (length (log_bytes log1))"
proof -
  have k: "kernel_documented (os_kernel os)" and cpu: "cpu_documented (os_cpu os)"
    using assms(1) by (simp_all add: os_documented_def)
  obtain st where ex: "executor db = Some st" "idle st"
    using assms(3) by (auto simp: fresh_db_def executor_ready_def)
  obtain rd ex1 f1 where rd: "ReadAt (os_kernel os) (Some st) f (walFd db)
      (replicate (length (content f)) 0) 0 = (rd, ex1, f1)" by (metis prod_cases3)
  obtain buf where buf: "rd = Some (Inr (length (log_bytes log1), buf))"
    using ReadAt_idle(5) [OF k ex(2) rd assms(2), of "length (log_bytes log1)"] assms(10) by auto
  have part: "take (length (log_bytes log1)) (content f) = log_bytes log1 @ []"
    using assms(6) by (simp add: log_bytes_def)
  have ne: "content f \<noteq> []" using assms(6,8) by (simp add: log_bytes_eq_Nil)
  have wf: "\<forall>r \<in> set log1. record_wf r" using assms(9) by simp
  obtain res db' f' where run: "recover os (db, f) = (res, db', f')" by (metis prod_cases3)
  have "wal_scan (os_cpu os) (take (length (log_bytes log1)) (content f)) = Inr (map decoded_batch log1, length (log_bytes log1))"
    unfolding part using scan_tail [OF cpu, of "[]"] by (simp only: scan_behind [OF cpu wf]) simp
  from recover_read(2) [OF assms(1,3,4,5) ne assms(7) rd [unfolded buf, folded ex(1)] run this] run
  show ?thesis by (auto simp: recovered_def)
qed

theorem short_read_drops_records_witness:
  "\<exists>db' f'. recover (reference_os\<lparr>os_kernel := capped_kernel 32\<rparr>)
      (new_db, \<lparr>content = log_bytes ([(1, group_entries [sample_batch])] @ [(2, group_entries [sample_batch])]),
                stable = log_bytes ([(1, group_entries [sample_batch])] @ [(2, group_entries [sample_batch])])\<rparr>) = (Some Ok, db', f') \<and>
     walOffset db' = 32"
proof -
  let ?os = "reference_os\<lparr>os_kernel := capped_kernel 32\<rparr>"
    and ?f = "\<lparr>content = log_bytes ([(1, group_entries [sample_batch])] @ [(2, group_entries [sample_batch])]),
               stable = log_bytes ([(1, group_entries [sample_batch])] @ [(2, group_entries [sample_batch])])\<rparr>"
  have os: "os_documented ?os"
    using reference_os_documented capped_kernel_documented [of 32]
    by (simp add: os_documented_def documented_fstat_def documented_ftruncate_def max_rw_count_def)
  have len: "length (content ?f) = 64" "length (log_bytes [(1 :: u64, group_entries [sample_batch])]) = 32"
    by (simp_all add: log_bytes_def)
  have wf: "\<forall>r \<in> set ([(1, group_entries [sample_batch])] @ [(2, group_entries [sample_batch])]). record_wf r"
    unfolding sample_batch_simps(1) by (simp only: append.simps list.set ball_simps sample_batch_simps(4) simp_thms)
  have rd: "reads_exactly (os_kernel ?os) ?f (length (content ?f)) (length (log_bytes [(1, group_entries [sample_batch])]))"
    unfolding len(2) using faulty_reads [of 32 ?f "length (content ?f)"] len(1) by (simp add: capped_kernel_def max_rw_count_def)
  have "\<exists>db' f'. recover ?os (new_db, ?f) = (Some Ok, db', f') \<and> content f' = content ?f \<and>
      mem_view (os_hash ?os) (memtable db') = log_view [(1, group_entries [sample_batch])] \<and>
      walOffset db' = of_nat (length (log_bytes [(1 :: u64, group_entries [sample_batch])]))"
    using len(1) by (intro short_read_drops_records [OF os _ _ _ _ _ _ _ wf rd]) simp_all
  then obtain db' f' where "recover ?os (new_db, ?f) = (Some Ok, db', f')"
    "walOffset db' = of_nat (length (log_bytes [(1 :: u64, group_entries [sample_batch])]))" by blast
  then show ?thesis using len(2) by auto
qed

end
