(* ===== verification/Writer_Queue.thy ===== *)
theory Writer_Queue
  imports DB_Core
begin

text \<open>
  \<open>src/src/db.cc\<close>: the queue of writers and group commit. A caller either finds the database free
  and writes its own batch (\<open>enqueueAsyncWriter\<close>), or queues its \<open>Writer\<close> and is suspended until the
  writer thread (\<open>writerLoop\<close>) has written the group it belongs to.

  Every section that runs under \<open>writeMutex_\<close> is one function on the database. Between these
  sections the threads interleave freely: the step relations below have one rule per section, per
  call of \<open>writeGroup\<close>, per notification and per resumed coroutine. The condition variable is modelled
  with its lost wake-ups: a notification only reaches a thread that sleeps.
\<close>

section \<open>The sections under the mutex\<close>

record Writer =
  w_batch :: WriteBatch
  w_status :: Status
  w_continuation :: bool

text \<open>The \<open>Writer\<close> objects in the frames of the callers; a \<open>Writer*\<close> is the number of its request.\<close>

type_synonym writer_table = "nat \<Rightarrow> Writer option"

text \<open>The constructor of \<open>WriteAwaiter\<close> copies the batch; \<open>await_suspend\<close> then registers the continuation.\<close>

definition WriteAwaiter_new :: "WriteBatch \<Rightarrow> Writer" where
  "WriteAwaiter_new input = \<lparr>w_batch = WriteBatch_copy input, w_status = Ok, w_continuation = False\<rparr>"

text \<open>The first section of \<open>enqueueAsyncWriter\<close>; the result tells whether the writer was queued.\<close>

definition enqueue_lock :: "nat \<Rightarrow> DB \<Rightarrow> bool \<times> DB" where
  "enqueue_lock w db =
     (let db = db\<lparr>asyncWriterSuspensions := asyncWriterSuspensions db + 1\<rparr>
      in if \<not> writing db \<and> writers db = [] \<and> \<not> groupCommitArmed db
         then (False, db\<lparr>writing := True, inlineWriterDrains := inlineWriterDrains db + 1\<rparr>)
         else let db = db\<lparr>writers := writers db @ [w]\<rparr>
              in (True, if writing db \<or> length (writers db) > 1 then db\<lparr>groupCommitArmed := True\<rparr> else db))"

text \<open>The second section of \<open>enqueueAsyncWriter\<close>.\<close>

definition enqueue_finish :: "nat \<Rightarrow> Status \<Rightarrow> DB \<times> writer_table \<Rightarrow> DB \<times> writer_table" where
  "enqueue_finish w status st =
     (let (db, tab) = st
      in (db\<lparr>writeGroups := writeGroups db + 1, maxWriteGroupSize := max (maxWriteGroupSize db) 1, writing := False\<rparr>,
          tab(w := map_option (\<lambda>wr. wr\<lparr>w_status := status\<rparr>) (tab w))))"

definition group_batches :: "writer_table \<Rightarrow> nat list \<Rightarrow> WriteBatch list" where
  "group_batches tab ws = map (\<lambda>w. w_batch (the (tab w))) ws"

text \<open>
  \<open>enqueueAsyncWriter\<close> as the calling thread runs it when no other thread intervenes. \<^const>\<open>None\<close>: the
  write never completes.
\<close>

definition enqueueAsyncWriter ::
  "os \<Rightarrow> (nat \<Rightarrow> int) \<Rightarrow> nat \<Rightarrow> DB \<times> wal_file \<times> writer_table \<Rightarrow> bool option \<times> DB \<times> wal_file \<times> writer_table" where
  "enqueueAsyncWriter os now w st =
     (let (db, file, tab) = st; (queued, db) = enqueue_lock w db
      in if queued then (Some True, db, file, tab)
         else let (status, db, file) = writeGroup os now (group_batches tab [w]) (db, file)
         in case status of
              None \<Rightarrow> (None, db, file, tab)
            | Some status \<Rightarrow>
              let (db, tab) = enqueue_finish w status (db, tab) in (Some False, db, file, tab))"

text \<open>The predicate the writer thread waits for.\<close>

definition writer_ready :: "DB \<Rightarrow> bool" where
  "writer_ready db \<longleftrightarrow> stopWriter db \<or> (\<not> writing db \<and> writers db \<noteq> [])"

text \<open>The loop that moves the queue into the group.\<close>

fun drain_writers :: "nat list \<Rightarrow> nat list \<Rightarrow> nat list \<times> nat list" where
  "drain_writers grp [] = (grp, [])"
| "drain_writers grp (w # ws) = drain_writers (grp @ [w]) ws"

text \<open>Where the writer thread is between two sections.\<close>

datatype writer_pc =
    AtWait
  | Asleep bool
  | Window u64 nat
  | InGroup "nat list"
  | Wrote "nat list" Status
  | Resuming "nat list"
  | Exited

definition writer_drain :: "DB \<Rightarrow> writer_pc \<times> DB" where
  "writer_drain db =
     (let (grp, rest) = drain_writers [] (writers db)
      in (InGroup grp, db\<lparr>writers := rest, writerThreadDrains := writerThreadDrains db + 1\<rparr>))"

text \<open>The section behind the wait: leave, open the group commit window, or take the group at once.\<close>

definition writer_lock :: "DB \<Rightarrow> writer_pc \<times> DB" where
  "writer_lock db =
     (if stopWriter db \<and> writers db = [] then (Exited, db)
      else let db = db\<lparr>writing := True\<rparr>
      in if groupCommitArmed db \<or> length (writers db) > 1
         then let db = db\<lparr>groupCommitArmed := False, groupCommitWaits := groupCommitWaits db + 1\<rparr>
              in if adaptiveGroupCommit db \<and> length (writers db) \<ge> highPressureGroupCommitQueueThreshold db
                 then (Window (highPressureGroupCommitWindowMicros db) (highPressureGroupCommitTargetSize db),
                       db\<lparr>adaptiveGroupCommitWaits := adaptiveGroupCommitWaits db + 1\<rparr>)
                 else (Window (groupCommitWindowMicros db) (groupCommitTargetSize db), db)
         else writer_drain db)"

text \<open>The section behind \<open>writeGroup\<close>: every member gets the status; the continuations are collected.\<close>

definition set_status :: "Status \<Rightarrow> writer_table \<times> nat list \<Rightarrow> nat \<Rightarrow> writer_table \<times> nat list" where
  "set_status status st w =
     (let (tab, conts) = st; wr = the (tab w)
      in (tab(w \<mapsto> wr\<lparr>w_status := status\<rparr>), if w_continuation wr then conts @ [w] else conts))"

definition writer_finish :: "nat list \<Rightarrow> Status \<Rightarrow> DB \<times> writer_table \<Rightarrow> DB \<times> writer_table" where
  "writer_finish grp status st =
     (let (db, tab) = st;
          db = db\<lparr>continuationsScratch := []\<rparr>;
          db = db\<lparr>writeGroups := writeGroups db + 1,
                  maxWriteGroupSize := max (maxWriteGroupSize db) (of_nat (length grp))\<rparr>;
          (tab, conts) = foldl (set_status status) (tab, continuationsScratch db) grp;
          db = db\<lparr>continuationsScratch := conts\<rparr>;
          db = (if length grp > 1 then db\<lparr>groupCommitArmed := True\<rparr> else db)
      in (db\<lparr>writing := False\<rparr>, tab))"

definition writer_resumed :: "int \<Rightarrow> int \<Rightarrow> DB \<Rightarrow> DB" where
  "writer_resumed resumeStart resumeEnd db =
     (if continuationsScratch db \<noteq> []
      then db\<lparr>writerResumeMicros := writerResumeMicros db + elapsedMicros resumeStart resumeEnd\<rparr> else db)"

lemma drain_writers_eq [simp]: "drain_writers grp ws = (grp @ ws, [])"
  by (induction grp ws rule: drain_writers.induct) auto

section \<open>Callers, the writer thread and the destructor side by side\<close>

text \<open>Where a request is: not yet made, writing its own batch, queued, or answered.\<close>

datatype client_pc =
    Idle
  | InlineGroup
  | InlineWrote Status
  | InlineNotify
  | Suspended
  | Finished Status

datatype dtor_pc = Alive | StopSet | Joining | Closed

record sys =
  s_db :: DB
  s_file :: wal_file
  s_table :: writer_table
  s_clients :: "nat \<Rightarrow> client_pc"
  s_thread :: writer_pc
  s_dtor :: dtor_pc

text \<open>\<open>notify_one\<close> and \<open>notify_all\<close>: only the writer thread ever waits.\<close>

fun wake :: "writer_pc \<Rightarrow> writer_pc" where
  "wake (Asleep _) = Asleep True"
| "wake pc = pc"

text \<open>
  A caller starts a request; the destructor starts, which a program may only do when no thread is
  inside a call; the condition variable wakes up spuriously.
\<close>

fun in_call :: "client_pc \<Rightarrow> bool" where
  "in_call InlineGroup = True"
| "in_call (InlineWrote _) = True"
| "in_call InlineNotify = True"
| "in_call _ = False"

inductive env_step :: "WriteBatch list \<Rightarrow> sys \<Rightarrow> sys \<Rightarrow> bool" for reqs where
  start_empty:
    "s_dtor s = Alive \<Longrightarrow> i < length reqs \<Longrightarrow> s_clients s i = Idle \<Longrightarrow> wr = WriteAwaiter_new (reqs ! i) \<Longrightarrow>
     batch_empty (w_batch wr) \<Longrightarrow>
     env_step reqs s (s\<lparr>s_table := (s_table s)(i \<mapsto> wr), s_clients := (s_clients s)(i := Finished (w_status wr))\<rparr>)"
| start_inline:
    "s_dtor s = Alive \<Longrightarrow> i < length reqs \<Longrightarrow> s_clients s i = Idle \<Longrightarrow> wr = WriteAwaiter_new (reqs ! i) \<Longrightarrow>
     \<not> batch_empty (w_batch wr) \<Longrightarrow> enqueue_lock i (s_db s) = (False, db) \<Longrightarrow>
     env_step reqs s (s\<lparr>s_db := db, s_table := (s_table s)(i \<mapsto> wr\<lparr>w_continuation := True\<rparr>),
                        s_clients := (s_clients s)(i := InlineGroup)\<rparr>)"
| start_queued:
    "s_dtor s = Alive \<Longrightarrow> i < length reqs \<Longrightarrow> s_clients s i = Idle \<Longrightarrow> wr = WriteAwaiter_new (reqs ! i) \<Longrightarrow>
     \<not> batch_empty (w_batch wr) \<Longrightarrow> enqueue_lock i (s_db s) = (True, db) \<Longrightarrow>
     env_step reqs s (s\<lparr>s_db := db, s_table := (s_table s)(i \<mapsto> wr\<lparr>w_continuation := True\<rparr>),
                        s_clients := (s_clients s)(i := Suspended), s_thread := wake (s_thread s)\<rparr>)"
| spurious:
    "s_thread s = Asleep False \<Longrightarrow> env_step reqs s (s\<lparr>s_thread := Asleep True\<rparr>)"
| destroy:
    "s_dtor s = Alive \<Longrightarrow> (\<And>i. \<not> in_call (s_clients s i)) \<Longrightarrow>
     env_step reqs s (s\<lparr>s_db := (s_db s)\<lparr>stopWriter := True\<rparr>, s_dtor := StopSet\<rparr>)"

text \<open>
  What the database does on its own. The label lists the groups written in the step, each with its
  members and its status.
\<close>

type_synonym trace = "(nat list \<times> Status) list"

inductive engine_step :: "os \<Rightarrow> sys \<Rightarrow> trace \<Rightarrow> sys \<Rightarrow> bool" for os where
  inline_write:
    "s_clients s i = InlineGroup \<Longrightarrow>
     writeGroup os now (group_batches (s_table s) [i]) (s_db s, s_file s) = (Some st, db, f) \<Longrightarrow>
     engine_step os s [([i], st)] (s\<lparr>s_db := db, s_file := f, s_clients := (s_clients s)(i := InlineWrote st)\<rparr>)"
| inline_finish:
    "s_clients s i = InlineWrote st \<Longrightarrow> enqueue_finish i st (s_db s, s_table s) = (db, tab) \<Longrightarrow>
     engine_step os s [] (s\<lparr>s_db := db, s_table := tab, s_clients := (s_clients s)(i := InlineNotify)\<rparr>)"
| inline_notify:
    "s_clients s i = InlineNotify \<Longrightarrow>
     engine_step os s [] (s\<lparr>s_thread := wake (s_thread s),
                            s_clients := (s_clients s)(i := Finished (w_status (the (s_table s i))))\<rparr>)"
| writer_go:
    "s_thread s = AtWait \<Longrightarrow> writer_ready (s_db s) \<Longrightarrow> writer_lock (s_db s) = (pc, db) \<Longrightarrow>
     engine_step os s [] (s\<lparr>s_db := db, s_thread := pc\<rparr>)"
| writer_sleep:
    "s_thread s = AtWait \<Longrightarrow> \<not> writer_ready (s_db s) \<Longrightarrow> engine_step os s [] (s\<lparr>s_thread := Asleep False\<rparr>)"
| writer_wake:
    "s_thread s = Asleep True \<Longrightarrow> engine_step os s [] (s\<lparr>s_thread := AtWait\<rparr>)"
| window_over:
    "s_thread s = Window micros target \<Longrightarrow> writer_drain (s_db s) = (pc, db) \<Longrightarrow>
     engine_step os s [] (s\<lparr>s_db := db, s_thread := pc\<rparr>)"
| group_write:
    "s_thread s = InGroup grp \<Longrightarrow>
     writeGroup os now (group_batches (s_table s) grp) (s_db s, s_file s) = (Some st, db, f) \<Longrightarrow>
     engine_step os s [(grp, st)] (s\<lparr>s_db := db, s_file := f, s_thread := Wrote grp st\<rparr>)"
| group_finish:
    "s_thread s = Wrote grp st \<Longrightarrow> writer_finish grp st (s_db s, s_table s) = (db, tab) \<Longrightarrow>
     engine_step os s [] (s\<lparr>s_db := db, s_table := tab, s_thread := Resuming (continuationsScratch db)\<rparr>)"
| resume_one:
    "s_thread s = Resuming (i # is) \<Longrightarrow>
     engine_step os s [] (s\<lparr>s_clients := (s_clients s)(i := Finished (w_status (the (s_table s i)))),
                            s_thread := Resuming is\<rparr>)"
| resume_end:
    "s_thread s = Resuming [] \<Longrightarrow>
     engine_step os s [] (s\<lparr>s_db := writer_resumed t0 t1 (s_db s), s_thread := AtWait\<rparr>)"
| destroy_notify:
    "s_dtor s = StopSet \<Longrightarrow> engine_step os s [] (s\<lparr>s_thread := wake (s_thread s), s_dtor := Joining\<rparr>)"
| destroy_join:
    "s_dtor s = Joining \<Longrightarrow> s_thread s = Exited \<Longrightarrow> engine_step os s [] (s\<lparr>s_dtor := Closed\<rparr>)"

inductive reaches :: "os \<Rightarrow> WriteBatch list \<Rightarrow> sys \<Rightarrow> trace \<Rightarrow> sys \<Rightarrow> bool" for os reqs s0 where
  init: "reaches os reqs s0 [] s0"
| env: "reaches os reqs s0 tr s \<Longrightarrow> env_step reqs s s' \<Longrightarrow> reaches os reqs s0 tr s'"
| engine: "reaches os reqs s0 tr s \<Longrightarrow> engine_step os s ev s' \<Longrightarrow> reaches os reqs s0 (tr @ ev) s'"

text \<open>The state when \<open>Open\<close> has started the writer thread.\<close>

definition sys_new :: "DB \<Rightarrow> wal_file \<Rightarrow> sys" where
  "sys_new db f = \<lparr>s_db = db, s_file = f, s_table = Map.empty, s_clients = (\<lambda>_. Idle), s_thread = AtWait,
     s_dtor = Alive\<rparr>"

definition queue_idle :: "DB \<Rightarrow> bool" where
  "queue_idle db \<longleftrightarrow> \<not> writing db \<and> writers db = [] \<and> \<not> groupCommitArmed db \<and> \<not> stopWriter db"

end
