(* ===== verification/Queue_Safety.thy ===== *)
theory Queue_Safety
  imports Writer_Queue
begin

text \<open>
  The invariants of the writer queue: who owns the database, where the requests are, and that no
  wake-up is lost. Each holds initially and is kept by every step, so by rule induction in every
  reachable state.
\<close>

section \<open>What the sections change\<close>

text \<open>The fields of the queue, which \<open>writeGroup\<close> does not touch.\<close>

definition queue_fields :: "DB \<Rightarrow> nat list \<times> bool \<times> bool \<times> bool \<times> nat list" where
  "queue_fields db = (writers db, writing db, groupCommitArmed db, stopWriter db, continuationsScratch db)"

lemma writeGroup_queue_fields:
  "writeGroup os now bs (db, f) = (res, db', f') \<Longrightarrow> queue_fields db' = queue_fields db"
  by (auto simp: writeGroup_def Let_def queue_fields_def split: prod.splits option.splits if_splits)

lemmas queue_fieldsD = writeGroup_queue_fields [unfolded queue_fields_def prod.inject]

lemma enqueue_lock_queue:
  assumes "enqueue_lock w db = (q, db')"
  shows "q \<longleftrightarrow> writing db \<or> writers db \<noteq> [] \<or> groupCommitArmed db"
    and "writers db' = (if q then writers db @ [w] else [])"
    and "writing db' \<longleftrightarrow> writing db \<or> \<not> q" and "stopWriter db' = stopWriter db"
  using assms by (auto simp: enqueue_lock_def Let_def split: if_splits)

lemma enqueue_finish_queue:
  assumes "enqueue_finish w st (db, tab) = (db', tab')"
  shows "writers db' = writers db" and "\<not> writing db'" and "stopWriter db' = stopWriter db"
    and "tab' = tab(w := map_option (\<lambda>wr. wr\<lparr>w_status := st\<rparr>) (tab w))"
  using assms by (auto simp: enqueue_finish_def Let_def)

lemma writer_drain_queue:
  assumes "writer_drain db = (pc, db')"
  shows "pc = InGroup (writers db)" and "writers db' = []" and "writing db' = writing db"
    and "stopWriter db' = stopWriter db"
  using assms by (auto simp: writer_drain_def Let_def)

lemma writer_lock_queue:
  assumes "writer_lock db = (pc, db')" and "writer_ready db"
  obtains (leave) "pc = Exited" "db' = db" "stopWriter db" "writers db = []"
  | (window) micros target where "pc = Window micros target" "writers db' = writers db" "writers db \<noteq> []"
      "writing db'" "stopWriter db' = stopWriter db"
  | (group) "pc = InGroup (writers db)" "writers db' = []" "writers db \<noteq> []" "writing db'"
      "stopWriter db' = stopWriter db"
  using assms
  by (auto simp: writer_lock_def writer_ready_def Let_def writer_drain_def split: if_splits)

lemma foldl_set_status:
  assumes "\<forall>w \<in> set grp. \<exists>wr. tab w = Some wr \<and> w_continuation wr" and "distinct grp"
  shows "foldl (set_status st) (tab, conts) grp =
    (\<lambda>w. if w \<in> set grp then map_option (\<lambda>wr. wr\<lparr>w_status := st\<rparr>) (tab w) else tab w, conts @ grp)"
  using assms
proof (induction grp arbitrary: tab conts)
  case (Cons w grp)
  then obtain wr where "tab w = Some wr" "w_continuation wr" by auto
  with Cons show ?case by (auto simp: set_status_def Let_def fun_eq_iff)
qed simp

lemma writer_finish_queue:
  assumes "writer_finish grp st (db, tab) = (db', tab')"
    and "\<forall>w \<in> set grp. \<exists>wr. tab w = Some wr \<and> w_continuation wr" and "distinct grp"
  shows "writers db' = writers db" and "\<not> writing db'" and "stopWriter db' = stopWriter db"
    and "continuationsScratch db' = grp"
    and "tab' = (\<lambda>w. if w \<in> set grp then map_option (\<lambda>wr. wr\<lparr>w_status := st\<rparr>) (tab w) else tab w)"
  using assms(1) by (auto simp: writer_finish_def Let_def foldl_set_status [OF assms(2,3)] split: if_splits)

lemma writer_resumed_queue [simp]:
  "queue_fields (writer_resumed t0 t1 db) = queue_fields db"
  "writers (writer_resumed t0 t1 db) = writers db" "writing (writer_resumed t0 t1 db) = writing db"
  "stopWriter (writer_resumed t0 t1 db) = stopWriter db"
  by (simp_all add: writer_resumed_def queue_fields_def)

lemmas queue_sections = enqueue_lock_queue enqueue_finish_queue writer_drain_queue queue_fieldsD

section \<open>Where the requests are\<close>

text \<open>The requests the writer thread has taken from the queue and not yet resumed.\<close>

fun held :: "writer_pc \<Rightarrow> nat list" where
  "held (InGroup grp) = grp"
| "held (Wrote grp _) = grp"
| "held (Resuming is) = is"
| "held _ = []"

definition pending :: "sys \<Rightarrow> nat list" where
  "pending s = writers (s_db s) @ held (s_thread s)"

text \<open>The \<open>Writer\<close> of a request that was made exists and holds its batch.\<close>

fun finished :: "client_pc \<Rightarrow> bool" where
  "finished (Finished _) = True"
| "finished _ = False"

definition client_wf :: "WriteBatch list \<Rightarrow> Writer option \<Rightarrow> client_pc \<Rightarrow> nat \<Rightarrow> bool" where
  "client_wf reqs t pc i \<longleftrightarrow>
     pc = Idle \<or>
     (i < length reqs \<and> (\<exists>wr. t = Some wr \<and> w_batch wr = reqs ! i \<and>
        (finished pc \<or> (entries (reqs ! i) \<noteq> [] \<and> w_continuation wr))))"

text \<open>
  A request is in the queue or with the writer thread, once, exactly while its coroutine is suspended.
\<close>

definition places_inv :: "WriteBatch list \<Rightarrow> sys \<Rightarrow> bool" where
  "places_inv reqs s \<longleftrightarrow>
     distinct (pending s) \<and> (\<forall>i. i \<in> set (pending s) \<longleftrightarrow> s_clients s i = Suspended) \<and>
     (\<forall>i. client_wf reqs (s_table s i) (s_clients s i) i)"

lemma WriteAwaiter_new_simps [simp]:
  "w_batch (WriteAwaiter_new b) = b" "w_status (WriteAwaiter_new b) = Ok"
  by (simp_all add: WriteAwaiter_new_def)

lemma held_wake [simp]: "held (wake pc) = held pc"
  by (cases pc) auto

lemma client_wf_status [simp]:
  "client_wf reqs (map_option (\<lambda>wr. wr\<lparr>w_status := st\<rparr>) t) pc i = client_wf reqs t pc i"
  by (cases t) (auto simp: client_wf_def)

lemma client_wf_move:
  "client_wf reqs t pc i \<Longrightarrow> pc \<noteq> Idle \<Longrightarrow> \<not> finished pc \<or> finished pc' \<Longrightarrow> client_wf reqs t pc' i"
  by (auto simp: client_wf_def)

lemma client_wf_Idle [simp]: "client_wf reqs t Idle i"
  by (simp add: client_wf_def)

lemma places_env:
  assumes "env_step reqs s s'" and "places_inv reqs s"
  shows "places_inv reqs s'"
  using assms(1)
proof cases
  case (start_queued i wr db)
  have "i \<notin> set (pending s)" using assms(2) start_queued(4) by (auto simp: places_inv_def)
  then show ?thesis
    using assms(2) start_queued enqueue_lock_queue(1,2) [OF start_queued(7)]
    by (auto simp: places_inv_def pending_def batch_empty_def client_wf_def)
next
  case (start_inline i wr db)
  then have "writers db = []" "writers (s_db s) = []"
    using enqueue_lock_queue(1,2) [OF start_inline(7)] by auto
  then show ?thesis
    using assms(2) start_inline by (auto simp: places_inv_def pending_def batch_empty_def client_wf_def)
qed (use assms(2) in \<open>auto simp: places_inv_def pending_def batch_empty_def client_wf_def\<close>)

lemma places_waiting:
  assumes "places_inv reqs s" and "i \<in> set (pending s)"
  shows "i < length reqs" and "\<exists>wr. s_table s i = Some wr \<and> w_batch wr = reqs ! i \<and> w_continuation wr"
    and "s_clients s i = Suspended"
proof -
  show c: "s_clients s i = Suspended" using assms by (simp add: places_inv_def)
  have "client_wf reqs (s_table s i) (s_clients s i) i" using assms(1) by (simp add: places_inv_def)
  then show "i < length reqs" "\<exists>wr. s_table s i = Some wr \<and> w_batch wr = reqs ! i \<and> w_continuation wr"
    using c by (auto simp: client_wf_def)
qed

lemma places_group:
  assumes "places_inv reqs s" and "held (s_thread s) = grp"
  shows "\<forall>w \<in> set grp. \<exists>wr. s_table s w = Some wr \<and> w_continuation wr" and "distinct grp"
    and "\<forall>w \<in> set grp. w < length reqs \<and> s_clients s w = Suspended"
    and "group_batches (s_table s) grp = map (\<lambda>i. reqs ! i) grp"
proof -
  have "i \<in> set (pending s)" if "i \<in> set grp" for i using that assms(2) by (simp add: pending_def)
  note all = places_waiting [OF assms(1) this]
  then show "\<forall>w \<in> set grp. \<exists>wr. s_table s w = Some wr \<and> w_continuation wr"
    "\<forall>w \<in> set grp. w < length reqs \<and> s_clients s w = Suspended"
    "group_batches (s_table s) grp = map (\<lambda>i. reqs ! i) grp"
    by (fastforce simp: group_batches_def)+
  show "distinct grp" using assms by (simp add: places_inv_def pending_def)
qed

lemma clients_engine:
  assumes "engine_step os s ev s'" and "places_inv reqs s"
  shows "client_wf reqs (s_table s' i) (s_clients s' i) i"
proof -
  have wf: "client_wf reqs (s_table s j) (s_clients s j) j" for j
    using assms(2) by (simp add: places_inv_def)
  show ?thesis
    using assms(1)
  proof cases
    case (inline_write j now st db f)
    then show ?thesis using wf client_wf_move [OF wf [of j], of "InlineWrote st"] by simp
  next
    case (inline_finish j st db tab)
    then show ?thesis
      using wf client_wf_move [OF wf [of j], of InlineNotify] enqueue_finish_queue(4) [OF inline_finish(4)] by simp
  next
    case (inline_notify j)
    then show ?thesis using wf client_wf_move [OF wf [of j]] by simp
  next
    case (group_finish grp st db tab)
    then have "held (s_thread s) = grp" by simp
    from writer_finish_queue(5) [OF group_finish(4) places_group(1,2) [OF assms(2) this]]
    show ?thesis using wf group_finish by simp
  next
    case (resume_one j js)
    then have "s_clients s j = Suspended" using places_group(3) [OF assms(2), of "j # js"] by simp
    then show ?thesis using wf resume_one client_wf_move [OF wf [of j]] by simp
  qed (use wf in simp_all)
qed

lemma places_engine:
  assumes "engine_step os s ev s'" and "places_inv reqs s"
  shows "places_inv reqs s'"
proof -
  have "distinct (pending s') \<and> (\<forall>i. i \<in> set (pending s') \<longleftrightarrow> s_clients s' i = Suspended)"
    using assms(1)
  proof cases
    case (inline_write i now st db f)
    then show ?thesis
      using assms(2) queue_fieldsD [OF inline_write(4)] by (auto simp: places_inv_def pending_def)
  next
    case (inline_finish i st db tab)
    then show ?thesis
      using assms(2) enqueue_finish_queue(1) [OF inline_finish(4)] by (auto simp: places_inv_def pending_def)
  next
    case (writer_go pc db)
    show ?thesis
      using writer_go(5,4)
      by (cases rule: writer_lock_queue) (use assms(2) writer_go in \<open>simp_all add: places_inv_def pending_def\<close>)
  next
    case (window_over micros target pc db)
    then show ?thesis
      using assms(2) writer_drain_queue [OF window_over(4)] by (simp add: places_inv_def pending_def)
  next
    case (group_write grp now st db f)
    then show ?thesis
      using assms(2) queue_fieldsD [OF group_write(4)] by (simp add: places_inv_def pending_def)
  next
    case (group_finish grp st db tab)
    then have "held (s_thread s) = grp" by simp
    from writer_finish_queue(1,4) [OF group_finish(4) places_group(1,2) [OF assms(2) this]]
    show ?thesis using assms(2) group_finish by (simp add: places_inv_def pending_def)
  qed (use assms(2) in \<open>auto simp: places_inv_def pending_def\<close>)
  then show ?thesis using clients_engine [OF assms] by (simp add: places_inv_def)
qed

section \<open>Who owns the database\<close>

fun thread_owns :: "writer_pc \<Rightarrow> bool" where
  "thread_owns (Window _ _) = True"
| "thread_owns (InGroup _) = True"
| "thread_owns (Wrote _ _) = True"
| "thread_owns _ = False"

fun client_owns :: "client_pc \<Rightarrow> bool" where
  "client_owns InlineGroup = True"
| "client_owns (InlineWrote _) = True"
| "client_owns _ = False"

definition owner_inv :: "sys \<Rightarrow> bool" where
  "owner_inv s \<longleftrightarrow>
     (writing (s_db s) \<longleftrightarrow> thread_owns (s_thread s) \<or> (\<exists>i. client_owns (s_clients s i))) \<and>
     (thread_owns (s_thread s) \<longrightarrow> (\<forall>i. \<not> client_owns (s_clients s i))) \<and>
     (\<forall>i j. client_owns (s_clients s i) \<longrightarrow> client_owns (s_clients s j) \<longrightarrow> i = j)"

text \<open>
  The destructor: after it has begun, no thread is inside a call. The writer thread leaves only when it
  was told to and the queue is empty.
\<close>

definition stop_inv :: "sys \<Rightarrow> bool" where
  "stop_inv s \<longleftrightarrow>
     (stopWriter (s_db s) \<longleftrightarrow> s_dtor s \<noteq> Alive) \<and>
     (s_dtor s \<noteq> Alive \<longrightarrow> (\<forall>i. \<not> in_call (s_clients s i))) \<and>
     (s_thread s = Exited \<longrightarrow> s_dtor s \<noteq> Alive \<and> writers (s_db s) = []) \<and>
     (s_dtor s = Closed \<longrightarrow> s_thread s = Exited)"

text \<open>
  No lost wake-up: when the thread sleeps with nothing to wake it, it has nothing to do, or somebody
  is about to notify it.
\<close>

definition wake_inv :: "sys \<Rightarrow> bool" where
  "wake_inv s \<longleftrightarrow>
     (s_thread s = Asleep False \<longrightarrow>
        \<not> writer_ready (s_db s) \<or> (\<exists>i. s_clients s i = InlineNotify) \<or> s_dtor s = StopSet)"

lemma wake_simps [simp]:
  "thread_owns (wake pc) = thread_owns pc" "wake pc = Exited \<longleftrightarrow> pc = Exited" "wake pc \<noteq> Asleep False"
  by (cases pc; simp)+

lemma in_call_owns: "client_owns pc \<Longrightarrow> in_call pc"
  by (cases pc) auto

lemma owner_free:
  "owner_inv s \<Longrightarrow> \<not> writing (s_db s) \<longleftrightarrow> \<not> thread_owns (s_thread s) \<and> (\<forall>i. \<not> client_owns (s_clients s i))"
  by (auto simp: owner_inv_def)

lemma owner_client:
  assumes "owner_inv s" and "client_owns (s_clients s i)"
  shows "writing (s_db s)" and "\<not> thread_owns (s_thread s)" and "client_owns (s_clients s j) \<longleftrightarrow> j = i"
  using assms by (auto simp: owner_inv_def)

text \<open>The two ways to establish the invariant again: one owner, or none.\<close>

lemma owner_invI_client:
  assumes "writing (s_db s)" and "\<not> thread_owns (s_thread s)" and "\<And>j. client_owns (s_clients s j) \<longleftrightarrow> j = i"
  shows "owner_inv s"
  using assms by (simp add: owner_inv_def)

lemma owner_invI:
  assumes "writing (s_db s) \<longleftrightarrow> thread_owns (s_thread s)" and "\<And>j. \<not> client_owns (s_clients s j)"
  shows "owner_inv s"
  using assms by (simp add: owner_inv_def)

text \<open>A step that changes neither the flag nor who owns the database.\<close>

lemma owner_same:
  assumes "owner_inv s" and "writing (s_db s') = writing (s_db s)" and "thread_owns (s_thread s') = thread_owns (s_thread s)"
    and "\<And>j. client_owns (s_clients s' j) = client_owns (s_clients s j)"
  shows "owner_inv s'"
  using assms by (simp add: owner_inv_def)

lemma owner_env:
  assumes "env_step reqs s s'" and "owner_inv s"
  shows "owner_inv s'"
  using assms(1)
proof cases
  case (start_inline i wr db)
  note lock = enqueue_lock_queue [OF start_inline(7)]
  then have "\<not> writing (s_db s)" by simp
  then have "\<not> thread_owns (s_thread s)" "\<forall>i. \<not> client_owns (s_clients s i)"
    using owner_free [OF assms(2)] by simp_all
  then show ?thesis
    using start_inline lock(3) by (intro owner_invI_client [of _ i]) simp_all
next
  case (start_queued i wr db)
  then show ?thesis
    using enqueue_lock_queue(3) [OF start_queued(7)] by (intro owner_same [OF assms(2)]) simp_all
qed (rule owner_same [OF assms(2)]; simp)+

lemma owner_engine:
  assumes "engine_step os s ev s'" and "owner_inv s" and "stop_inv s" and "places_inv reqs s"
  shows "owner_inv s'"
  using assms(1)
proof cases
  case (inline_write i now st db f)
  then show ?thesis
    using queue_fieldsD [OF inline_write(4)] by (intro owner_same [OF assms(2)]) simp_all
next
  case (inline_finish i st db tab)
  then have "client_owns (s_clients s i)" by simp
  note own = owner_client [OF assms(2) this]
  then show ?thesis
    using inline_finish enqueue_finish_queue(2) [OF inline_finish(4)] by (intro owner_invI) simp_all
next
  case (writer_go pc db)
  have "\<not> client_owns (s_clients s i)" for i
  proof (cases "stopWriter (s_db s)")
    case True
    then show ?thesis using assms(3) in_call_owns by (auto simp: stop_inv_def)
  next
    case False
    then show ?thesis using owner_free [OF assms(2)] writer_go(4) by (simp add: writer_ready_def)
  qed
  then have none: "\<not> client_owns (s_clients s' i)" for i using writer_go by simp
  have w: "\<not> writing (s_db s)" using none owner_free [OF assms(2)] writer_go by simp
  show ?thesis
    using writer_go(5,4)
    by (cases rule: writer_lock_queue; intro owner_invI; use none w writer_go in simp)
next
  case (window_over micros target pc db)
  then show ?thesis
    using writer_drain_queue [OF window_over(4)] by (intro owner_same [OF assms(2)]) simp_all
next
  case (group_write grp now st db f)
  then show ?thesis
    using queue_fieldsD [OF group_write(4)] by (intro owner_same [OF assms(2)]) simp_all
next
  case (group_finish grp st db tab)
  then have "\<not> client_owns (s_clients s i)" for i using assms(2) by (simp add: owner_inv_def)
  moreover have "\<not> writing db" using group_finish(4) by (auto simp: writer_finish_def Let_def split: prod.splits)
  ultimately show ?thesis using group_finish by (intro owner_invI) simp_all
next
  case (resume_one i js)
  then have "s_clients s i = Suspended" using places_group(3) [OF assms(4), of "i # js"] by simp
  then show ?thesis using resume_one by (intro owner_same [OF assms(2)]) simp_all
qed (rule owner_same [OF assms(2)]; simp)+

lemma stop_env:
  assumes "env_step reqs s s'" and "stop_inv s"
  shows "stop_inv s'"
  using assms(1)
proof cases
  case (start_inline i wr db)
  then show ?thesis
    using assms(2) enqueue_lock_queue(4) [OF start_inline(7)] by (auto simp: stop_inv_def)
next
  case (start_queued i wr db)
  then show ?thesis
    using assms(2) enqueue_lock_queue(4) [OF start_queued(7)] by (auto simp: stop_inv_def)
qed (use assms(2) in \<open>auto simp: stop_inv_def\<close>)

lemma stop_client: "stop_inv s \<Longrightarrow> in_call (s_clients s i) \<Longrightarrow> s_dtor s = Alive"
  by (auto simp: stop_inv_def)

lemma stop_engine:
  assumes "engine_step os s ev s'" and "stop_inv s"
  shows "stop_inv s'"
  using assms(1)
proof cases
  case (inline_write i now st db f)
  then have "s_dtor s = Alive" using stop_client [OF assms(2), of i] by simp
  then show ?thesis
    using inline_write assms(2) queue_fieldsD [OF inline_write(4)] by (simp add: stop_inv_def)
next
  case (inline_finish i st db tab)
  then have "s_dtor s = Alive" using stop_client [OF assms(2), of i] by simp
  then show ?thesis
    using inline_finish assms(2) enqueue_finish_queue(1,3) [OF inline_finish(4)] by (simp add: stop_inv_def)
next
  case (writer_go pc db)
  show ?thesis
    using writer_go(5,4)
    by (cases rule: writer_lock_queue) (use assms(2) writer_go in \<open>auto simp: stop_inv_def\<close>)
next
  case (window_over micros target pc db)
  then show ?thesis
    using assms(2) writer_drain_queue [OF window_over(4)] by (auto simp: stop_inv_def)
next
  case (group_write grp now st db f)
  then show ?thesis
    using assms(2) queue_fieldsD [OF group_write(4)] by (auto simp: stop_inv_def)
next
  case (group_finish grp st db tab)
  then show ?thesis
    using assms(2) by (auto simp: stop_inv_def writer_finish_def Let_def split: prod.splits if_splits)
next
  case (resume_one i js)
  then show ?thesis using assms(2) by (auto simp: stop_inv_def)
qed (use assms(2) in \<open>auto simp: stop_inv_def\<close>)

lemma wake_keep:
  assumes "wake_inv s" and "s_thread s' = Asleep False \<Longrightarrow> s_thread s = Asleep False"
    and "writer_ready (s_db s') \<Longrightarrow> writer_ready (s_db s)" and "s_dtor s' = s_dtor s"
    and "\<And>j. s_clients s j = InlineNotify \<Longrightarrow> s_clients s' j = InlineNotify"
  shows "wake_inv s'"
  using assms unfolding wake_inv_def by metis

lemma wake_env:
  assumes "env_step reqs s s'" and "wake_inv s"
  shows "wake_inv s'"
  using assms(1)
proof cases
  case (start_inline i wr db)
  then show ?thesis
    using enqueue_lock_queue [OF start_inline(7)]
    by (intro wake_keep [OF assms(2)]) (auto simp: writer_ready_def)
next
  case (start_empty i wr)
  then show ?thesis by (intro wake_keep [OF assms(2)]) auto
qed (use assms(2) in \<open>auto simp: wake_inv_def\<close>)

lemma wake_engine:
  assumes "engine_step os s ev s'" and "wake_inv s"
  shows "wake_inv s'"
  using assms(1)
proof cases
  case (inline_write i now st db f)
  then show ?thesis
    using queue_fieldsD [OF inline_write(4)]
    by (intro wake_keep [OF assms(2)]) (auto simp: writer_ready_def)
next
  case (inline_finish i st db tab)
  then have "s_clients s' i = InlineNotify" by simp
  then show ?thesis unfolding wake_inv_def by blast
next
  case (writer_go pc db)
  show ?thesis
    using writer_go(5,4)
    by (cases rule: writer_lock_queue) (use writer_go in \<open>auto simp: wake_inv_def\<close>)
next
  case (window_over micros target pc db)
  then show ?thesis using writer_drain_queue(1) [OF window_over(4)] by (simp add: wake_inv_def)
next
  case destroy_join
  then show ?thesis by (simp add: wake_inv_def)
qed (simp_all add: wake_inv_def)

text \<open>The thread never opens a window or takes a group for nothing.\<close>

fun busy :: "nat list \<Rightarrow> writer_pc \<Rightarrow> bool" where
  "busy ws (InGroup grp) \<longleftrightarrow> grp \<noteq> []"
| "busy ws (Window _ _) \<longleftrightarrow> ws \<noteq> []"
| "busy ws _ \<longleftrightarrow> True"

definition busy_inv :: "sys \<Rightarrow> bool" where
  "busy_inv s \<longleftrightarrow> busy (writers (s_db s)) (s_thread s)"

lemma busy_wake [simp]: "busy ws (wake pc) = busy ws pc"
  by (cases pc) auto

lemma busy_free: "\<not> thread_owns pc \<Longrightarrow> busy ws pc"
  by (cases pc) auto

lemma busy_more: "busy ws pc \<Longrightarrow> busy (ws @ vs) pc"
  by (cases pc) auto

lemma busy_env:
  assumes "env_step reqs s s'" and "busy_inv s" and "owner_inv s"
  shows "busy_inv s'"
  using assms(1)
proof cases
  case (start_inline i wr db)
  then have "\<not> thread_owns (s_thread s)"
    using enqueue_lock_queue(1) [OF start_inline(7)] owner_free [OF assms(3)] by simp
  then show ?thesis using start_inline by (simp add: busy_inv_def busy_free)
next
  case (start_queued i wr db)
  then show ?thesis
    using assms(2) enqueue_lock_queue(2) [OF start_queued(7)] by (simp add: busy_inv_def busy_more)
qed (use assms(2) in \<open>simp_all add: busy_inv_def\<close>)

lemma busy_engine:
  assumes "engine_step os s ev s'" and "busy_inv s"
  shows "busy_inv s'"
  using assms(1)
proof cases
  case (inline_write i now st db f)
  then show ?thesis
    using assms(2) queue_fieldsD [OF inline_write(4)] by (simp add: busy_inv_def)
next
  case (inline_finish i st db tab)
  then show ?thesis
    using assms(2) enqueue_finish_queue(1) [OF inline_finish(4)] by (simp add: busy_inv_def)
next
  case (writer_go pc db)
  show ?thesis
    using writer_go(5,4)
    by (cases rule: writer_lock_queue) (use writer_go in \<open>simp_all add: busy_inv_def\<close>)
next
  case (window_over micros target pc db)
  then show ?thesis
    using assms(2) writer_drain_queue(1) [OF window_over(4)] by (simp add: busy_inv_def)
qed (use assms(2) in \<open>simp_all add: busy_inv_def\<close>)

section \<open>Every reachable state\<close>

definition queue_inv :: "WriteBatch list \<Rightarrow> sys \<Rightarrow> bool" where
  "queue_inv reqs s \<longleftrightarrow> places_inv reqs s \<and> owner_inv s \<and> stop_inv s \<and> wake_inv s \<and> busy_inv s"

lemma queue_inv_new: "queue_idle db \<Longrightarrow> queue_inv reqs (sys_new db f)"
  by (simp add: queue_inv_def sys_new_def queue_idle_def places_inv_def pending_def owner_inv_def stop_inv_def
      wake_inv_def busy_inv_def)

lemma queue_inv_env: "env_step reqs s s' \<Longrightarrow> queue_inv reqs s \<Longrightarrow> queue_inv reqs s'"
  by (simp add: queue_inv_def places_env owner_env stop_env wake_env busy_env)

lemma queue_inv_engine: "engine_step os s ev s' \<Longrightarrow> queue_inv reqs s \<Longrightarrow> queue_inv reqs s'"
  unfolding queue_inv_def by (blast intro: places_engine owner_engine stop_engine wake_engine busy_engine)

lemma reaches_queue_inv:
  assumes "reaches os reqs s0 tr s" and "queue_inv reqs s0"
  shows "queue_inv reqs s"
  using assms by induction (auto intro: queue_inv_env queue_inv_engine)

end
