(* ===== verification/Queue_Progress.thy ===== *)
theory Queue_Progress
  imports Queue_Safety
begin

text \<open>
  What the writer queue achieves: every request is in one group and gets the status of that group, the
  groups in their order are the log, and the database on its own always comes to rest with every
  request answered.
\<close>

section \<open>Every request gets the status of its group\<close>

text \<open>The answers of a trace, and the answer a request has been given so far.\<close>

definition answers :: "trace \<Rightarrow> (nat \<times> Status) list" where
  "answers tr = concat (map (\<lambda>(grp, st). map (\<lambda>i. (i, st)) grp) tr)"

fun thread_answer :: "writer_pc \<Rightarrow> nat \<Rightarrow> Status \<Rightarrow> Status option" where
  "thread_answer (Wrote grp st) i _ = (if i \<in> set grp then Some st else None)"
| "thread_answer (Resuming is) i st = (if i \<in> set is then Some st else None)"
| "thread_answer _ _ _ = None"

fun client_answer :: "writer_pc \<Rightarrow> nat \<Rightarrow> Status \<Rightarrow> client_pc \<Rightarrow> Status option" where
  "client_answer _ i st (InlineWrote st') = Some st'"
| "client_answer _ i st InlineNotify = Some st"
| "client_answer pc i st Suspended = thread_answer pc i st"
| "client_answer _ i st (Finished st') = Some st'"
| "client_answer _ i st _ = None"

definition answer :: "sys \<Rightarrow> nat \<Rightarrow> Status option" where
  "answer s i = client_answer (s_thread s) i (w_status (the (s_table s i))) (s_clients s i)"

lemma answers_simps [simp]:
  "answers [] = []" "answers (tr @ tr') = answers tr @ answers tr'" "answers [(grp, st)] = map (\<lambda>i. (i, st)) grp"
  by (simp_all add: answers_def)

lemma map_of_group [simp]: "map_of (map (\<lambda>i. (i, st)) grp) i = (if i \<in> set grp then Some st else None)"
  by (induction grp) auto

lemma thread_answer_wake [simp]: "thread_answer (wake pc) = thread_answer pc"
  by (cases pc) (auto simp: fun_eq_iff)

lemma client_answer_wake [simp]: "client_answer (wake pc) i st cl = client_answer pc i st cl"
  by (cases cl) auto

text \<open>Only a thread that has written a group and not yet resumed its members has answers to give.\<close>

lemma client_answer_quiet [simp]:
  "client_answer (Asleep b) i st cl = client_answer AtWait i st cl"
  "client_answer (Window m t) i st cl = client_answer AtWait i st cl"
  "client_answer (InGroup grp) i st cl = client_answer AtWait i st cl"
  "client_answer (Resuming []) i st cl = client_answer AtWait i st cl"
  "client_answer Exited i st cl = client_answer AtWait i st cl"
  by (cases cl; simp)+

lemma client_answer_other [simp]:
  "i \<noteq> j \<Longrightarrow> client_answer (Resuming (j # js)) i st cl = client_answer (Resuming js) i st cl"
  "i \<notin> set js \<Longrightarrow> client_answer (Resuming js) i st cl = client_answer AtWait i st cl"
  "i \<notin> set grp \<Longrightarrow> client_answer (Wrote grp st') i st cl = client_answer AtWait i st cl"
  by (cases cl; simp)+

lemma client_wf_unfinished:
  "client_wf reqs t pc i \<Longrightarrow> pc \<noteq> Idle \<Longrightarrow> \<not> finished pc \<Longrightarrow> entries (reqs ! i) \<noteq> [] \<and> i < length reqs"
  by (auto simp: client_wf_def)

lemma answer_env:
  assumes "env_step reqs s s'" and "queue_inv reqs s" and "entries (reqs ! i) \<noteq> []"
  shows "answer s' i = answer s i"
  using assms(1)
proof cases
  case (start_queued j wr db)
  have "j \<notin> set (held (s_thread s))"
    using assms(2) start_queued(4) by (auto simp: queue_inv_def places_inv_def pending_def)
  then have "thread_answer (s_thread s) j st = None" for st by (cases "s_thread s") auto
  then show ?thesis using start_queued by (simp add: answer_def)
next
  case (spurious)
  then show ?thesis by (simp add: answer_def)
qed (use assms(3) in \<open>auto simp: answer_def batch_empty_def\<close>)

text \<open>A step gives an answer to exactly the members of the group it wrote, who had none before.\<close>

lemma answer_engine:
  assumes "engine_step os s ev s'" and "queue_inv reqs s"
  shows "answer s' i = (case answer s i of None \<Rightarrow> map_of (answers ev) i | Some st \<Rightarrow> Some st)"
    and "i \<in> fst ` set (answers ev) \<Longrightarrow> answer s i = None \<and> entries (reqs ! i) \<noteq> [] \<and> i < length reqs"
    and "distinct (map fst (answers ev))" and "ev = [] \<or> (\<exists>grp st. ev = [(grp, st)] \<and> grp \<noteq> [])"
proof -
  have pl: "places_inv reqs s" and busy: "busy_inv s" using assms(2) by (simp_all add: queue_inv_def)
  have wf: "client_wf reqs (s_table s j) (s_clients s j) j" for j using pl by (simp add: places_inv_def)
  have "(\<forall>i. answer s' i = (case answer s i of None \<Rightarrow> map_of (answers ev) i | Some st \<Rightarrow> Some st)) \<and>
    (\<forall>i \<in> fst ` set (answers ev). answer s i = None \<and> entries (reqs ! i) \<noteq> [] \<and> i < length reqs) \<and>
    distinct (map fst (answers ev)) \<and> (ev = [] \<or> (\<exists>grp st. ev = [(grp, st)] \<and> grp \<noteq> []))"
    using assms(1)
  proof cases
    case (inline_write j now st db f)
    then show ?thesis using wf [of j] by (auto simp: answer_def client_wf_def split: option.splits)
  next
    case (inline_finish j st db tab)
    obtain wr where "s_table s j = Some wr" using wf [of j] inline_finish(3) by (auto simp: client_wf_def)
    then show ?thesis
      using inline_finish enqueue_finish_queue(4) [OF inline_finish(4)] by (auto simp: answer_def split: option.splits)
  next
    case (writer_go pc db)
    show ?thesis
      using writer_go(5,4)
      by (cases rule: writer_lock_queue)
         (use writer_go in \<open>auto simp: answer_def split: option.splits\<close>)
  next
    case (window_over micros target pc db)
    then show ?thesis
      using writer_drain_queue(1) [OF window_over(4)]
      by (auto simp: answer_def split: option.splits)
  next
    case (group_write grp now st db f)
    then have "held (s_thread s) = grp" by simp
    note grp = places_group(2,3) [OF pl this]
    then have "\<forall>i \<in> set grp. s_clients s i = Suspended \<and> entries (reqs ! i) \<noteq> [] \<and> i < length reqs"
      using client_wf_unfinished [OF wf] by auto
    then show ?thesis
      using group_write busy grp(1) by (auto simp: answer_def busy_inv_def comp_def split: option.splits)
  next
    case (group_finish grp st db tab)
    then have "held (s_thread s) = grp" by simp
    note grp = places_group [OF pl this]
    note fin = writer_finish_queue(4,5) [OF group_finish(4) grp(1,2)]
    have "answer s' i = answer s i" for i
      using group_finish fin grp(1,3) by (cases "i \<in> set grp") (auto simp: answer_def)
    then show ?thesis using group_finish by (auto split: option.splits)
  next
    case (resume_one j js)
    then have "s_clients s j = Suspended" using places_group(3) [OF pl, of "j # js"] by simp
    then show ?thesis
      using resume_one by (auto simp: answer_def split: option.splits)
  qed (auto simp: answer_def split: option.splits)
  note all = this
  show "answer s' i = (case answer s i of None \<Rightarrow> map_of (answers ev) i | Some st \<Rightarrow> Some st)"
    using conjunct1 [OF all] by (rule spec)
  show "answer s i = None \<and> entries (reqs ! i) \<noteq> [] \<and> i < length reqs" if "i \<in> fst ` set (answers ev)"
    using conjunct1 [OF conjunct2 [OF all]] that by (rule bspec)
  show "distinct (map fst (answers ev))" "ev = [] \<or> (\<exists>grp st. ev = [(grp, st)] \<and> grp \<noteq> [])"
    using conjunct2 [OF conjunct2 [OF all]] by (rule conjunct1, rule conjunct2)
qed

definition trace_inv :: "WriteBatch list \<Rightarrow> trace \<Rightarrow> sys \<Rightarrow> bool" where
  "trace_inv reqs tr s \<longleftrightarrow>
     distinct (map fst (answers tr)) \<and> (\<forall>g \<in> set tr. fst g \<noteq> []) \<and>
     (\<forall>i \<in> fst ` set (answers tr). i < length reqs \<and> entries (reqs ! i) \<noteq> []) \<and>
     (\<forall>i. entries (reqs ! i) \<noteq> [] \<longrightarrow> answer s i = map_of (answers tr) i)"

lemma trace_invD:
  assumes "trace_inv reqs tr s"
  shows "distinct (map fst (answers tr))" and "\<forall>g \<in> set tr. fst g \<noteq> []"
    and "\<forall>i \<in> fst ` set (answers tr). i < length reqs \<and> entries (reqs ! i) \<noteq> []"
    and "entries (reqs ! i) \<noteq> [] \<Longrightarrow> answer s i = map_of (answers tr) i"
  using assms by (simp_all add: trace_inv_def)

lemma trace_inv_engine:
  assumes "engine_step os s ev s'" and "queue_inv reqs s" and "trace_inv reqs tr s"
  shows "trace_inv reqs (tr @ ev) s'"
proof -
  note step = answer_engine [OF assms(1,2)] and inv = trace_invD [OF assms(3)]
  have "i \<notin> fst ` set (answers tr)" if "i \<in> fst ` set (answers ev)" for i
  proof -
    have "answer s i = None" "entries (reqs ! i) \<noteq> []" using step(2) [OF that] by simp_all
    with inv(4) have "map_of (answers tr) i = None" by simp
    then show ?thesis by (simp add: map_of_eq_None_iff)
  qed
  then have "set (map fst (answers tr)) \<inter> set (map fst (answers ev)) = {}" by auto
  then have "distinct (map fst (answers (tr @ ev)))"
    using step(3) inv(1) by simp
  moreover have "answer s' i = map_of (answers (tr @ ev)) i" if "entries (reqs ! i) \<noteq> []" for i
    using inv(4) [OF that] step(1) [of i] by (simp add: map_add_def split: option.splits)
  moreover have "\<forall>g \<in> set (tr @ ev). fst g \<noteq> []" using inv(2) step(4) by auto
  moreover have "\<forall>i \<in> fst ` set (answers (tr @ ev)). i < length reqs \<and> entries (reqs ! i) \<noteq> []"
    using inv(3) step(2) by (simp only: answers_simps set_append image_Un ball_Un) blast
  ultimately show ?thesis unfolding trace_inv_def by blast
qed

lemma reaches_trace_inv:
  assumes "reaches os reqs (sys_new db f) tr s" and "queue_idle db"
  shows "queue_inv reqs s \<and> trace_inv reqs tr s"
  using assms
proof induction
  case init
  then show ?case using queue_inv_new [of db reqs f] by (simp add: trace_inv_def answer_def sys_new_def)
next
  case (env tr s s')
  then show ?case using queue_inv_env [of reqs s s'] answer_env [of reqs s s'] by (simp add: trace_inv_def)
next
  case (engine tr s ev s')
  then show ?case using queue_inv_engine [of os s ev s'] trace_inv_engine [of os s ev s'] by simp
qed

text \<open>A request with nothing to write is answered at once, with success.\<close>

definition empty_answered :: "WriteBatch list \<Rightarrow> sys \<Rightarrow> bool" where
  "empty_answered reqs s \<longleftrightarrow> (\<forall>i st. s_clients s i = Finished st \<longrightarrow> entries (reqs ! i) = [] \<longrightarrow> st = Ok)"

lemma empty_answered_env: "env_step reqs s s' \<Longrightarrow> empty_answered reqs s \<Longrightarrow> empty_answered reqs s'"
  by (erule env_step.cases) (auto simp: empty_answered_def)

lemma empty_answered_engine:
  assumes "engine_step os s ev s'" and "queue_inv reqs s" and "empty_answered reqs s"
  shows "empty_answered reqs s'"
proof -
  have pl: "places_inv reqs s" using assms(2) by (simp add: queue_inv_def)
  have wf: "client_wf reqs (s_table s i) (s_clients s i) i" for i using pl by (simp add: places_inv_def)
  have unfinished: "entries (reqs ! i) \<noteq> []" if "s_clients s i \<in> {InlineNotify, Suspended}" for i
    using wf [of i] that by (auto simp: client_wf_def)
  have resumed: "s_clients s i = Suspended" if "i \<in> set (held (s_thread s))" for i
    using pl that by (auto simp: places_inv_def pending_def)
  from assms(1) show ?thesis
    using assms(3) unfinished resumed by cases (fastforce simp: empty_answered_def)+
qed

lemma reaches_empty_answered:
  assumes "reaches os reqs (sys_new db f) tr s" and "queue_idle db"
  shows "empty_answered reqs s"
  using assms
proof induction
  case init
  show ?case by (simp add: empty_answered_def sys_new_def)
next
  case (env tr s s')
  then show ?case using empty_answered_env by blast
next
  case (engine tr s ev s')
  then show ?case using reaches_trace_inv [OF engine(1)] empty_answered_engine by blast
qed

section \<open>The groups are the log\<close>

text \<open>The entries the acknowledged groups of a trace wrote, in order.\<close>

definition committed :: "WriteBatch list \<Rightarrow> trace \<Rightarrow> Entry list" where
  "committed reqs tr =
     concat (map (\<lambda>(grp, st). if ok st then group_entries (map (\<lambda>i. reqs ! i) grp) else []) tr)"

text \<open>
  The requests fit the formats behind \<open>n\<close> bytes of log: the count of a record, and the offsets of the log.
\<close>

definition requests_fit :: "nat \<Rightarrow> WriteBatch list \<Rightarrow> bool" where
  "requests_fit n reqs \<longleftrightarrow>
     (\<forall>b \<in> set reqs. batch_wf b) \<and> (\<Sum>b \<leftarrow> reqs. length (entries b)) < 2 ^ 32 \<and>
     n + (\<Sum>b \<leftarrow> reqs. EncodedBatchSize [b]) < 2 ^ 64"

definition trace_size :: "WriteBatch list \<Rightarrow> trace \<Rightarrow> nat" where
  "trace_size reqs tr = (\<Sum>(grp, st) \<leftarrow> tr. EncodedBatchSize (map (\<lambda>i. reqs ! i) grp))"

lemma EncodedBatchSize_Cons:
  "bs \<noteq> [] \<Longrightarrow> EncodedBatchSize (b # bs) \<le> EncodedBatchSize [b] + EncodedBatchSize bs"
  by (simp add: EncodedBatchSize_eq [of _ 0] group_entries_def wal_simps)

lemma EncodedBatchSize_sum: "bs \<noteq> [] \<Longrightarrow> EncodedBatchSize bs \<le> (\<Sum>b \<leftarrow> bs. EncodedBatchSize [b])"
proof (induction bs)
  case (Cons b bs)
  then show ?case using EncodedBatchSize_Cons [of bs b] by (cases "bs = []") auto
qed simp

lemma sum_list_distinct_le:
  assumes "distinct is" and "\<forall>i \<in> set is. i < length xs"
  shows "(\<Sum>i \<leftarrow> is. f (xs ! i)) \<le> (\<Sum>x \<leftarrow> xs. f x :: nat)"
proof -
  have "(\<Sum>i \<leftarrow> is. f (xs ! i)) = (\<Sum>i \<in> set is. f (xs ! i))" using assms(1) by (rule sum_list_distinct_conv_sum_set)
  also have "\<dots> \<le> (\<Sum>i \<in> {0..<length xs}. f (xs ! i))" using assms(2) by (intro sum_mono2) auto
  also have "\<dots> = (\<Sum>x \<leftarrow> xs. f x)" by (simp add: sum_list_sum_nth)
  finally show ?thesis .
qed

definition members :: "trace \<Rightarrow> nat list" where
  "members tr = concat (map fst tr)"

lemma map_fst_answers: "map fst (answers tr) = members tr"
  by (induction tr) (auto simp: answers_def members_def comp_def)

lemma trace_size_le:
  "\<forall>g \<in> set tr. fst g \<noteq> [] \<Longrightarrow> trace_size reqs tr \<le> (\<Sum>i \<leftarrow> members tr. EncodedBatchSize [reqs ! i])"
proof (induction tr)
  case (Cons g tr)
  then show ?case
    using EncodedBatchSize_sum [of "map (\<lambda>i. reqs ! i) (fst g)"]
    by (auto simp: trace_size_def members_def case_prod_beta comp_def)
qed (simp add: trace_size_def members_def)

text \<open>Groups of different requests, however they are formed, fit the formats when the requests do.\<close>

lemma groups_fit:
  assumes "requests_fit n reqs" and "\<forall>g \<in> set (tr @ [(grp, st)]). fst g \<noteq> []"
    and "distinct (members (tr @ [(grp, st)]))" and "\<forall>i \<in> set (members (tr @ [(grp, st)])). i < length reqs"
  shows "length (group_entries (map (\<lambda>i. reqs ! i) grp)) < 2 ^ 32"
    and "entries_wf (group_entries (map (\<lambda>i. reqs ! i) grp))"
    and "n + trace_size reqs tr + EncodedBatchSize (map (\<lambda>i. reqs ! i) grp) < 2 ^ 64"
proof -
  have grp: "distinct grp" "\<forall>i \<in> set grp. i < length reqs" using assms(3,4) by (auto simp: members_def)
  have "length (group_entries (map (\<lambda>i. reqs ! i) grp)) = (\<Sum>i \<leftarrow> grp. length (entries (reqs ! i)))"
    by (simp add: group_entries_def length_concat comp_def)
  also have "\<dots> \<le> (\<Sum>b \<leftarrow> reqs. length (entries b))" by (rule sum_list_distinct_le [OF grp])
  finally show "length (group_entries (map (\<lambda>i. reqs ! i) grp)) < 2 ^ 32"
    using assms(1) by (simp add: requests_fit_def)
  show "entries_wf (group_entries (map (\<lambda>i. reqs ! i) grp))"
    using assms(1) grp(2) by (auto simp: requests_fit_def entries_wf_def batch_wf_def group_entries_def)
  have "trace_size reqs (tr @ [(grp, st)]) \<le> (\<Sum>i \<leftarrow> members (tr @ [(grp, st)]). EncodedBatchSize [reqs ! i])"
    by (rule trace_size_le [OF assms(2)])
  also have "\<dots> \<le> (\<Sum>b \<leftarrow> reqs. EncodedBatchSize [b])" by (rule sum_list_distinct_le [OF assms(3,4)])
  finally show "n + trace_size reqs tr + EncodedBatchSize (map (\<lambda>i. reqs ! i) grp) < 2 ^ 64"
    using assms(1) by (simp add: requests_fit_def trace_size_def)
qed

text \<open>The fields the log invariant and the device depend on, which the sections of the queue leave alone.\<close>

definition store_fields :: "DB \<Rightarrow> MemTable \<times> PendingUpdates \<times> u64 \<times> State option" where
  "store_fields db = (memtable db, memtableUpdates (writeScratch db), walOffset db, executor db)"

lemma enqueue_lock_store: "enqueue_lock w db = (q, db') \<Longrightarrow> store_fields db' = store_fields db"
  by (auto simp: enqueue_lock_def store_fields_def Let_def split: if_splits)

lemma enqueue_finish_store: "enqueue_finish w st (db, tab) = (db', tab') \<Longrightarrow> store_fields db' = store_fields db"
  by (auto simp: enqueue_finish_def store_fields_def)

lemma writer_lock_store: "writer_lock db = (pc, db') \<Longrightarrow> store_fields db' = store_fields db"
  by (auto simp: writer_lock_def writer_drain_def store_fields_def Let_def split: if_splits)

lemma writer_drain_store: "writer_drain db = (pc, db') \<Longrightarrow> store_fields db' = store_fields db"
  by (auto simp: writer_drain_def store_fields_def)

lemma writer_finish_store: "writer_finish grp st (db, tab) = (db', tab') \<Longrightarrow> store_fields db' = store_fields db"
  by (auto simp: writer_finish_def store_fields_def Let_def split: if_splits prod.splits)

lemma writer_resumed_store: "store_fields (writer_resumed t0 t1 db) = store_fields db"
  by (simp add: writer_resumed_def store_fields_def)

lemma db_inv_store:
  "store_fields db' = store_fields db \<Longrightarrow> db_inv os log (db', f) = db_inv os log (db, f) \<and> executor db' = executor db"
  by (simp add: db_inv_def store_fields_def)

text \<open>
  The executor stays usable as long as every submission was accepted. A kernel may refuse one; the group then fails,
  and the entries it left in the queue are submitted with those of the next group. So what happens behind a
  refused submission is not covered: either no submission is refused, or no group has failed so far.
\<close>

definition accepted :: "kernel \<Rightarrow> trace \<Rightarrow> bool" where
  "accepted k tr \<longleftrightarrow> enter_accepts k \<or> (\<forall>ev \<in> set tr. ok (snd ev))"

lemma accepted_butlast: "accepted k tr \<Longrightarrow> accepted k (butlast tr)"
  by (auto simp: accepted_def dest: in_set_butlastD)

definition store_inv :: "os \<Rightarrow> (u64 \<times> Entry list) list \<Rightarrow> WriteBatch list \<Rightarrow> trace \<Rightarrow> sys \<Rightarrow> bool" where
  "store_inv os log0 reqs tr s \<longleftrightarrow>
     (accepted (os_kernel os) tr \<longrightarrow> executor_ready (executor (s_db s))) \<and>
     (accepted (os_kernel os) (butlast tr) \<longrightarrow>
       (\<exists>log. db_inv os (log0 @ log) (s_db s, s_file s) \<and> concat (map snd log) = committed reqs tr \<and>
          length (log_bytes log) \<le> trace_size reqs tr))"

lemma store_invD:
  assumes "store_inv os log0 reqs tr s" and "accepted (os_kernel os) tr"
  obtains log where "executor_ready (executor (s_db s))" "db_inv os (log0 @ log) (s_db s, s_file s)"
    "concat (map snd log) = committed reqs tr" "length (log_bytes log) \<le> trace_size reqs tr"
  using assms accepted_butlast [OF assms(2)] by (auto simp: store_inv_def)

lemma store_inv_same:
  "store_inv os log0 reqs tr s \<Longrightarrow> store_fields (s_db s') = store_fields (s_db s) \<Longrightarrow> s_file s' = s_file s \<Longrightarrow>
   store_inv os log0 reqs tr s'"
  using db_inv_store [of "s_db s'" "s_db s"] by (simp add: store_inv_def)

text \<open>Writing a group extends the log by its record, or leaves the log as it was.\<close>

lemma store_inv_write:
  assumes "os_documented os" and "accepted (os_kernel os) tr" and "store_inv os log0 reqs tr s"
    and "length (group_entries (map (\<lambda>i. reqs ! i) grp)) < 2 ^ 32"
    and "entries_wf (group_entries (map (\<lambda>i. reqs ! i) grp))"
    and "length (log_bytes log0) + trace_size reqs tr + EncodedBatchSize (map (\<lambda>i. reqs ! i) grp) < 2 ^ 64"
    and "writeGroup os now (map (\<lambda>i. reqs ! i) grp) (s_db s, s_file s) = (res, db, f)"
  shows "\<exists>st. res = Some st \<and>
    (s_db s' = db \<longrightarrow> s_file s' = f \<longrightarrow> store_inv os log0 reqs (tr @ [(grp, st)]) s')"
proof -
  let ?bs = "map (\<lambda>i. reqs ! i) grp"
  obtain log where log: "db_inv os (log0 @ log) (s_db s, s_file s)" "concat (map snd log) = committed reqs tr"
    "length (log_bytes log) \<le> trace_size reqs tr" and ready: "executor_ready (executor (s_db s))"
    using store_invD [OF assms(3,2)] by blast
  have size: "EncodedBatchSize ?bs = length (record_bytes (nextSequence (s_db s)) (group_entries ?bs))"
    by (rule EncodedBatchSize_eq)
  have room: "length (log_bytes (log0 @ log)) + length (record_bytes (nextSequence (s_db s)) (group_entries ?bs)) < 2 ^ 64"
    using log(3) assms(6) size by (simp add: log_bytes_def)
  note step = writeGroup_cases [OF assms(1,4,5) log(1) ready room assms(7)]
  obtain st where st: "res = Some st" using step(1) by blast
  have tr: "committed reqs (tr @ [(grp, st)]) = committed reqs tr @ (if ok st then group_entries ?bs else [])"
    "trace_size reqs (tr @ [(grp, st)]) = trace_size reqs tr + EncodedBatchSize ?bs"
    by (simp_all add: committed_def trace_size_def)
  have "\<exists>log. db_inv os (log0 @ log) (db, f) \<and> concat (map snd log) = committed reqs (tr @ [(grp, st)]) \<and>
    length (log_bytes log) \<le> trace_size reqs (tr @ [(grp, st)])"
  proof (cases "ok st")
    case True
    then have "db_inv os (log0 @ log @ [(nextSequence (s_db s), group_entries ?bs)]) (db, f)" using step(1) st by auto
    then show ?thesis
      using True log(2,3) tr size by (intro exI [of _ "log @ [(nextSequence (s_db s), group_entries ?bs)]"]) simp
  next
    case False
    then have "db_inv os (log0 @ log) (db, f)" using step(1) st by auto
    then show ?thesis using False log(2,3) tr by (intro exI [of _ log]) simp
  qed
  moreover have "executor_ready (executor db)" if "accepted (os_kernel os) (tr @ [(grp, st)])"
    using that step(1,2) st by (auto simp: accepted_def)
  ultimately show ?thesis using st by (simp add: store_inv_def)
qed

text \<open>A group that is about to be written, by the thread or by a caller.\<close>

definition at_write :: "sys \<Rightarrow> nat list \<Rightarrow> bool" where
  "at_write s grp \<longleftrightarrow> s_thread s = InGroup grp \<or> (\<exists>i. grp = [i] \<and> s_clients s i = InlineGroup)"

lemma at_write_members:
  assumes "queue_inv reqs s" and "at_write s grp"
  shows "grp \<noteq> []" and "distinct grp" and "group_batches (s_table s) grp = map (\<lambda>i. reqs ! i) grp"
    and "\<forall>i \<in> set grp. answer s i = None \<and> entries (reqs ! i) \<noteq> [] \<and> i < length reqs"
proof -
  have pl: "places_inv reqs s" and busy: "busy_inv s" using assms(1) by (simp_all add: queue_inv_def)
  have wf: "client_wf reqs (s_table s i) (s_clients s i) i" for i using pl by (simp add: places_inv_def)
  have "grp \<noteq> [] \<and> distinct grp \<and> group_batches (s_table s) grp = map (\<lambda>i. reqs ! i) grp \<and>
    (\<forall>i \<in> set grp. s_clients s i \<in> {Suspended, InlineGroup} \<and> answer s i = None)"
  proof (cases "s_thread s = InGroup grp")
    case True
    then have "held (s_thread s) = grp" by simp
    note grp = places_group [OF pl this]
    then show ?thesis using True busy by (auto simp: busy_inv_def answer_def)
  next
    case False
    then obtain i where "grp = [i]" "s_clients s i = InlineGroup" using assms(2) by (auto simp: at_write_def)
    then show ?thesis using wf [of i] by (auto simp: answer_def client_wf_def group_batches_def)
  qed
  then show "grp \<noteq> []" "distinct grp" "group_batches (s_table s) grp = map (\<lambda>i. reqs ! i) grp"
    "\<forall>i \<in> set grp. answer s i = None \<and> entries (reqs ! i) \<noteq> [] \<and> i < length reqs"
    using client_wf_unfinished [OF wf] by auto
qed

lemma at_write_fits:
  assumes "queue_inv reqs s" and "trace_inv reqs tr s" and "requests_fit n reqs" and "at_write s grp"
  shows "length (group_entries (map (\<lambda>i. reqs ! i) grp)) < 2 ^ 32"
    and "entries_wf (group_entries (map (\<lambda>i. reqs ! i) grp))"
    and "n + trace_size reqs tr + EncodedBatchSize (map (\<lambda>i. reqs ! i) grp) < 2 ^ 64"
proof -
  note grp = at_write_members [OF assms(1,4)] and inv = trace_invD [OF assms(2)]
  have "i \<notin> fst ` set (answers tr)" if "i \<in> set grp" for i
    using grp(4) inv(4) [of i] that by (metis map_of_eq_None_iff)
  then have "i \<notin> set (members tr)" if "i \<in> set grp" for i
    using that by (metis map_fst_answers set_map)
  moreover have "\<forall>i \<in> set (members tr). i < length reqs" using inv(3) by (metis map_fst_answers set_map)
  ultimately have "\<forall>g \<in> set (tr @ [(grp, Ok)]). fst g \<noteq> []" "distinct (members (tr @ [(grp, Ok)]))"
    "\<forall>i \<in> set (members (tr @ [(grp, Ok)])). i < length reqs"
    using grp(1,2,4) inv(1,2) unfolding map_fst_answers by (auto simp: members_def)
  from groups_fit [OF assms(3) this]
  show "length (group_entries (map (\<lambda>i. reqs ! i) grp)) < 2 ^ 32"
    "entries_wf (group_entries (map (\<lambda>i. reqs ! i) grp))"
    "n + trace_size reqs tr + EncodedBatchSize (map (\<lambda>i. reqs ! i) grp) < 2 ^ 64" .
qed

lemma store_inv_env:
  assumes "env_step reqs s s'" and "store_inv os log0 reqs tr s"
  shows "store_inv os log0 reqs tr s'"
  using assms(1)
  by cases (auto intro!: store_inv_same [OF assms(2)] dest: enqueue_lock_store simp: store_fields_def)

lemma store_inv_at_write:
  assumes "os_documented os" and "accepted (os_kernel os) tr" and "requests_fit (length (log_bytes log0)) reqs"
    and "queue_inv reqs s" and "trace_inv reqs tr s" and "store_inv os log0 reqs tr s" and "at_write s grp"
    and "writeGroup os now (group_batches (s_table s) grp) (s_db s, s_file s) = (res, db, f)"
  shows "\<exists>st. res = Some st \<and>
    (s_db s' = db \<longrightarrow> s_file s' = f \<longrightarrow> store_inv os log0 reqs (tr @ [(grp, st)]) s')"
  using store_inv_write [OF assms(1,2,6) at_write_fits [OF assms(4,5,3,7)]] assms(8)
    at_write_members(3) [OF assms(4,7)] by simp

lemma store_inv_wrote:
  assumes "os_documented os" and "requests_fit (length (log_bytes log0)) reqs"
    and "queue_inv reqs s" and "trace_inv reqs tr s" and "store_inv os log0 reqs tr s" and "at_write s grp"
    and "writeGroup os now (group_batches (s_table s) grp) (s_db s, s_file s) = (Some st, s_db s', s_file s')"
  shows "store_inv os log0 reqs (tr @ [(grp, st)]) s'"
proof (cases "accepted (os_kernel os) tr")
  case True
  from store_inv_at_write [OF assms(1) True assms(2-7), of s'] show ?thesis by simp
next
  case False
  then show ?thesis using accepted_butlast [of "os_kernel os" "tr @ [(grp, st)]"] by (auto simp: store_inv_def)
qed

lemma store_inv_engine:
  assumes "os_documented os" and "requests_fit (length (log_bytes log0)) reqs"
    and "queue_inv reqs s" and "trace_inv reqs tr s" and "store_inv os log0 reqs tr s" and "engine_step os s ev s'"
  shows "store_inv os log0 reqs (tr @ ev) s'"
  using assms(6)
proof cases
  case (inline_write i now st db f)
  then have "at_write s [i]" by (simp add: at_write_def)
  from store_inv_wrote [OF assms(1-5) this, of now st s'] show ?thesis using inline_write by simp
next
  case (group_write grp now st db f)
  then have "at_write s grp" by (simp add: at_write_def)
  from store_inv_wrote [OF assms(1-5) this, of now st s'] show ?thesis using group_write by simp
qed (auto intro!: store_inv_same [OF assms(5)] simp: writer_resumed_store
     dest: enqueue_finish_store writer_lock_store writer_drain_store writer_finish_store)

lemma reaches_store_inv:
  assumes "os_documented os" and "requests_fit (length (log_bytes log0)) reqs"
    and "queue_idle db" and "db_inv os log0 (db, f)" and "executor_ready (executor db)"
    and "reaches os reqs (sys_new db f) tr s"
  shows "queue_inv reqs s \<and> trace_inv reqs tr s \<and> store_inv os log0 reqs tr s"
  using assms(6)
proof induction
  case init
  have "store_inv os log0 reqs [] (sys_new db f)"
    using assms(4,5) by (auto simp: store_inv_def sys_new_def committed_def trace_size_def intro!: exI [of _ "[]"])
  then show ?case using reaches_trace_inv [OF reaches.init assms(3)] by blast
next
  case (env tr s s')
  then show ?case
    using reaches_trace_inv [OF reaches.env [OF env(1,2)] assms(3)] store_inv_env by blast
next
  case (engine tr s ev s')
  then show ?case
    using reaches_trace_inv [OF reaches.engine [OF engine(1,2)] assms(3)] store_inv_engine [OF assms(1,2)] by blast
qed

text \<open>
  The file ends where the log ends, and the disk has all of it. A database that starts that way stays that way as
  long as no group fails; a group that fails may leave bytes behind the log.
\<close>

definition clean :: "sys \<Rightarrow> bool" where
  "clean s \<longleftrightarrow> stable (s_file s) = content (s_file s) \<and> length (content (s_file s)) = unat (walOffset (s_db s))"

lemma clean_same:
  "clean s \<Longrightarrow> store_fields (s_db s') = store_fields (s_db s) \<Longrightarrow> s_file s' = s_file s \<Longrightarrow> clean s'"
  by (simp add: clean_def store_fields_def)

lemma clean_env: "env_step reqs s s' \<Longrightarrow> clean s \<Longrightarrow> clean s'"
  by (erule env_step.cases) (auto elim!: clean_same dest: enqueue_lock_store simp: store_fields_def)

lemma clean_wrote:
  assumes "os_documented os" and "accepted (os_kernel os) tr" and "requests_fit (length (log_bytes log0)) reqs"
    and "queue_inv reqs s" and "trace_inv reqs tr s" and "store_inv os log0 reqs tr s" and "at_write s grp"
    and "writeGroup os now (group_batches (s_table s) grp) (s_db s, s_file s) = (Some st, s_db s', s_file s')"
    and "ok st" and "clean s"
  shows "clean s'"
proof -
  let ?bs = "map (\<lambda>i. reqs ! i) grp"
  note fits = at_write_fits [OF assms(4,5,3,7)]
  obtain log where log: "executor_ready (executor (s_db s))" "db_inv os (log0 @ log) (s_db s, s_file s)"
    "length (log_bytes log) \<le> trace_size reqs tr"
    using store_invD [OF assms(6,2)] by metis
  let ?log = "(log0 @ log) @ [(nextSequence (s_db s), group_entries ?bs)]"
  have "length (log_bytes (log0 @ log)) + length (record_bytes (nextSequence (s_db s)) (group_entries ?bs)) < 2 ^ 64"
    using log(3) fits(3) EncodedBatchSize_eq [of ?bs "nextSequence (s_db s)"] by (simp add: log_bytes_def)
  from writeGroup_cases(1) [OF assms(1) fits(1,2) log(2,1) this] assms(8,9) at_write_members(3) [OF assms(4,7)]
  have new: "db_inv os ?log (s_db s', s_file s')" "stable (s_file s') = content (s_file s')"
    "content (s_file s') = log_bytes ?log @ drop (length (log_bytes ?log)) (content (s_file s))" by fastforce+
  have "length (content (s_file s)) = length (log_bytes (log0 @ log))"
    using assms(10) log(2) by (simp add: clean_def db_inv_def)
  then have "content (s_file s') = log_bytes ?log" using new(3) by (simp add: log_bytes_def)
  then show ?thesis using new(1,2) by (simp add: clean_def db_inv_def)
qed

lemma clean_engine:
  assumes "os_documented os" and "requests_fit (length (log_bytes log0)) reqs"
    and "queue_inv reqs s" and "trace_inv reqs tr s" and "store_inv os log0 reqs tr s" and "engine_step os s ev s'"
    and "clean s" and "\<forall>g \<in> set (tr @ ev). ok (snd g)"
  shows "clean s'"
proof -
  have acc: "accepted (os_kernel os) tr" using assms(8) by (simp add: accepted_def)
  from assms(6) show ?thesis
  proof cases
    case (inline_write i now st db f)
    then have "at_write s [i]" by (simp add: at_write_def)
    from clean_wrote [OF assms(1) acc assms(2-5) this, of now st s'] show ?thesis using inline_write assms(7,8) by simp
  next
    case (group_write grp now st db f)
    then have "at_write s grp" by (simp add: at_write_def)
    from clean_wrote [OF assms(1) acc assms(2-5) this, of now st s'] show ?thesis using group_write assms(7,8) by simp
  qed (auto intro!: clean_same [OF assms(7)] simp: writer_resumed_store
       dest: enqueue_finish_store writer_lock_store writer_drain_store writer_finish_store)
qed

lemma reaches_clean:
  assumes "os_documented os" and "requests_fit (length (log_bytes log0)) reqs"
    and "queue_idle db" and "db_inv os log0 (db, f)" and "executor_ready (executor db)"
    and "reaches os reqs (sys_new db f) tr s" and "clean (sys_new db f)" and "\<forall>g \<in> set tr. ok (snd g)"
  shows "clean s"
  using assms(6,8)
proof induction
  case init
  show ?case by (rule assms(7))
next
  case (env tr s s')
  then show ?case using clean_env by blast
next
  case (engine tr s ev s')
  then show ?case
    using reaches_store_inv [OF assms(1-5) engine(1)] clean_engine [OF assms(1,2) _ _ _ engine(2)] by auto
qed

section \<open>The database comes to rest with every request answered\<close>

text \<open>
  The work the database still has to do on its own: every step of it makes this number smaller. A queued
  request weighs more than one in the group, that one more than one that only has to be resumed.
\<close>

fun thread_work :: "writer_pc \<Rightarrow> nat" where
  "thread_work AtWait = 5"
| "thread_work (Asleep notified) = (if notified then 6 else 0)"
| "thread_work (Window _ _) = 4"
| "thread_work (InGroup grp) = 10 * length grp + 13"
| "thread_work (Wrote grp _) = 10 * length grp + 12"
| "thread_work (Resuming is) = 10 * length is + 11"
| "thread_work Exited = 0"

fun client_work :: "client_pc \<Rightarrow> nat" where
  "client_work InlineGroup = 12"
| "client_work (InlineWrote _) = 11"
| "client_work InlineNotify = 10"
| "client_work _ = 0"

fun dtor_work :: "dtor_pc \<Rightarrow> nat" where
  "dtor_work StopSet = 8"
| "dtor_work Joining = 1"
| "dtor_work _ = 0"

definition work :: "WriteBatch list \<Rightarrow> sys \<Rightarrow> nat" where
  "work reqs s = 20 * length (writers (s_db s)) + thread_work (s_thread s) + dtor_work (s_dtor s) +
     (\<Sum>i < length reqs. client_work (s_clients s i))"

lemma thread_work_wake: "thread_work (wake pc) \<le> thread_work pc + 6"
  by (cases pc) auto

lemma client_work_upd:
  assumes "i < (n :: nat)"
  shows "(\<Sum>j < n. client_work ((cl(i := pc)) j)) + client_work (cl i) = (\<Sum>j < n. client_work (cl j)) + client_work pc"
proof -
  have "(\<Sum>j < n. client_work ((cl(i := pc)) j)) = client_work pc + (\<Sum>j \<in> {..<n} - {i}. client_work (cl j))"
    using assms by (subst sum.remove [of _ i]) auto
  moreover have "(\<Sum>j < n. client_work (cl j)) = client_work (cl i) + (\<Sum>j \<in> {..<n} - {i}. client_work (cl j))"
    using assms by (subst sum.remove [of _ i]) auto
  ultimately show ?thesis by simp
qed

lemma engine_step_work:
  assumes "engine_step os s ev s'" and "queue_inv reqs s"
  shows "work reqs s' < work reqs s"
proof -
  have pl: "places_inv reqs s" and busy: "busy_inv s" using assms(2) by (simp_all add: queue_inv_def)
  have len: "i < length reqs" if "s_clients s i \<noteq> Idle" for i
    using pl that by (auto simp: places_inv_def client_wf_def)
  show ?thesis
    using assms(1)
  proof cases
    case (inline_write i now st db f)
    then show ?thesis
      using client_work_upd [OF len, of i "s_clients s" "InlineWrote st"] queue_fieldsD [OF inline_write(4)]
      by (simp add: work_def)
  next
    case (inline_finish i st db tab)
    then show ?thesis
      using client_work_upd [OF len, of i "s_clients s" InlineNotify] enqueue_finish_queue(1) [OF inline_finish(4)]
      by (simp add: work_def)
  next
    case (inline_notify i)
    then show ?thesis
      using client_work_upd [OF len, of i "s_clients s" "Finished (w_status (the (s_table s i)))"]
        thread_work_wake [of "s_thread s"] by (simp add: work_def)
  next
    case (writer_go pc db)
    show ?thesis
      using writer_go(5,4)
      by (cases rule: writer_lock_queue)
         (use writer_go in \<open>simp_all add: work_def neq_Nil_conv, auto\<close>)
  next
    case (window_over micros target pc db)
    then have "length (writers (s_db s)) \<ge> 1" using busy by (simp add: busy_inv_def Suc_le_eq)
    then show ?thesis
      using window_over writer_drain_queue [OF window_over(4)] by (simp add: work_def)
  next
    case (group_write grp now st db f)
    then show ?thesis using queue_fieldsD [OF group_write(4)] by (simp add: work_def)
  next
    case (group_finish grp st db tab)
    then have "held (s_thread s) = grp" by simp
    from writer_finish_queue(1,4) [OF group_finish(4) places_group(1,2) [OF pl this]]
    show ?thesis using group_finish by (simp add: work_def)
  next
    case (resume_one i js)
    then have "s_clients s i = Suspended" using places_group(3) [OF pl, of "i # js"] by simp
    then show ?thesis
      using resume_one client_work_upd [OF len, of i "s_clients s" "Finished (w_status (the (s_table s i)))"]
      by (simp add: work_def)
  next
    case destroy_notify
    then show ?thesis using thread_work_wake [of "s_thread s"] by (simp add: work_def)
  qed (simp_all add: work_def)
qed

text \<open>When nothing is left to do, nobody waits.\<close>

lemma thread_at_rest:
  assumes "\<And>ev s'. \<not> engine_step os s ev s'" and "\<And>grp. s_thread s \<noteq> InGroup grp"
  shows "s_thread s = Asleep False \<or> s_thread s = Exited"
proof (cases "s_thread s")
  case AtWait
  obtain pc db where "writer_lock (s_db s) = (pc, db)" by fastforce
  then show ?thesis using AtWait assms(1) engine_step.writer_go engine_step.writer_sleep by blast
next
  case (Asleep b)
  then show ?thesis using assms(1) engine_step.writer_wake by (metis (full_types))
next
  case (Window m t)
  obtain pc db where "writer_drain (s_db s) = (pc, db)" by fastforce
  then show ?thesis using Window assms(1) engine_step.window_over by blast
next
  case (Wrote grp st)
  obtain db tab where "writer_finish grp st (s_db s, s_table s) = (db, tab)" by fastforce
  then show ?thesis using Wrote assms(1) engine_step.group_finish by blast
next
  case (Resuming js)
  then show ?thesis
    using assms(1) engine_step.resume_one engine_step.resume_end by (cases js) blast+
qed (use assms(2) in auto)

lemma at_rest:
  assumes "\<And>ev s'. \<not> engine_step os s ev s'" and "queue_inv reqs s" and "\<And>grp. \<not> at_write s grp"
  shows "s_clients s i = Idle \<or> finished (s_clients s i)" and "s_dtor s = Alive \<or> s_dtor s = Closed"
proof -
  have inv: "places_inv reqs s" "owner_inv s" "stop_inv s" "wake_inv s" using assms(2) by (simp_all add: queue_inv_def)
  have no_wrote: "s_clients s j \<noteq> InlineWrote st" for j st
    using assms(1) engine_step.inline_finish by (metis surj_pair)
  have no_notify: "s_clients s j \<noteq> InlineNotify" for j
    using assms(1) engine_step.inline_notify by blast
  have no_group: "s_clients s j \<noteq> InlineGroup" "s_thread s \<noteq> InGroup grp" for j grp
    using assms(3) by (auto simp: at_write_def)
  have rest: "s_thread s = Asleep False \<or> s_thread s = Exited"
    by (rule thread_at_rest [OF assms(1) no_group(2)])
  have dtor: "s_dtor s \<noteq> StopSet" "s_dtor s = Joining \<Longrightarrow> s_thread s = Asleep False"
    using assms(1) engine_step.destroy_notify engine_step.destroy_join rest by blast+
  have "\<not> client_owns (s_clients s j)" for j
    using no_wrote no_group(1) by (cases "s_clients s j") auto
  then have "\<not> writing (s_db s)" using owner_free [OF inv(2)] rest by auto
  then have idle: "writers (s_db s) = [] \<and> (s_dtor s = Alive \<or> s_dtor s = Closed)"
    using rest inv(3,4) no_notify dtor by (cases "s_dtor s") (auto simp: stop_inv_def wake_inv_def writer_ready_def)
  then have "pending s = []" using rest by (auto simp: pending_def)
  then have "s_clients s i \<noteq> Suspended" using inv(1) by (auto simp: places_inv_def)
  then show "s_clients s i = Idle \<or> finished (s_clients s i)"
    using no_wrote no_notify no_group(1) by (cases "s_clients s i") auto
  show "s_dtor s = Alive \<or> s_dtor s = Closed" using idle by simp
qed

end
