(* ===== verification/DB_Api.thy ===== *)
theory DB_Api
  imports Queue_Progress
begin

text \<open>
  \<open>src/src/db.cc\<close>: the public operations \<open>PutAsync\<close>, \<open>DeleteAsync\<close>, \<open>WriteAsync\<close>, \<open>GetAsync\<close> and their synchronous
  forms, as the calling thread runs them. The result is \<^const>\<open>None\<close> when the coroutine is suspended: then
  the writer thread resumes it (theory \<open>Queue_Progress\<close>). The argument \<open>w\<close> is the address of the \<open>Writer\<close> in the
  frame of the call.
\<close>

section \<open>Definitions\<close>

definition co_await_write ::
  "os \<Rightarrow> (nat \<Rightarrow> int) \<Rightarrow> nat \<Rightarrow> WriteBatch \<Rightarrow> DB \<times> wal_file \<times> writer_table \<Rightarrow>
   Status option \<times> DB \<times> wal_file \<times> writer_table" where
  "co_await_write os now w input st =
     (let (db, file, tab) = st; wr = WriteAwaiter_new input
      in if batch_empty (w_batch wr) then (Some (w_status wr), db, file, tab(w \<mapsto> wr))
         else case enqueueAsyncWriter os now w (db, file, tab(w \<mapsto> wr\<lparr>w_continuation := True\<rparr>)) of
                (Some False, db, file, tab) \<Rightarrow> (Some (w_status (the (tab w))), db, file, tab)
              | (_, st) \<Rightarrow> (None, st))"

definition PutAsync where
  "PutAsync os now w k v st = co_await_write os now w (Put WriteBatch_new k v) st"

definition DeleteAsync where
  "DeleteAsync os now w k st = co_await_write os now w (Delete WriteBatch_new k) st"

text \<open>The parameter of \<open>WriteAsync\<close> is a copy of the caller's batch.\<close>

definition WriteAsync where
  "WriteAsync os now w b st = co_await_write os now w (WriteBatch_copy b) st"

definition GetAsync :: "os \<Rightarrow> DB \<Rightarrow> bytes \<Rightarrow> bytes Result" where
  "GetAsync os db k = DB_Get os db k"

text \<open>The synchronous forms: \<open>run\<close> hands out what the coroutine returned, as theory \<open>Task_Coroutine\<close> shows.\<close>

definition DB_Put where
  "DB_Put os now w k v st = PutAsync os now w k v st"

definition DB_Delete where
  "DB_Delete os now w k st = DeleteAsync os now w k st"

definition DB_Write where
  "DB_Write os now w b st = WriteAsync os now w b st"

section \<open>An operation on a database nobody else writes to\<close>

lemma enqueue_lock_idle:
  assumes "queue_idle db"
  shows "\<exists>db'. enqueue_lock w db = (False, db') \<and> store_fields db' = store_fields db \<and>
    nextSequence db' = nextSequence db \<and> writers db' = [] \<and> \<not> groupCommitArmed db' \<and> \<not> stopWriter db'"
  using assms by (simp add: enqueue_lock_def queue_idle_def store_fields_def Let_def)

text \<open>
  A write that finds the queue idle commits its batch as one record and leaves the queue idle, or
  reports an error and changes nothing.
\<close>

lemma co_await_write_idle:
  assumes "os_documented os" and "enter_accepts (os_kernel os)"
    and "entries b \<noteq> []" and "length (entries b) < 2 ^ 32" and "batch_wf b"
    and "queue_idle db" and "db_inv os log (db, f)" and "executor_ready (executor db)"
    and "length (log_bytes log) + length (record_bytes (nextSequence db) (entries b)) < 2 ^ 64"
    and "co_await_write os now w b (db, f, tab) = (res, db', f', tab')"
  shows "\<exists>s. res = Some s \<and> queue_idle db' \<and> executor_ready (executor db') \<and>
      db_inv os (if ok s then log @ [(nextSequence db, entries b)] else log) (db', f')"
    and "full_writes (os_kernel os) \<Longrightarrow> length (record_bytes (nextSequence db) (entries b)) \<le> max_rw_count \<Longrightarrow>
      res = Some Ok"
proof -
  obtain db1 where lock: "enqueue_lock w db = (False, db1)" "store_fields db1 = store_fields db"
    "nextSequence db1 = nextSequence db" "writers db1 = []" "\<not> groupCommitArmed db1" "\<not> stopWriter db1"
    using enqueue_lock_idle [OF assms(6)] by blast
  have es: "group_entries [b] = entries b" by (simp add: group_entries_def)
  obtain res2 db2 f2 where run: "writeGroup os now [b] (db1, f) = (res2, db2, f2)" by (metis prod_cases3)
  have inv: "db_inv os log (db1, f)" "executor_ready (executor db1)"
    using assms(7,8) db_inv_store [OF lock(2)] by simp_all
  have wf: "length (group_entries [b]) < 2 ^ 32" "entries_wf (group_entries [b])"
    "length (log_bytes log) + length (record_bytes (nextSequence db1) (group_entries [b])) < 2 ^ 64"
    using assms(4,5,9) by (simp_all add: es lock(3) entries_wf_def batch_wf_def)
  note step = writeGroup_cases [OF assms(1) wf(1,2) inv wf(3) run]
  obtain s where s: "res2 = Some s" using step(1) by blast
  obtain db3 tab3 where fin: "enqueue_finish w s (db2, tab(w \<mapsto> (WriteAwaiter_new b)\<lparr>w_continuation := True\<rparr>)) = (db3, tab3)"
    by fastforce
  have "group_batches (tab(w \<mapsto> (WriteAwaiter_new b)\<lparr>w_continuation := True\<rparr>)) [w] = [b]"
    by (simp add: group_batches_def)
  then have out: "res = Some s" "db' = db3" "f' = f2"
    using assms(3,10) lock(1) run s fin enqueue_finish_queue(4) [OF fin]
    by (auto simp: co_await_write_def enqueueAsyncWriter_def batch_empty_def)
  have q: "queue_idle db3"
    using enqueue_finish_queue [OF fin] queue_fieldsD [OF run] lock(4-6) fin
    by (auto simp: queue_idle_def enqueue_finish_def)
  have "db_inv os (if ok s then log @ [(nextSequence db, entries b)] else log) (db2, f2)"
    using step(1) s by (auto simp: es lock(3))
  then show "\<exists>s. res = Some s \<and> queue_idle db' \<and> executor_ready (executor db') \<and>
      db_inv os (if ok s then log @ [(nextSequence db, entries b)] else log) (db', f')"
    using out q step(2) [OF assms(2)] db_inv_store [OF enqueue_finish_store [OF fin]] by simp
  show "res = Some Ok" if "full_writes (os_kernel os)" "length (record_bytes (nextSequence db) (entries b)) \<le> max_rw_count"
    using step(3) [OF assms(2) that(1)] that(2) out(1) s by (simp add: es lock(3))
qed

end
