(* ===== verification/Queue_Properties.thy ===== *)
theory Queue_Properties
  imports DB_Api DB_Properties
begin

text \<open>
  What the database promises to concurrent callers: one group at a time, every request written at most once
  and answered with the status of its group, the acknowledged groups in their order as the content, and that
  nobody waits forever.
\<close>

section \<open>Runs of the database\<close>

text \<open>A caller finds the database free, writes its batch and is answered.\<close>

lemma queue_idle_new_db [simp]: "queue_idle new_db"
  by (simp add: queue_idle_def new_db_def DB_new_def)

lemma sample_requests_fit [simp]: "requests_fit (length (log_bytes [])) [sample_batch]"
  by (simp add: requests_fit_def EncodedBatchSize_eq [of _ 0]) (simp add: sample_batch_def)

lemma sample_entries [simp]: "entries sample_batch = [\<lparr>etype = kPut, key = [1], val = [2]\<rparr>]"
  by (simp add: sample_batch_def)

lemma sample_run_from:
  assumes "queue_idle db" and "db_inv reference_os [] (db, f)" and "executor_ready (executor db)" and "content f = []"
  obtains s where "reaches reference_os [sample_batch] (sys_new db f) [([0], Ok)] s"
    and "s_clients s 0 = Finished Ok" and "length (stable (s_file s)) = 32" and "walOffset (s_db s) = 32"
    and "\<not> writing (s_db s)"
proof -
  let ?reach = "reaches reference_os [sample_batch] (sys_new db f)"
  let ?wr = "(WriteAwaiter_new sample_batch)\<lparr>w_continuation := True\<rparr>"
  obtain db1 where lock: "enqueue_lock 0 db = (False, db1)" "store_fields db1 = store_fields db"
    using enqueue_lock_idle [OF assms(1), of 0] by auto
  define s1 where "s1 = (sys_new db f)\<lparr>s_db := db1, s_table := [0 \<mapsto> ?wr],
     s_clients := (\<lambda>_. Idle)(0 := InlineGroup)\<rparr>"
  have "?reach [] s1"
    using reaches.env [OF reaches.init env_step.start_inline [of "sys_new db f" 0 "[sample_batch]"]] lock(1)
    by (simp add: sys_new_def s1_def batch_empty_def)
  obtain res db2 f2 where w: "writeGroup reference_os (\<lambda>_. 0) [sample_batch] (db1, f) = (res, db2, f2)"
    by (metis prod_cases3)
  have inv: "db_inv reference_os [] (db1, f)" "executor_ready (executor db1)"
    using db_inv_store [OF lock(2)] assms(2,3) by simp_all
  have "length (log_bytes []) + length (record_bytes (nextSequence db1) (group_entries [sample_batch])) < 2 ^ 64" by simp
  note written = writeGroup_cases [OF reference_os_documented sample_group_fits inv this w]
  have res: "res = Some Ok" using written(3) by (simp add: max_rw_count_def)
  then have size: "length (stable f2) = 32" "walOffset db2 = 32"
    using written(1) assms(4) by (auto simp: db_inv_def log_bytes_def)
  define s2 where "s2 = s1\<lparr>s_db := db2, s_file := f2, s_clients := (s_clients s1)(0 := InlineWrote Ok)\<rparr>"
  have "engine_step reference_os s1 [([0], Ok)] s2"
    unfolding s2_def using w res
    by (intro engine_step.inline_write) (simp_all add: s1_def sys_new_def group_batches_def)
  with \<open>?reach [] s1\<close> have r2: "?reach [([0], Ok)] s2" using reaches.engine by fastforce
  obtain db3 tab3 where fin: "enqueue_finish 0 Ok (s_db s2, s_table s2) = (db3, tab3)" by fastforce
  define s3 where "s3 = s2\<lparr>s_db := db3, s_table := tab3, s_clients := (s_clients s2)(0 := InlineNotify)\<rparr>"
  have "engine_step reference_os s2 [] s3"
    unfolding s3_def using fin by (intro engine_step.inline_finish) (simp add: s2_def)
  with r2 have r3: "?reach [([0], Ok)] s3" using reaches.engine by fastforce
  have "tab3 0 = Some (?wr\<lparr>w_status := Ok\<rparr>)"
    using enqueue_finish_queue(4) [OF fin] by (simp add: s2_def s1_def)
  then have "engine_step reference_os s3 [] (s3\<lparr>s_thread := wake (s_thread s3), s_clients := (s_clients s3)(0 := Finished Ok)\<rparr>)"
    using engine_step.inline_notify [of s3 0] by (simp add: s3_def)
  moreover have "walOffset db3 = walOffset (s_db s2)" "\<not> writing db3"
    using enqueue_finish_store [OF fin] fin by (auto simp: store_fields_def enqueue_finish_def)
  ultimately show thesis
    using reaches.engine [OF r3] that size by (fastforce simp: s3_def s2_def)
qed

lemma sample_run:
  obtains s where "reaches reference_os [sample_batch] (sys_new new_db empty_file) [([0], Ok)] s"
    and "s_clients s 0 = Finished Ok"
  using sample_run_from [OF queue_idle_new_db db_inv_new_db new_db_simps(2)] by auto

text \<open>A database without requests is closed.\<close>

lemma closing_run:
  obtains s where "reaches reference_os [] (sys_new new_db empty_file) [] s" and "s_dtor s = Closed"
proof -
  let ?s0 = "sys_new new_db empty_file" and ?reach = "reaches reference_os [] (sys_new new_db empty_file) []"
  let ?db = "new_db\<lparr>stopWriter := True\<rparr>"
  let ?s1 = "?s0\<lparr>s_db := ?db, s_dtor := StopSet\<rparr>"
  let ?s2 = "?s1\<lparr>s_db := ?db, s_thread := Exited\<rparr>"
  let ?s3 = "?s2\<lparr>s_thread := Exited, s_dtor := Joining\<rparr>"
  have "env_step [] ?s0 ?s1" using env_step.destroy [of ?s0] by (simp add: sys_new_def)
  then have "?reach ?s1" by (rule reaches.env [OF reaches.init])
  moreover have "writers new_db = []" by (simp add: new_db_def DB_new_def)
  then have "engine_step reference_os ?s1 [] ?s2"
    by (intro engine_step.writer_go) (simp_all add: sys_new_def writer_ready_def writer_lock_def)
  ultimately have "?reach ?s2" using reaches.engine by fastforce
  moreover have "engine_step reference_os ?s2 [] ?s3" using engine_step.destroy_notify [of ?s2] by simp
  ultimately have "?reach ?s3" using reaches.engine by fastforce
  moreover have "engine_step reference_os ?s3 [] (?s3\<lparr>s_dtor := Closed\<rparr>)" by (rule engine_step.destroy_join) simp_all
  ultimately show thesis using reaches.engine that by fastforce
qed

section \<open>Safety\<close>

text \<open>
  C6: at most one thread is between the two locked sections around \<open>writeGroup\<close>, whether it is the writer thread or a caller that
  writes its own batch, however requests arrive and even while the destructor runs; the flag \<open>writing_\<close> is set exactly then. So the log
  offset, the sequence counter and the scratch buffers, which \<open>writeGroup\<close> uses without a lock, have one user.
\<close>

theorem one_group_at_a_time:
  assumes "queue_idle db" and "reaches os reqs (sys_new db f) tr s"
  shows "(\<forall>i. client_owns (s_clients s i) \<longrightarrow> \<not> thread_owns (s_thread s) \<and> (\<forall>j. client_owns (s_clients s j) \<longrightarrow> j = i)) \<and>
    (writing (s_db s) \<longleftrightarrow> thread_owns (s_thread s) \<or> (\<exists>i. client_owns (s_clients s i)))"
  using reaches_trace_inv [OF assms(2,1)] by (auto simp: queue_inv_def owner_inv_def)

theorem one_group_at_a_time_witness:
  "\<exists>s. reaches reference_os [sample_batch] (sys_new new_db empty_file) [([0], Ok)] s \<and>
     (writing (s_db s) \<longleftrightarrow> thread_owns (s_thread s) \<or> (\<exists>i. client_owns (s_clients s i)))"
proof -
  obtain s where "reaches reference_os [sample_batch] (sys_new new_db empty_file) [([0], Ok)] s" by (rule sample_run)
  with one_group_at_a_time [OF queue_idle_new_db this] show ?thesis by blast
qed

text \<open>
  C11: every request is in at most one group; a caller whose request had something to write is answered only after its group was
  written, with the status of that group, and its \<open>Writer\<close> is still there when the writer thread uses it. A request with nothing
  to write is answered with success and is in no group.
\<close>

theorem requests_answered_by_their_group:
  assumes "queue_idle db" and "reaches os reqs (sys_new db f) tr s"
  shows "distinct (concat (map fst tr)) \<and>
    (\<forall>i st. s_clients s i = Finished st \<longrightarrow>
       (if entries (reqs ! i) = [] then st = Ok \<and> i \<notin> set (concat (map fst tr))
        else \<exists>grp. (grp, st) \<in> set tr \<and> i \<in> set grp)) \<and>
    (\<forall>i \<in> set (writers (s_db s) @ held (s_thread s)). s_clients s i = Suspended \<and> (\<exists>wr. s_table s i = Some wr \<and> w_batch wr = reqs ! i))"
proof -
  have inv: "places_inv reqs s" "trace_inv reqs tr s"
    using reaches_trace_inv [OF assms(2,1)] by (simp_all add: queue_inv_def)
  have "distinct (concat (map fst tr))"
    using trace_invD(1) [OF inv(2)] by (simp add: map_fst_answers members_def)
  moreover have "if entries (reqs ! i) = [] then st = Ok \<and> i \<notin> set (concat (map fst tr))
      else \<exists>grp. (grp, st) \<in> set tr \<and> i \<in> set grp" if "s_clients s i = Finished st" for i st
  proof (cases "entries (reqs ! i) = []")
    case True
    have "i \<notin> set (members tr)"
      using trace_invD(3) [OF inv(2)] True by (metis map_fst_answers set_map)
    then show ?thesis
      using reaches_empty_answered [OF assms(2,1)] that True by (simp add: empty_answered_def members_def)
  next
    case False
    have "map_of (answers tr) i = Some st" using trace_invD(4) [OF inv(2) False] that by (simp add: answer_def)
    then have "(i, st) \<in> set (answers tr)" by (rule map_of_SomeD)
    then show ?thesis using False by (auto simp: answers_def)
  qed
  moreover have "s_clients s i = Suspended \<and> (\<exists>wr. s_table s i = Some wr \<and> w_batch wr = reqs ! i)"
    if "i \<in> set (writers (s_db s) @ held (s_thread s))" for i
    using places_waiting(2,3) [OF inv(1)] that by (auto simp: pending_def)
  ultimately show ?thesis by blast
qed

theorem requests_answered_by_their_group_witness:
  "\<exists>s grp. reaches reference_os [sample_batch] (sys_new new_db empty_file) [([0], Ok)] s \<and> s_clients s 0 = Finished Ok \<and>
     (grp, Ok) \<in> set [([0 :: nat], Ok)] \<and> 0 \<in> set grp"
proof -
  obtain s where s: "reaches reference_os [sample_batch] (sys_new new_db empty_file) [([0], Ok)] s" "s_clients s 0 = Finished Ok"
    by (rule sample_run)
  have "entries ([sample_batch] ! 0) \<noteq> []" by simp
  then have "\<exists>grp. (grp, Ok) \<in> set [([0 :: nat], Ok)] \<and> 0 \<in> set grp"
    using requests_answered_by_their_group [OF queue_idle_new_db s(1)] s(2) by metis
  with s show ?thesis by blast
qed

text \<open>
  C2: whatever the interleaving of callers, writer thread and destructor, the database stays consistent with a log that holds, behind
  what it held before, exactly the entries of the acknowledged groups in the order in which they were written; \<open>Get\<close> answers from these,
  and the entries of groups that failed are not in it. Groups may fail; but either the kernel accepts every submission, or no group
  before the last one failed (a refused submission leaves entries in the queue of the ring, and what the group after
  it does is not covered). The entries of all requests fit the format.
\<close>

theorem concurrent_writes_are_a_log:
  assumes "os_documented os" and "requests_fit (length (log_bytes log0)) reqs"
    and "queue_idle db" and "db_inv os log0 (db, f)" and "executor_ready (executor db)"
    and "reaches os reqs (sys_new db f) tr s"
    and "enter_accepts (os_kernel os) \<or> (\<forall>g \<in> set (butlast tr). ok (snd g))"
  shows "\<exists>log. db_inv os (log0 @ log) (s_db s, s_file s) \<and> concat (map snd log) = committed reqs tr \<and>
    (\<forall>k. DB_Get os (s_db s) k = (case foldl apply_entry (log_view log0) (committed reqs tr) k of
       None \<Rightarrow> Inl (NotFound ''key not found'') | Some v \<Rightarrow> Inr v))"
proof -
  obtain log where log: "db_inv os (log0 @ log) (s_db s, s_file s)" "concat (map snd log) = committed reqs tr"
    using reaches_store_inv [OF assms(1-6)] assms(7) by (auto simp: store_inv_def accepted_def)
  then have "mem_view (os_hash os) (memtable (s_db s)) = foldl apply_entry (log_view log0) (committed reqs tr)"
    by (simp add: db_inv_def log_view_def)
  then show ?thesis using log by (auto simp: DB_Get_view)
qed

theorem concurrent_writes_are_a_log_witness:
  "\<exists>s. reaches reference_os [sample_batch] (sys_new new_db empty_file) [([0], Ok)] s \<and> DB_Get reference_os (s_db s) [1] = Inr [2]"
proof -
  obtain s where s: "reaches reference_os [sample_batch] (sys_new new_db empty_file) [([0], Ok)] s" by (rule sample_run)
  have "enter_accepts (os_kernel reference_os) \<or> (\<forall>g \<in> set (butlast [([0 :: nat], Ok)]). ok (snd g))" by simp
  from concurrent_writes_are_a_log [OF reference_os_documented sample_requests_fit queue_idle_new_db db_inv_new_db
      new_db_simps(2) s this]
  have "DB_Get reference_os (s_db s) [1] = (case foldl apply_entry (log_view []) (committed [sample_batch] [([0], Ok)]) [1] of
     None \<Rightarrow> Inl (NotFound ''key not found'') | Some v \<Rightarrow> Inr v)" by blast
  moreover have "committed [sample_batch] [([0], Ok)] = [\<lparr>etype = kPut, key = [1], val = [2]\<rparr>]" by (simp add: committed_def)
  ultimately show ?thesis using s by (auto simp: apply_entry_def)
qed

section \<open>Liveness\<close>

text \<open>
  C5: on a kernel that accepts every submission, the database never gets stuck. Every step it takes on its own makes a measure smaller, so without new requests it comes to rest;
  and at rest no caller is suspended or inside a call, every request made is answered, and a destructor that was called has returned.
  In particular no wake-up of the writer thread is lost.
\<close>

theorem no_request_waits_forever:
  assumes "os_documented os" and "enter_accepts (os_kernel os)" and "requests_fit (length (log_bytes log0)) reqs"
    and "queue_idle db" and "db_inv os log0 (db, f)" and "executor_ready (executor db)"
    and "reaches os reqs (sys_new db f) tr s"
  shows "(\<forall>ev s'. engine_step os s ev s' \<longrightarrow> work reqs s' < work reqs s) \<and>
    ((\<exists>ev s'. engine_step os s ev s') \<or>
     ((\<forall>i. s_clients s i = Idle \<or> finished (s_clients s i)) \<and> (s_dtor s = Alive \<or> s_dtor s = Closed)))"
proof -
  have inv: "queue_inv reqs s" "trace_inv reqs tr s" "store_inv os log0 reqs tr s"
    using reaches_store_inv [OF assms(1,3-7)] by simp_all
  have acc: "accepted (os_kernel os) tr" using assms(2) by (simp add: accepted_def)
  have "\<exists>ev s'. engine_step os s ev s'" if "at_write s grp" for grp
  proof -
    note grp = that
    obtain res db1 f1 where w: "writeGroup os (\<lambda>_. 0) (group_batches (s_table s) grp) (s_db s, s_file s) = (res, db1, f1)"
      by (metis prod_cases3)
    then obtain st where "res = Some st"
      using store_inv_at_write [OF assms(1) acc assms(3) inv grp w] by blast
    then show ?thesis
      using grp \<open>res = Some st\<close> w engine_step.group_write engine_step.inline_write unfolding at_write_def by blast
  qed
  then show ?thesis
    using engine_step_work [OF _ inv(1)] at_rest [OF _ inv(1)] by blast
qed

theorem no_request_waits_forever_witness:
  "\<exists>s. reaches reference_os [sample_batch] (sys_new new_db empty_file) [([0], Ok)] s \<and>
     (\<forall>ev s'. engine_step reference_os s ev s' \<longrightarrow> work [sample_batch] s' < work [sample_batch] s)"
proof -
  obtain s where s: "reaches reference_os [sample_batch] (sys_new new_db empty_file) [([0], Ok)] s" by (rule sample_run)
  have "enter_accepts (os_kernel reference_os)" by simp
  from no_request_waits_forever [OF reference_os_documented this sample_requests_fit queue_idle_new_db db_inv_new_db
      new_db_simps(2) s] s
  show ?thesis by blast
qed

text \<open>
  C13: when the destructor has closed the log, the writer thread has left, the queue is empty and every request made before was
  answered: closing the database drains the queue.
\<close>

theorem closing_drains_the_queue:
  assumes "queue_idle db" and "reaches os reqs (sys_new db f) tr s" and "s_dtor s = Closed"
  shows "s_thread s = Exited \<and> writers (s_db s) = [] \<and> (\<forall>i. s_clients s i = Idle \<or> finished (s_clients s i))"
proof -
  have inv: "places_inv reqs s" "stop_inv s" using reaches_trace_inv [OF assms(2,1)] by (simp_all add: queue_inv_def)
  have rest: "s_thread s = Exited" "writers (s_db s) = []" using inv(2) assms(3) by (simp_all add: stop_inv_def)
  then have "s_clients s i \<noteq> Suspended" for i using inv(1) by (auto simp: places_inv_def pending_def)
  moreover have "\<not> in_call (s_clients s i)" for i using inv(2) assms(3) by (simp add: stop_inv_def)
  ultimately have "s_clients s i = Idle \<or> finished (s_clients s i)" for i
    by (metis client_pc.exhaust finished.simps(1) in_call.simps(1-3))
  then show ?thesis using rest by simp
qed

theorem closing_drains_the_queue_witness:
  "\<exists>s. reaches reference_os [] (sys_new new_db empty_file) [] s \<and> s_dtor s = Closed \<and> s_thread s = Exited"
proof -
  obtain s where s: "reaches reference_os [] (sys_new new_db empty_file) [] s" "s_dtor s = Closed" by (rule closing_run)
  from closing_drains_the_queue [OF queue_idle_new_db s] s show ?thesis by blast
qed

section \<open>The public operations\<close>

text \<open>
  C12: on a working device, a \<open>Put\<close> on a database that nobody else writes to returns success, and afterwards \<open>Get\<close> returns the value
  for its key and what it returned before for every other key; a \<open>Delete\<close> returns success and its key is gone, the others are untouched.
\<close>

theorem put_delete_get:
  assumes "os_documented os" and "enter_accepts (os_kernel os)" and "full_writes (os_kernel os)"
    and "queue_idle db" and "db_inv os log (db, f)" and "executor_ready (executor db)"
    and "30 + length k + length v \<le> max_rw_count" and "length (log_bytes log) + 30 + length k + length v < 2 ^ 64"
  shows "(case DB_Put os now w k v (db, f, tab) of (res, db', f', tab') \<Rightarrow>
      res = Some Ok \<and> (\<forall>k'. DB_Get os db' k' = (if k' = k then Inr v else DB_Get os db k'))) \<and>
    (case DB_Delete os now w k (db, f, tab) of (res, db', f', tab') \<Rightarrow>
      res = Some Ok \<and>
      (\<forall>k'. DB_Get os db' k' = (if k' = k then Inl (NotFound ''key not found'') else DB_Get os db k')))"
proof -
  have one: "case co_await_write os now w b (db, f, tab) of (res, db', f', tab') \<Rightarrow>
      res = Some Ok \<and> (\<forall>k'. DB_Get os db' k' =
        (case apply_entry (log_view log) e k' of None \<Rightarrow> Inl (NotFound ''key not found'') | Some v \<Rightarrow> Inr v))"
    if e: "entries b = [e]" "batch_wf b" "length (entry_bytes e) \<le> 9 + length k + length v" for b e
  proof -
    obtain res db' f' tab' where run: "co_await_write os now w b (db, f, tab) = (res, db', f', tab')"
      by (metis prod_cases4)
    have size: "length (record_bytes (nextSequence db) (entries b)) \<le> 30 + length k + length v"
      using e(1,3) by (simp add: wal_simps)
    then have room: "length (log_bytes log) + length (record_bytes (nextSequence db) (entries b)) < 2 ^ 64"
      using assms(8) by simp
    have b: "entries b \<noteq> []" "length (entries b) < 2 ^ 32" using e(1) by simp_all
    note step = co_await_write_idle [OF assms(1,2) b e(2) assms(4-6) room run]
    have res: "res = Some Ok" using step(2) [OF assms(3)] size assms(7) by simp
    then have "db_inv os (log @ [(nextSequence db, [e])]) (db', f')" using step(1) e(1) by auto
    then have "mem_view (os_hash os) (memtable db') = apply_entry (log_view log) e" by (simp add: db_inv_def)
    then show ?thesis using run res by (simp add: DB_Get_view)
  qed
  have "mem_view (os_hash os) (memtable db) = log_view log" using assms(5) by (simp add: db_inv_def)
  then show ?thesis
    using one [of "Put WriteBatch_new k v" "\<lparr>etype = kPut, key = k, val = v\<rparr>"]
      one [of "Delete WriteBatch_new k" "\<lparr>etype = kDelete, key = k, val = []\<rparr>"]
    by (auto simp: DB_Put_def DB_Delete_def PutAsync_def DeleteAsync_def DB_Get_view apply_entry_def wal_simps split: prod.splits)
qed

theorem put_delete_get_witness:
  "case DB_Put reference_os (\<lambda>_. 0) 0 [1] [2] (new_db, empty_file, Map.empty) of (res, db', f', tab') \<Rightarrow>
     res = Some Ok \<and> DB_Get reference_os db' [1] = Inr [2]"
proof -
  have "enter_accepts (os_kernel reference_os)" "full_writes (os_kernel reference_os)"
    "30 + length [1 :: byte] + length [2 :: byte] \<le> max_rw_count"
    "length (log_bytes []) + 30 + length [1 :: byte] + length [2 :: byte] < 2 ^ 64"
    by (simp_all add: max_rw_count_def)
  from put_delete_get [OF reference_os_documented this(1,2) queue_idle_new_db db_inv_new_db new_db_simps(2) this(3,4),
      of "\<lambda>_. 0" 0 Map.empty]
  show ?thesis by (simp split: prod.splits)
qed

end
