(* ===== verification/Task_Coroutine.thy ===== *)
theory Task_Coroutine
  imports Status_Result
begin

text \<open>
  \<open>src/include/storage_engine/task.h\<close>: the coroutine task. First the ownership of the coroutine frame by \<open>Task\<close> objects
  (construction, move, assignment, destruction) and the promise, then \<open>run()\<close>: the caller that starts the
  coroutine and waits, and the thread on which the coroutine ends, interleaved step by step.
\<close>

section \<open>Promise and task\<close>

text \<open>The promise in the frame of a coroutine; a \<open>coroutine_handle\<close> is the address of a frame.\<close>

record 'a promise =
  p_value :: "'a option"
  p_exception :: "string option"
  p_continuation :: "nat option"
  p_completed :: bool

definition promise_new :: "'a promise" where
  "promise_new = \<lparr>p_value = None, p_exception = None, p_continuation = None, p_completed = False\<rparr>"

definition return_value :: "'a \<Rightarrow> 'a promise \<Rightarrow> 'a promise" where
  "return_value v p = p\<lparr>p_value := Some v\<rparr>"

definition unhandled_exception :: "string \<Rightarrow> 'a promise \<Rightarrow> 'a promise" where
  "unhandled_exception e p = p\<lparr>p_exception := Some e\<rparr>"

text \<open>\<open>takeResult\<close>: rethrows the exception, or moves the value out; \<^const>\<open>None\<close> is the use of an empty \<open>optional\<close>.\<close>

definition takeResult :: "'a promise \<Rightarrow> (string + 'a) option" where
  "takeResult p = (case p_exception p of Some e \<Rightarrow> Some (Inl e) | None \<Rightarrow> map_option Inr (p_value p))"

text \<open>\<open>FinalAwaiter::await_suspend\<close>: the locked section, and the coroutine it transfers control to.\<close>

definition final_complete :: "'a promise \<Rightarrow> 'a promise" where
  "final_complete p = p\<lparr>p_completed := True\<rparr>"

definition final_transfer :: "'a promise \<Rightarrow> nat option" where
  "final_transfer p = p_continuation p"

record Task =
  handle :: "nat option"
  started :: bool

text \<open>\<open>Awaiter::await_suspend\<close>: register the awaiting coroutine and start the task, unless it was started.\<close>

definition task_await_suspend :: "nat \<Rightarrow> Task \<times> 'a promise \<Rightarrow> nat option \<times> Task \<times> 'a promise" where
  "task_await_suspend cont st =
     (let (task, p) = st; p = p\<lparr>p_continuation := Some cont\<rparr>
      in if \<not> started task then (handle task, task\<lparr>started := True\<rparr>, p) else (None, task, p))"

text \<open>\<open>start\<close>: the flag makes sure that a coroutine is resumed from its initial suspension only once.\<close>

definition task_start :: "Task \<Rightarrow> bool \<times> Task" where
  "task_start task = (if \<not> started task then (True, task\<lparr>started := True\<rparr>) else (False, task))"

section \<open>Who owns a frame\<close>

text \<open>The task objects of a program and the frames in memory.\<close>

record task_store =
  objects :: "nat \<Rightarrow> Task option"
  frame_live :: "nat \<Rightarrow> bool"

text \<open>\<open>coroutine_handle::destroy\<close>; \<^const>\<open>None\<close> is the destruction of a frame that does not exist.\<close>

definition destroy_handle :: "nat option \<Rightarrow> task_store \<Rightarrow> task_store option" where
  "destroy_handle h st =
     (case h of None \<Rightarrow> Some st
      | Some h \<Rightarrow> if frame_live st h then Some (st\<lparr>frame_live := (frame_live st)(h := False)\<rparr>) else None)"

definition Task_new :: "nat \<Rightarrow> nat \<Rightarrow> task_store \<Rightarrow> task_store" where
  "Task_new this h st = st\<lparr>objects := (objects st)(this \<mapsto> \<lparr>handle = Some h, started = False\<rparr>),
     frame_live := (frame_live st)(h := True)\<rparr>"

definition moved_from :: Task where
  "moved_from = \<lparr>handle = None, started = False\<rparr>"

definition Task_move :: "nat \<Rightarrow> nat \<Rightarrow> task_store \<Rightarrow> task_store" where
  "Task_move this other st = st\<lparr>objects := (objects st)(this := objects st other, other \<mapsto> moved_from)\<rparr>"

definition Task_assign :: "nat \<Rightarrow> nat \<Rightarrow> task_store \<Rightarrow> task_store option" where
  "Task_assign this other st =
     (if this \<noteq> other
      then map_option (\<lambda>st. st\<lparr>objects := (objects st)(this := objects st other, other \<mapsto> moved_from)\<rparr>)
             (destroy_handle (handle (the (objects st this))) st)
      else Some st)"

definition Task_destroy :: "nat \<Rightarrow> task_store \<Rightarrow> task_store option" where
  "Task_destroy this st =
     map_option (\<lambda>st. st\<lparr>objects := (objects st)(this := None)\<rparr>) (destroy_handle (handle (the (objects st this))) st)"

text \<open>
  What a program does with tasks: an object is constructed where none is, and used only while it
  exists; a new frame is memory that is not in use. \<^const>\<open>None\<close>: a frame was destroyed twice.
\<close>

inductive task_step :: "task_store \<Rightarrow> task_store option \<Rightarrow> bool" where
  "objects st this = None \<Longrightarrow> \<not> frame_live st h \<Longrightarrow> task_step st (Some (Task_new this h st))"
| "objects st this = None \<Longrightarrow> objects st other \<noteq> None \<Longrightarrow> task_step st (Some (Task_move this other st))"
| "objects st this \<noteq> None \<Longrightarrow> objects st other \<noteq> None \<Longrightarrow> task_step st (Task_assign this other st)"
| "objects st this \<noteq> None \<Longrightarrow> task_step st (Task_destroy this st)"

inductive task_reaches :: "task_store option \<Rightarrow> bool" where
  "task_reaches (Some \<lparr>objects = Map.empty, frame_live = \<lambda>_. False\<rparr>)"
| "task_reaches (Some st) \<Longrightarrow> task_step st st' \<Longrightarrow> task_reaches st'"

text \<open>The frame an object owns.\<close>

definition owned :: "task_store \<Rightarrow> nat \<Rightarrow> nat option" where
  "owned st this = Option.bind (objects st this) handle"

text \<open>Every frame has exactly one owner, and only existing frames are owned.\<close>

definition one_owner :: "(nat \<Rightarrow> nat option) \<Rightarrow> (nat \<Rightarrow> bool) \<Rightarrow> bool" where
  "one_owner own alive \<longleftrightarrow> (\<forall>h. alive h \<longleftrightarrow> (\<exists>this. own this = Some h)) \<and>
     (\<forall>this that h. own this = Some h \<longrightarrow> own that = Some h \<longrightarrow> this = that)"

definition task_inv :: "task_store \<Rightarrow> bool" where
  "task_inv st \<longleftrightarrow> one_owner (owned st) (frame_live st)"

lemma one_owner_clear:
  "one_owner own alive \<Longrightarrow> one_owner (own(this := None)) (\<lambda>h. alive h \<and> own this \<noteq> Some h)"
  by (auto simp: one_owner_def)

lemma one_owner_set:
  "one_owner own alive \<Longrightarrow> own this = None \<Longrightarrow> \<not> alive h \<Longrightarrow> one_owner (own(this \<mapsto> h)) (alive(h := True))"
  by (auto simp: one_owner_def) (metis option.distinct(1))

lemma one_owner_move:
  assumes "one_owner own alive" and "own this = None"
  shows "one_owner (own(this := own other, other := None)) alive"
proof (cases "own other")
  case None
  then have "own(this := own other, other := None) = own" using assms(2) by auto
  then show ?thesis using assms(1) by simp
next
  case (Some h)
  then have "this \<noteq> other" "alive h" using assms by (auto simp: one_owner_def)
  have "one_owner (own(other := None)) (alive(h := False))"
  proof -
    have "(\<lambda>g. alive g \<and> own other \<noteq> Some g) = alive(h := False)" using Some by (auto simp: fun_eq_iff)
    then show ?thesis using one_owner_clear [OF assms(1), of other] by simp
  qed
  from one_owner_set [OF this, of this h]
  have "one_owner (own(other := None, this \<mapsto> h)) (alive(h := True))" using assms(2) \<open>this \<noteq> other\<close> by simp
  moreover have "alive(h := True) = alive" using \<open>alive h\<close> by (auto simp: fun_eq_iff)
  ultimately show ?thesis using Some \<open>this \<noteq> other\<close> by (simp add: fun_upd_twist)
qed

text \<open>Destroying the frame of an existing object, which then owns none.\<close>

lemma destroy_owned:
  assumes "task_inv st" and "objects st this = Some t"
  shows "\<exists>st'. destroy_handle (handle t) st = Some st' \<and> objects st' = objects st \<and>
    one_owner ((owned st)(this := None)) (frame_live st')"
proof -
  have own: "owned st this = handle t" using assms(2) by (simp add: owned_def)
  note clear = one_owner_clear [OF assms(1) [unfolded task_inv_def], of this]
  show ?thesis
  proof (cases "handle t")
    case None
    then show ?thesis using clear own by (auto simp: destroy_handle_def)
  next
    case (Some h)
    then have "frame_live st h" using own assms(1) by (auto simp: task_inv_def one_owner_def)
    moreover have "(\<lambda>g. frame_live st g \<and> owned st this \<noteq> Some g) = (frame_live st)(h := False)" using own Some by (auto simp: fun_eq_iff)
    ultimately show ?thesis using clear Some by (auto simp: destroy_handle_def)
  qed
qed

lemma owned_simps:
  "owned (Task_new this h st) = (owned st)(this \<mapsto> h)"
  "owned (Task_move this other st) = (owned st)(this := owned st other, other := None)"
  "owned (st1\<lparr>objects := (objects st)(this := objects st other, other \<mapsto> moved_from)\<rparr>) =
     (owned st)(this := owned st other, other := None)"
  "owned (st1\<lparr>objects := (objects st)(this := None)\<rparr>) = (owned st)(this := None)"
  by (auto simp: owned_def fun_eq_iff Task_new_def Task_move_def moved_from_def)

lemma task_inv_step:
  assumes "task_step st st'" and "task_inv st"
  shows "\<exists>st''. st' = Some st'' \<and> task_inv st''"
proof -
  have inv: "one_owner (owned st) (frame_live st)" using assms(2) by (simp add: task_inv_def)
  show ?thesis
    using assms(1)
  proof cases
    case (1 this h)
    then have "one_owner ((owned st)(this \<mapsto> h)) ((frame_live st)(h := True))"
      by (intro one_owner_set [OF inv]) (simp_all add: owned_def)
    then show ?thesis using 1 by (simp add: task_inv_def owned_simps(1)) (simp add: Task_new_def)
  next
    case (2 this other)
    then have "one_owner ((owned st)(this := owned st other, other := None)) (frame_live st)"
      by (intro one_owner_move [OF inv]) (simp add: owned_def)
    then show ?thesis using 2 by (simp add: task_inv_def owned_simps(2)) (simp add: Task_move_def)
  next
    case (3 this other)
    then obtain t st1 where d: "objects st this = Some t" "destroy_handle (handle t) st = Some st1"
      "objects st1 = objects st" "one_owner ((owned st)(this := None)) (frame_live st1)"
      using destroy_owned [OF assms(2)] by blast
    show ?thesis
    proof (cases "this = other")
      case False
      have "one_owner ((owned st)(this := owned st other, other := None)) (frame_live st1)"
        using one_owner_move [OF d(4), of this other] False by simp
      then show ?thesis
        using 3 d(1,2) False by (simp add: Task_assign_def task_inv_def owned_simps(3) d(3))
    qed (use 3 assms(2) in \<open>simp add: Task_assign_def\<close>)
  next
    case (4 this)
    then obtain t st1 where d: "objects st this = Some t" "destroy_handle (handle t) st = Some st1"
      "objects st1 = objects st" "one_owner ((owned st)(this := None)) (frame_live st1)"
      using destroy_owned [OF assms(2)] by blast
    then show ?thesis using 4 by (simp add: Task_destroy_def task_inv_def owned_simps(4))
  qed
qed

lemma task_reaches_inv: "task_reaches st \<Longrightarrow> \<exists>st'. st = Some st' \<and> task_inv st'"
proof (induction rule: task_reaches.induct)
  case 1
  then show ?case by (simp add: task_inv_def one_owner_def owned_def)
next
  case (2 st st')
  then show ?case using task_inv_step by blast
qed

section \<open>Running a task\<close>

text \<open>
  Where the coroutine is, with the thread it runs on: \<^const>\<open>True\<close> is the thread inside \<open>run()\<close>, which
  runs the body until it first suspends; later another thread resumes it. The last four positions
  are those of \<open>FinalAwaiter::await_suspend\<close>.
\<close>

datatype co_pc = CInitial | CBody bool | CSuspended | CLock bool | CNotify bool | CTransfer bool | CDone

text \<open>Where the caller of \<open>run()\<close> is; the destructor of the task object runs behind \<open>run()\<close>.\<close>

datatype 'a run_pc =
    RStart
  | RInResume
  | RCheck
  | RAsleep bool
  | RTake
  | RDestroy "(string + 'a) option"
  | RDone "(string + 'a) option"

record 'a run_state =
  r_promise :: "'a promise"
  r_co :: co_pc
  r_pc :: "'a run_pc"
  r_task :: Task
  r_alive :: bool
  r_dangling :: bool
  r_suspensions :: nat

fun wake_run :: "'a run_pc \<Rightarrow> 'a run_pc" where
  "wake_run (RAsleep _) = RAsleep True"
| "wake_run pc = pc"

text \<open>The call of \<open>resume()\<close> in \<open>start()\<close> returns when the coroutine suspends or ends on that thread.\<close>

definition resume_returns :: "bool \<Rightarrow> 'a run_pc \<Rightarrow> 'a run_pc" where
  "resume_returns own pc = (if own then RCheck else pc)"

text \<open>
  The steps. \<open>out\<close> is how the body ends, with an exception or with a value. \<open>r_dangling\<close> records that the
  promise was used after the frame was destroyed, and \<open>r_suspensions\<close> how often the body still suspends.
\<close>

inductive run_step :: "(string + 'a) \<Rightarrow> 'a run_state \<Rightarrow> 'a run_state \<Rightarrow> bool" for out where
  start: "r_pc s = RStart \<Longrightarrow> task_start (r_task s) = (True, t) \<Longrightarrow>
    run_step out s (s\<lparr>r_task := t, r_pc := RInResume, r_co := CBody True\<rparr>)"
| suspend: "r_co s = CBody own \<Longrightarrow> r_suspensions s = Suc n \<Longrightarrow>
    run_step out s (s\<lparr>r_co := CSuspended, r_pc := resume_returns own (r_pc s), r_suspensions := n\<rparr>)"
| resumed: "r_co s = CSuspended \<Longrightarrow> run_step out s (s\<lparr>r_co := CBody False\<rparr>)"
| body_end: "r_co s = CBody own \<Longrightarrow> r_suspensions s = 0 \<Longrightarrow>
    run_step out s (s\<lparr>r_co := CLock own,
      r_promise := (case out of Inl e \<Rightarrow> unhandled_exception e (r_promise s) | Inr v \<Rightarrow> return_value v (r_promise s))\<rparr>)"
| final_lock: "r_co s = CLock own \<Longrightarrow>
    run_step out s (s\<lparr>r_co := CNotify own, r_promise := final_complete (r_promise s),
                      r_dangling := r_dangling s \<or> \<not> r_alive s\<rparr>)"
| final_notify: "r_co s = CNotify own \<Longrightarrow>
    run_step out s (s\<lparr>r_co := CTransfer own, r_pc := wake_run (r_pc s), r_dangling := r_dangling s \<or> \<not> r_alive s\<rparr>)"
| final_resume: "r_co s = CTransfer own \<Longrightarrow> final_transfer (r_promise s) = None \<Longrightarrow>
    run_step out s (s\<lparr>r_co := CDone, r_pc := resume_returns own (r_pc s), r_dangling := r_dangling s \<or> \<not> r_alive s\<rparr>)"
| wait_over: "r_pc s = RCheck \<Longrightarrow> p_completed (r_promise s) \<Longrightarrow> run_step out s (s\<lparr>r_pc := RTake\<rparr>)"
| wait_sleep: "r_pc s = RCheck \<Longrightarrow> \<not> p_completed (r_promise s) \<Longrightarrow> run_step out s (s\<lparr>r_pc := RAsleep False\<rparr>)"
| wait_wake: "r_pc s = RAsleep True \<Longrightarrow> run_step out s (s\<lparr>r_pc := RCheck\<rparr>)"
| take: "r_pc s = RTake \<Longrightarrow> run_step out s (s\<lparr>r_pc := RDestroy (takeResult (r_promise s))\<rparr>)"
| destroy: "r_pc s = RDestroy res \<Longrightarrow> run_step out s (s\<lparr>r_pc := RDone res, r_alive := False\<rparr>)"

definition run_new :: "nat \<Rightarrow> 'a run_state" where
  "run_new n = \<lparr>r_promise = promise_new, r_co = CInitial, r_pc = RStart, r_task = \<lparr>handle = Some 1, started = False\<rparr>,
     r_alive = True, r_dangling = False, r_suspensions = n\<rparr>"

inductive run_reaches :: "(string + 'a) \<Rightarrow> nat \<Rightarrow> 'a run_state \<Rightarrow> bool" for out n where
  "run_reaches out n (run_new n)"
| "run_reaches out n s \<Longrightarrow> run_step out s s' \<Longrightarrow> run_reaches out n s'"

text \<open>The body has ended, and its result is in the promise.\<close>

fun ended :: "co_pc \<Rightarrow> bool" where
  "ended CInitial = False"
| "ended (CBody _) = False"
| "ended CSuspended = False"
| "ended _ = True"

fun completed_pc :: "co_pc \<Rightarrow> bool" where
  "completed_pc (CNotify _) = True"
| "completed_pc (CTransfer _) = True"
| "completed_pc CDone = True"
| "completed_pc _ = False"

fun on_caller :: "co_pc \<Rightarrow> bool" where
  "on_caller (CBody own) = own"
| "on_caller (CLock own) = own"
| "on_caller (CNotify own) = own"
| "on_caller (CTransfer own) = own"
| "on_caller _ = False"

fun result_of :: "'a run_pc \<Rightarrow> (string + 'a) option option" where
  "result_of (RDestroy r) = Some r"
| "result_of (RDone r) = Some r"
| "result_of _ = None"

definition run_inv :: "(string + 'a) \<Rightarrow> 'a run_state \<Rightarrow> bool" where
  "run_inv out s \<longleftrightarrow>
     p_completed (r_promise s) = completed_pc (r_co s) \<and> p_continuation (r_promise s) = None \<and>
     takeResult (r_promise s) = (if ended (r_co s) then Some out else None) \<and>
     (r_pc s = RStart \<longleftrightarrow> r_co s = CInitial) \<and> (r_pc s = RInResume \<longleftrightarrow> on_caller (r_co s)) \<and>
     started (r_task s) = (r_pc s \<noteq> RStart) \<and>
     (r_pc s = RTake \<or> result_of (r_pc s) \<noteq> None \<longrightarrow> completed_pc (r_co s)) \<and>
     (\<forall>r. result_of (r_pc s) = Some r \<longrightarrow> r = Some out) \<and>
     (r_alive s \<longleftrightarrow> (\<forall>r. r_pc s \<noteq> RDone r)) \<and>
     (r_pc s = RAsleep False \<longrightarrow> \<not> (\<exists>own. r_co s = CTransfer own) \<and> r_co s \<noteq> CDone)"

lemma run_inv_new: "run_inv out (run_new n)"
  by (simp add: run_inv_def run_new_def promise_new_def takeResult_def)

lemma completed_ended: "completed_pc pc \<Longrightarrow> ended pc"
  by (cases pc) auto

lemma run_inv_step:
  assumes "run_step out s s'" and "run_inv out s"
  shows "run_inv out s'"
  using assms
proof cases
  case (final_notify own)
  then show ?thesis using assms(2) by (cases "r_pc s") (auto simp: run_inv_def)
next
  case take
  then show ?thesis using assms(2) completed_ended [of "r_co s"] by (auto simp: run_inv_def)
qed (auto simp: run_inv_def task_start_def resume_returns_def takeResult_def unhandled_exception_def return_value_def
       final_complete_def split: sum.splits option.splits if_splits)

lemma run_reaches_inv: "run_reaches out n s \<Longrightarrow> run_inv out s"
  by (induction rule: run_reaches.induct) (auto intro: run_inv_new run_inv_step)

text \<open>The steps that are left.\<close>

fun co_work :: "co_pc \<Rightarrow> nat" where
  "co_work CInitial = 52"
| "co_work (CBody _) = 50"
| "co_work CSuspended = 51"
| "co_work (CLock _) = 40"
| "co_work (CNotify _) = 30"
| "co_work (CTransfer _) = 10"
| "co_work CDone = 0"

fun pc_work :: "'a run_pc \<Rightarrow> nat" where
  "pc_work RStart = 7"
| "pc_work RInResume = 6"
| "pc_work RCheck = 5"
| "pc_work (RAsleep notified) = (if notified then 6 else 0)"
| "pc_work RTake = 4"
| "pc_work (RDestroy _) = 3"
| "pc_work (RDone _) = 0"

definition run_work :: "'a run_state \<Rightarrow> nat" where
  "run_work s = 20 * r_suspensions s + co_work (r_co s) + pc_work (r_pc s)"

lemma pc_work_wake: "pc_work (wake_run pc) \<le> pc_work pc + 6"
  by (cases pc) auto

lemma run_step_work:
  assumes "run_step out s s'" and "run_inv out s"
  shows "run_work s' < run_work s"
  using assms
proof cases
  case (suspend own n)
  then show ?thesis using assms(2) by (auto simp: run_work_def resume_returns_def run_inv_def)
next
  case (final_notify own)
  then show ?thesis using pc_work_wake [of "r_pc s"] by (simp add: run_work_def)
next
  case (final_resume own)
  then show ?thesis using assms(2) by (auto simp: run_work_def resume_returns_def run_inv_def)
next
  case (start t)
  then show ?thesis using assms(2) by (auto simp: run_work_def run_inv_def)
qed (auto simp: run_work_def)

lemma run_at_rest:
  assumes "\<And>s'. \<not> run_step out s s'" and "run_inv out s"
  shows "r_pc s = RDone (Some out) \<and> r_co s = CDone"
proof -
  have "r_co s = CDone"
  proof (cases "r_co s")
    case CInitial
    then have "r_pc s = RStart" "task_start (r_task s) = (True, (r_task s)\<lparr>started := True\<rparr>)"
      using assms(2) by (auto simp: run_inv_def task_start_def)
    then show ?thesis using assms(1) run_step.start by blast
  next
    case (CBody own)
    then show ?thesis using assms(1) run_step.suspend run_step.body_end by (metis not0_implies_Suc)
  next
    case (CTransfer own)
    then have "final_transfer (r_promise s) = None" using assms(2) by (simp add: run_inv_def final_transfer_def)
    then show ?thesis using CTransfer assms(1) run_step.final_resume by blast
  qed (use assms(1) run_step.resumed run_step.final_lock run_step.final_notify in blast)+
  moreover have "\<exists>r. r_pc s = RDone r"
  proof (cases "r_pc s")
    case (RAsleep notified)
    then show ?thesis using assms run_step.wait_wake calculation by (cases notified) (auto simp: run_inv_def)
  next
    case RCheck
    then show ?thesis using assms(1) run_step.wait_over run_step.wait_sleep by blast
  next
    case (RDestroy r)
    then show ?thesis using assms(1) run_step.destroy by blast
  qed (use assms calculation run_step.take in \<open>auto simp: run_inv_def\<close>)
  ultimately show ?thesis using assms(2) by (auto simp: run_inv_def)
qed



section \<open>Properties\<close>

text \<open>
  C21: however a program creates, moves, assigns and destroys tasks, no coroutine frame is destroyed twice, no frame is lost, and
  every frame is owned by exactly one task object.
\<close>

theorem frames_have_one_owner:
  assumes "task_reaches st"
  shows "\<exists>st'. st = Some st' \<and>
    (\<forall>h. frame_live st' h \<longleftrightarrow> (\<exists>!this. \<exists>t. objects st' this = Some t \<and> handle t = Some h))"
proof -
  obtain st' where "st = Some st'" "task_inv st'" using task_reaches_inv [OF assms] by blast
  moreover have "owned st' this = Some h \<longleftrightarrow> (\<exists>t. objects st' this = Some t \<and> handle t = Some h)" for this h
    by (simp add: owned_def bind_eq_Some_conv)
  ultimately show ?thesis by (auto simp: task_inv_def one_owner_def)
qed

theorem frames_have_one_owner_witness:
  "task_reaches (Task_destroy 2 (Task_move 2 1 (Task_new 1 7 \<lparr>objects = Map.empty, frame_live = \<lambda>_. False\<rparr>))) \<and>
   (\<exists>st'. Task_destroy 2 (Task_move 2 1 (Task_new 1 7 \<lparr>objects = Map.empty, frame_live = \<lambda>_. False\<rparr>)) = Some st')"
proof -
  have "task_reaches (Task_destroy 2 (Task_move 2 1 (Task_new 1 7 \<lparr>objects = Map.empty, frame_live = \<lambda>_. False\<rparr>)))"
    by (rule task_reaches.intros(2) [OF task_reaches.intros(2) [OF task_reaches.intros(2) [OF task_reaches.intros(1)]]];
        rule task_step.intros; simp add: Task_new_def Task_move_def)
  with frames_have_one_owner [OF this] show ?thesis by blast
qed

text \<open>
  C20: \<open>run()\<close> returns what the coroutine returned or rethrows what it threw. No wake-up is lost: every step makes the work that is left
  smaller, and when no step is left the caller has the result, on whichever thread the coroutine ended.
\<close>

theorem run_returns_the_outcome:
  assumes "run_reaches out n s"
  shows "(\<forall>r. r_pc s = RDone r \<longrightarrow> r = Some out) \<and> (\<forall>s'. run_step out s s' \<longrightarrow> run_work s' < run_work s) \<and>
    ((\<exists>s'. run_step out s s') \<or> r_pc s = RDone (Some out))"
proof -
  note inv = run_reaches_inv [OF assms]
  then have "\<forall>r. r_pc s = RDone r \<longrightarrow> r = Some out" by (auto simp: run_inv_def)
  then show ?thesis using run_step_work [OF _ inv] run_at_rest [OF _ inv] by blast
qed

theorem run_returns_the_outcome_witness:
  "\<exists>s. run_reaches (Inr (5 :: nat)) 0 s \<and> (\<forall>s'. run_step (Inr 5) s s' \<longrightarrow> run_work s' < run_work s)"
  using run_returns_the_outcome [OF run_reaches.intros(1) [of "Inr (5 :: nat)" 0]] run_reaches.intros(1) by blast



end
