(* ===== verification/Uring_Lifecycle.thy ===== *)
theory Uring_Lifecycle
  imports Wal_Device
begin

text \<open>
  \<open>src/src/io/uring_executor.cc\<close>: setting up and shutting down the executor (\<open>init\<close>, \<open>Create\<close>, \<open>closeRing\<close>), the completion thread
  over its wake-ups (\<open>completionLoop\<close>) and \<open>DebugStatsForTest\<close>. The file descriptors and the mappings the process holds are
  explicit, so that what is acquired can be compared with what is released. A pointer into a ring is represented by the word it
  points to; the memory behind a mapping, \<open>io_uring_setup\<close> and \<open>mmap\<close> are parameters.
\<close>

unbundle bit_operations_syntax

section \<open>Definitions\<close>

text \<open>What the process holds; \<open>misuse\<close> records a \<open>close\<close> or \<open>munmap\<close> of something it does not hold.\<close>

record resources =
  fds :: "int list"
  maps :: "(u64 \<times> u64) list"
  misuse :: bool

definition close_fd :: "int \<Rightarrow> resources \<Rightarrow> resources" where
  "close_fd fd r = (if fd \<in> set (fds r) then r\<lparr>fds := remove1 fd (fds r)\<rparr> else r\<lparr>misuse := True\<rparr>)"

definition munmap :: "u64 \<Rightarrow> u64 \<Rightarrow> resources \<Rightarrow> resources" where
  "munmap p n r = (if (p, n) \<in> set (maps r) then r\<lparr>maps := remove1 (p, n) (maps r)\<rparr> else r\<lparr>misuse := True\<rparr>)"

record UringOptions =
  uopt_entries :: u32
  uopt_sqPoll :: bool
  uopt_sqPollIdleMs :: u32

text \<open>\<open>io_uring_params\<close> as the kernel fills it in.\<close>

record io_uring_params =
  par_sq_entries :: u32
  par_cq_entries :: u32
  par_single_mmap :: bool
  sq_off_head :: u32
  sq_off_tail :: u32
  sq_off_ring_mask :: u32
  sq_off_ring_entries :: u32
  sq_off_flags :: u32
  sq_off_array :: u32
  cq_off_head :: u32
  cq_off_tail :: u32
  cq_off_ring_mask :: u32
  cq_off_ring_entries :: u32
  cq_off_cqes :: u32

datatype ring_area = IORING_OFF_SQ_RING | IORING_OFF_CQ_RING | IORING_OFF_SQES

record uring_env =
  io_uring_setup :: "u32 \<Rightarrow> (bool \<times> u32) \<Rightarrow> resources \<Rightarrow> string + (int \<times> io_uring_params)"
  mmap :: "u64 \<Rightarrow> int \<Rightarrow> ring_area \<Rightarrow> resources \<Rightarrow> string + u64"
  word_at :: "u64 \<Rightarrow> u32"
  array_at :: "u64 \<Rightarrow> u32 list"
  cqes_at :: "u64 \<Rightarrow> io_uring_cqe list"
  sqes_at :: "u64 \<Rightarrow> io_uring_sqe list"

definition State_new :: State where
  "State_new = \<lparr>ringFd = -1, sq_head = 0, sq_tail = 0, sq_ringMask = 0, sq_ringEntries = 0, sq_flags = 0,
     sq_array = [], sqes = [], cq_head = 0, cq_tail = 0, cq_ringMask = 0, cq_ringEntries = 0, cqes = [],
     sqRingPtr = 0, cqRingPtr = 0, sqesPtr = 0, sqRingSize = 0, cqRingSize = 0, sqesSize = 0, singleMmap = False,
     completionThread = False, stopping = False, completionLoopCompletions = 0, sqPollEnabled = False\<rparr>"

text \<open>
  What happens to the completion thread while it runs: \<open>closeRing\<close> stores the stop flag, \<open>io_uring_enter\<close> is interrupted or
  fails, or it returns after the kernel has posted completions.
\<close>

datatype wakeup = StopStored | Interrupted | EnterFailed | Completions "io_uring_cqe list"

datatype loop_end = Running | Returned | Crashed u64

fun completionLoop ::
  "wakeup list \<Rightarrow> State \<Rightarrow> frames \<Rightarrow> u64 list \<Rightarrow> loop_end \<times> State \<times> frames \<times> u64 list" where
  "completionLoop [] st ops resumed = (Running, st, ops, resumed)"
| "completionLoop (StopStored # ws) st ops resumed = completionLoop ws (st\<lparr>stopping := True\<rparr>) ops resumed"
| "completionLoop (Interrupted # ws) st ops resumed = completionLoop ws st ops resumed"
| "completionLoop (EnterFailed # ws) st ops resumed =
     (if stopping st then (Returned, st, ops, resumed) else completionLoop ws st ops resumed)"
| "completionLoop (Completions cs # ws) st ops resumed =
     (case drainCompletions (foldl post_cqe st cs) ops resumed of
        (Drained, st, ops, resumed) \<Rightarrow> completionLoop ws st ops resumed
      | (Stopped, st, ops, resumed) \<Rightarrow> (Returned, st, ops, resumed)
      | (Dangling a, st, ops, resumed) \<Rightarrow> (Crashed a, st, ops, resumed))"

text \<open>
  The parts of \<open>closeRing\<close>: the completion thread is told to stop, by a \<open>NOP\<close> entry or by closing the ring, and joined; then the
  mappings and the descriptor are released. \<open>ws\<close> is what the thread still goes through; \<^const>\<open>None\<close>: the thread never ends.
\<close>

definition stop_completions :: "kernel \<Rightarrow> State \<times> resources \<Rightarrow> State \<times> resources" where
  "stop_completions k st =
     (let (st, r) = st; st = st\<lparr>stopping := True\<rparr>; (status, st) = submitRaw k st sqe_zero 0
      in if \<not> ok status then (st\<lparr>ringFd := -1\<rparr>, close_fd (ringFd st) r) else (st, r))"

definition release_ring :: "State \<Rightarrow> resources \<Rightarrow> resources" where
  "release_ring st r =
     (let r = (if sqesPtr st \<noteq> 0 then munmap (sqesPtr st) (sqesSize st) r else r);
          r = (if cqRingPtr st \<noteq> 0 \<and> cqRingPtr st \<noteq> sqRingPtr st then munmap (cqRingPtr st) (cqRingSize st) r else r);
          r = (if sqRingPtr st \<noteq> 0 then munmap (sqRingPtr st) (sqRingSize st) r else r)
      in if ringFd st \<ge> 0 then close_fd (ringFd st) r else r)"

definition closeRing ::
  "kernel \<Rightarrow> wakeup list \<Rightarrow> frames \<Rightarrow> State option \<times> resources \<Rightarrow> (State option \<times> resources) option" where
  "closeRing k ws ops st =
     (case st of
        (None, r) \<Rightarrow> Some (None, r)
      | (Some st, r) \<Rightarrow>
        if completionThread st
        then let (st, r) = stop_completions k (st, r)
             in case completionLoop ws st ops [] of
                  (Returned, st, _, _) \<Rightarrow> Some (None, release_ring st r)
                | _ \<Rightarrow> None
        else Some (None, release_ring st r))"

text \<open>One mapping of \<open>init\<close>: the address, or the error and the state closed again.\<close>

definition map_area :: "uring_env \<Rightarrow> u64 \<Rightarrow> ring_area \<Rightarrow> State \<times> resources \<Rightarrow> string + (u64 \<times> resources)" where
  "map_area e n area st =
     (let (st, r) = st
      in case mmap e n (ringFd st) area r of
           Inl err \<Rightarrow> Inl err
         | Inr p \<Rightarrow> Inr (p, r\<lparr>maps := (p, n) # maps r\<rparr>))"

text \<open>\<open>closeRing\<close> from within \<open>init\<close>, before the completion thread exists.\<close>

definition init_failed :: "string \<Rightarrow> string \<Rightarrow> State \<times> resources \<Rightarrow> Status \<times> State option \<times> resources" where
  "init_failed what err st = (IoError (errnoMessage what err), None, release_ring (fst st) (snd st))"

text \<open>The last part of \<open>init\<close>: the pointers into the rings, and the completion thread.\<close>

definition init_pointers :: "uring_env \<Rightarrow> UringOptions \<Rightarrow> io_uring_params \<Rightarrow> State \<Rightarrow> State" where
  "init_pointers e options params st =
     (let sqBase = sqRingPtr st; cqBase = cqRingPtr st
      in st\<lparr>sq_head := word_at e (sqBase + ucast (sq_off_head params)),
            sq_tail := word_at e (sqBase + ucast (sq_off_tail params)),
            sq_ringMask := word_at e (sqBase + ucast (sq_off_ring_mask params)),
            sq_ringEntries := word_at e (sqBase + ucast (sq_off_ring_entries params)),
            sq_flags := word_at e (sqBase + ucast (sq_off_flags params)),
            sq_array := array_at e (sqBase + ucast (sq_off_array params)),
            cq_head := word_at e (cqBase + ucast (cq_off_head params)),
            cq_tail := word_at e (cqBase + ucast (cq_off_tail params)),
            cq_ringMask := word_at e (cqBase + ucast (cq_off_ring_mask params)),
            cq_ringEntries := word_at e (cqBase + ucast (cq_off_ring_entries params)),
            cqes := cqes_at e (cqBase + ucast (cq_off_cqes params)),
            sqes := sqes_at e (sqesPtr st),
            sqPollEnabled := uopt_sqPoll options,
            completionThread := True\<rparr>)"

text \<open>The sizes of the rings, which share one mapping on kernels that offer it.\<close>

definition init_sizes :: "int \<Rightarrow> io_uring_params \<Rightarrow> State" where
  "init_sizes fd params =
     (let st = State_new\<lparr>ringFd := fd,
            sqRingSize := ucast (sq_off_array params) + ucast (par_sq_entries params) * 4,
            cqRingSize := ucast (cq_off_cqes params) + ucast (par_cq_entries params) * 16\<rparr>
      in if par_single_mmap params
         then let st = st\<lparr>singleMmap := True, sqRingSize := max (sqRingSize st) (cqRingSize st)\<rparr>
              in st\<lparr>cqRingSize := sqRingSize st\<rparr>
         else st)"

text \<open>The three mappings; on an error, which one failed and what is held until then.\<close>

definition init_maps ::
  "uring_env \<Rightarrow> io_uring_params \<Rightarrow> State \<times> resources \<Rightarrow> (string \<times> string \<times> State \<times> resources) + (State \<times> resources)" where
  "init_maps e params st =
     (let (st, r) = st
      in case map_area e (sqRingSize st) IORING_OFF_SQ_RING (st, r) of
           Inl err \<Rightarrow> Inl (''mmap sq ring'', err, st, r)
         | Inr (p, r) \<Rightarrow>
           let st = st\<lparr>sqRingPtr := p\<rparr>
           in case (if singleMmap st then Inr (sqRingPtr st, r)
                    else map_area e (cqRingSize st) IORING_OFF_CQ_RING (st, r)) of
                Inl err \<Rightarrow> Inl (''mmap cq ring'', err, st, r)
              | Inr (q, r) \<Rightarrow>
                let st = st\<lparr>cqRingPtr := q, sqesSize := ucast (par_sq_entries params) * 64\<rparr>
                in case map_area e (sqesSize st) IORING_OFF_SQES (st, r) of
                     Inl err \<Rightarrow> Inl (''mmap sqes'', err, st, r)
                   | Inr (p, r) \<Rightarrow> Inr (st\<lparr>sqesPtr := p\<rparr>, r))"

definition uring_init :: "uring_env \<Rightarrow> UringOptions \<Rightarrow> resources \<Rightarrow> Status \<times> State option \<times> resources" where
  "uring_init e options r =
     (let flags = (if uopt_sqPoll options then (True, uopt_sqPollIdleMs options) else (False, 0))
      in case io_uring_setup e (uopt_entries options) flags r of
           Inl err \<Rightarrow> (IoError (errnoMessage ''io_uring_setup'' err), None, r)
         | Inr (fd, params) \<Rightarrow>
           case init_maps e params (init_sizes fd params, r\<lparr>fds := fd # fds r\<rparr>) of
             Inl (what, err, st, r) \<Rightarrow> init_failed what err (st, r)
           | Inr (st, r) \<Rightarrow> (Ok, Some (init_pointers e options params st), r))"

definition Create :: "uring_env \<Rightarrow> UringOptions \<Rightarrow> resources \<Rightarrow> State Result \<times> resources" where
  "Create e options r =
     (case uring_init e options r of (status, ex, r) \<Rightarrow> (if \<not> ok status then Inl status else Inr (the ex), r))"

record UringStats =
  ustat_completionLoopCompletions :: u64
  ustat_sqPollEnabled :: bool

definition Uring_DebugStatsForTest :: "State option \<Rightarrow> UringStats" where
  "Uring_DebugStatsForTest ex =
     (case ex of
        None \<Rightarrow> \<lparr>ustat_completionLoopCompletions = 0, ustat_sqPollEnabled = False\<rparr>
      | Some st \<Rightarrow> \<lparr>ustat_completionLoopCompletions = completionLoopCompletions st, ustat_sqPollEnabled = sqPollEnabled st\<rparr>)"

section \<open>Everything acquired is released once\<close>

text \<open>What the manual promises: a descriptor that was not open before, a mapping where none was.\<close>

definition documented_setup :: "uring_env \<Rightarrow> bool" where
  "documented_setup e \<longleftrightarrow>
     (\<forall>n flags r fd params. io_uring_setup e n flags r = Inr (fd, params) \<longrightarrow> fd \<ge> 0 \<and> fd \<notin> set (fds r))"

definition documented_mmap :: "uring_env \<Rightarrow> bool" where
  "documented_mmap e \<longleftrightarrow>
     (\<forall>n fd area r p. mmap e n fd area r = Inr p \<longrightarrow> p \<noteq> 0 \<and> p \<notin> fst ` set (maps r))"

lemma map_area_Inr:
  assumes "documented_mmap e" and "map_area e n area (st, r) = Inr (p, r')"
  shows "r' = r\<lparr>maps := (p, n) # maps r\<rparr> \<and> p \<noteq> 0 \<and> p \<notin> fst ` set (maps r) \<and> mmap e n (ringFd st) area r = Inr p"
  using assms unfolding documented_mmap_def by (auto simp: map_area_def split: sum.splits)

text \<open>The ring holds these mappings and this descriptor, and nothing else was acquired since \<open>r\<close>.\<close>

definition holds :: "State \<Rightarrow> resources \<Rightarrow> resources \<Rightarrow> bool" where
  "holds st r r' \<longleftrightarrow>
     r' = r\<lparr>fds := (if ringFd st \<ge> 0 then ringFd st # fds r else fds r),
            maps := (if sqesPtr st \<noteq> 0 then [(sqesPtr st, sqesSize st)] else []) @
              (if cqRingPtr st \<noteq> 0 \<and> cqRingPtr st \<noteq> sqRingPtr st then [(cqRingPtr st, cqRingSize st)] else []) @
              (if sqRingPtr st \<noteq> 0 then [(sqRingPtr st, sqRingSize st)] else []) @ maps r\<rparr>"

lemma release_holds:
  assumes "holds st r r'"
  shows "release_ring st r' = r"
  using assms by (simp add: holds_def release_ring_def munmap_def close_fd_def Let_def)

lemma init_sizes_fields [simp]:
  "ringFd (init_sizes fd params) = fd" "sqRingPtr (init_sizes fd params) = 0" "cqRingPtr (init_sizes fd params) = 0"
  "sqesPtr (init_sizes fd params) = 0" "singleMmap (init_sizes fd params) = par_single_mmap params"
  "stopping (init_sizes fd params) = False"
  by (simp_all add: init_sizes_def State_new_def Let_def)

text \<open>What a mapping of the ring \<open>fd\<close> can be.\<close>

definition mapped :: "uring_env \<Rightarrow> int \<Rightarrow> ring_area \<Rightarrow> u64 \<Rightarrow> bool" where
  "mapped e fd area p \<longleftrightarrow> (\<exists>n r. mmap e n fd area r = Inr p)"

lemma map_area_mapped:
  "map_area e n area (st, r) = Inr (p, r') \<Longrightarrow> mapped e (ringFd st) area p"
  by (auto simp: map_area_def mapped_def split: sum.splits)

text \<open>Each mapping adds to what the ring holds.\<close>

lemma holds_sq:
  assumes "documented_mmap e" and "map_area e (sqRingSize st) area (st, r) = Inr (p, r1)" and "holds st r0 r"
    and "sqRingPtr st = 0" and "cqRingPtr st = 0" and "sqesPtr st = 0"
  shows "holds (st\<lparr>sqRingPtr := p\<rparr>) r0 r1"
  using map_area_Inr [OF assms(1,2)] assms(3-6) by (simp add: holds_def)

lemma holds_cq:
  assumes "documented_mmap e" and "map_area e (cqRingSize st) area (st, r) = Inr (q, r1)" and "holds st r0 r"
    and "sqRingPtr st \<noteq> 0" and "cqRingPtr st = 0" and "sqesPtr st = 0"
  shows "holds (st\<lparr>cqRingPtr := q, sqesSize := n\<rparr>) r0 r1"
proof -
  note m = map_area_Inr [OF assms(1,2)]
  have "sqRingPtr st \<in> fst ` set (maps r)" using assms(3-6) by (simp add: holds_def)
  then have "q \<noteq> sqRingPtr st" using m by auto
  then show ?thesis using m assms(3-6) by (simp add: holds_def)
qed

lemma holds_shared:
  assumes "holds st r0 r" and "cqRingPtr st = 0" and "sqesPtr st = 0"
  shows "holds (st\<lparr>cqRingPtr := sqRingPtr st, sqesSize := n\<rparr>) r0 r"
  using assms by (simp add: holds_def)

lemma holds_sqes:
  assumes "documented_mmap e" and "map_area e (sqesSize st) area (st, r) = Inr (p, r1)" and "holds st r0 r"
    and "sqesPtr st = 0"
  shows "holds (st\<lparr>sqesPtr := p\<rparr>) r0 r1"
  using map_area_Inr [OF assms(1,2)] assms(3,4) by (simp add: holds_def)

lemma init_maps_holds:
  assumes "documented_mmap e" and "sqRingPtr st = 0" and "cqRingPtr st = 0" and "sqesPtr st = 0" and "holds st r0 r"
  shows "case init_maps e params (st, r) of
      Inl (what, err, st', r') \<Rightarrow> holds st' r0 r'
    | Inr (st', r') \<Rightarrow> holds st' r0 r' \<and> ringFd st' = ringFd st \<and> stopping st' = stopping st \<and>
        mapped e (ringFd st) IORING_OFF_SQ_RING (sqRingPtr st') \<and> mapped e (ringFd st) IORING_OFF_SQES (sqesPtr st') \<and>
        (if singleMmap st then cqRingPtr st' = sqRingPtr st' else mapped e (ringFd st) IORING_OFF_CQ_RING (cqRingPtr st'))"
proof (cases "map_area e (sqRingSize st) IORING_OFF_SQ_RING (st, r)")
  case (Inl err)
  then show ?thesis using assms(5) by (simp add: init_maps_def)
next
  case (Inr a)
  then obtain p r1 where m1: "map_area e (sqRingSize st) IORING_OFF_SQ_RING (st, r) = Inr (p, r1)" by (cases a) simp
  have p: "p \<noteq> 0" "mapped e (ringFd st) IORING_OFF_SQ_RING p"
    using map_area_Inr [OF assms(1) m1] map_area_mapped [OF m1] by simp_all
  define st1 where "st1 = st\<lparr>sqRingPtr := p\<rparr>"
  have h1: "holds st1 r0 r1" unfolding st1_def by (rule holds_sq [OF assms(1) m1 assms(5,2-4)])
  let ?cq = "if singleMmap st1 then Inr (sqRingPtr st1, r1) else map_area e (cqRingSize st1) IORING_OFF_CQ_RING (st1, r1)"
  define st2 where "st2 q = st1\<lparr>cqRingPtr := q, sqesSize := ucast (par_sq_entries params) * 64\<rparr>" for q
  have eq: "init_maps e params (st, r) =
    (case ?cq of Inl err \<Rightarrow> Inl (''mmap cq ring'', err, st1, r1)
     | Inr (q, r) \<Rightarrow> case map_area e (sqesSize (st2 q)) IORING_OFF_SQES (st2 q, r) of
         Inl err \<Rightarrow> Inl (''mmap sqes'', err, st2 q, r) | Inr (p, r) \<Rightarrow> Inr ((st2 q)\<lparr>sqesPtr := p\<rparr>, r))"
    unfolding init_maps_def Let_def prod.case m1 sum.case st1_def st2_def by (rule refl)
  show ?thesis
  proof (cases ?cq)
    case (Inl err)
    then show ?thesis using h1 by (simp only: eq sum.case prod.case)
  next
    case (Inr b)
    then obtain q r2 where m2: "?cq = Inr (q, r2)" by (cases b) simp
    have h2: "holds (st2 q) r0 r2" and q: "if singleMmap st then q = p else mapped e (ringFd st) IORING_OFF_CQ_RING q"
      using m2 holds_cq [OF assms(1) _ h1] holds_shared [OF h1] p(1) assms(3,4)
      by (auto simp: st1_def st2_def split: if_splits dest: map_area_mapped)
    show ?thesis
    proof (cases "map_area e (sqesSize (st2 q)) IORING_OFF_SQES (st2 q, r2)")
      case (Inl err)
      then show ?thesis using h2 by (simp only: eq m2 sum.case prod.case)
    next
      case (Inr c)
      then obtain s r3 where m3: "map_area e (sqesSize (st2 q)) IORING_OFF_SQES (st2 q, r2) = Inr (s, r3)"
        by (cases c) simp
      have "holds ((st2 q)\<lparr>sqesPtr := s\<rparr>) r0 r3"
        using holds_sqes [OF assms(1) m3 h2] assms(4) by (simp add: st1_def st2_def)
      moreover have "mapped e (ringFd st) IORING_OFF_SQES s"
        using map_area_mapped [OF m3] by (simp add: st1_def st2_def)
      ultimately show ?thesis
        using p(2) q unfolding eq m2 sum.case prod.case m3 by (simp add: st1_def st2_def)
    qed
  qed
qed

lemma uring_init_cases:
  assumes "documented_setup e" and "documented_mmap e" and "uring_init e options r = (status, ex, r')"
  obtains (failed) "\<not> ok status" "ex = None" "r' = r"
  | (created) st params flags where "status = Ok" "ex = Some (init_pointers e options params st)" "holds st r r'"
      "io_uring_setup e (uopt_entries options) flags r = Inr (ringFd st, params)" "ringFd st \<ge> 0" "\<not> stopping st"
      "mapped e (ringFd st) IORING_OFF_SQ_RING (sqRingPtr st)" "mapped e (ringFd st) IORING_OFF_SQES (sqesPtr st)"
      "if par_single_mmap params then cqRingPtr st = sqRingPtr st else mapped e (ringFd st) IORING_OFF_CQ_RING (cqRingPtr st)"
proof -
  define flags where "flags = (if uopt_sqPoll options then (True, uopt_sqPollIdleMs options) else (False, 0))"
  show thesis
  proof (cases "io_uring_setup e (uopt_entries options) flags r")
    case (Inl err)
    then show thesis using assms(3) failed by (auto simp: uring_init_def flags_def)
  next
    case (Inr a)
    then obtain fd params where su: "io_uring_setup e (uopt_entries options) flags r = Inr (fd, params)" by (cases a) simp
    then have fd: "fd \<ge> 0" using assms(1) unfolding documented_setup_def by blast
    let ?maps = "init_maps e params (init_sizes fd params, r\<lparr>fds := fd # fds r\<rparr>)"
    have run: "(status, ex, r') = (case ?maps of Inl (what, err, st, r) \<Rightarrow> init_failed what err (st, r)
        | Inr (st, r) \<Rightarrow> (Ok, Some (init_pointers e options params st), r))"
      using assms(3) su by (simp add: uring_init_def flags_def)
    have "holds (init_sizes fd params) r (r\<lparr>fds := fd # fds r\<rparr>)" using fd by (simp add: holds_def)
    note maps = init_maps_holds [OF assms(2) init_sizes_fields(2-4) this, of params]
    show thesis
    proof (cases ?maps)
      case (Inl b)
      obtain what err st r1 where b: "b = (what, err, st, r1)" by (metis prod_cases4)
      then have "r' = r" "status = IoError (errnoMessage what err)" "ex = None"
        using run maps release_holds unfolding Inl by (simp_all add: init_failed_def)
      then show thesis using failed by simp
    next
      case (Inr b)
      then obtain st r1 where "?maps = Inr (st, r1)" by (cases b) simp
      then show thesis
        using run maps fd su created [of params st flags] by (simp split: if_splits)
    qed
  qed
qed

text \<open>The completion thread and the stop request leave the pointers alone.\<close>

definition same_maps :: "State \<Rightarrow> State \<Rightarrow> bool" where
  "same_maps st st' \<longleftrightarrow> sqesPtr st' = sqesPtr st \<and> sqesSize st' = sqesSize st \<and> cqRingPtr st' = cqRingPtr st \<and>
     cqRingSize st' = cqRingSize st \<and> sqRingPtr st' = sqRingPtr st \<and> sqRingSize st' = sqRingSize st \<and>
     completionThread st' = completionThread st"

lemma drain_same: "drainCompletions st ops resumed = (e, st', ops', resumed') \<Longrightarrow> same_maps st st' \<and> ringFd st' = ringFd st"
proof -
  assume run: "drainCompletions st ops resumed = (e, st', ops', resumed')"
  obtain e1 rest ops1 resumed1 where "deliver (stopping st) (cq_pending st) ops resumed = (e1, rest, ops1, resumed1)"
    by (metis prod_cases4)
  from drain_deliver [OF refl this] run show ?thesis by (auto simp: same_maps_def)
qed

lemma post_same: "same_maps st (foldl post_cqe st cs) \<and> ringFd (foldl post_cqe st cs) = ringFd st"
  by (induction cs rule: rev_induct) (simp_all add: same_maps_def post_cqe_def)

lemma completionLoop_same:
  "completionLoop ws st ops resumed = (e, st', ops', resumed') \<Longrightarrow> same_maps st st' \<and> ringFd st' = ringFd st"
proof (induction ws st ops resumed rule: completionLoop.induct)
  case (5 cs ws st ops resumed)
  obtain d st1 ops1 resumed1 where drain: "drainCompletions (foldl post_cqe st cs) ops resumed = (d, st1, ops1, resumed1)"
    by (metis prod_cases4)
  note same = drain_same [OF drain] post_same [of st cs]
  show ?case
  proof (cases d)
    case Drained
    with 5(2) drain have "completionLoop ws st1 ops1 resumed1 = (e, st', ops', resumed')" by simp
    then have "same_maps st1 st' \<and> ringFd st' = ringFd st1"
      using 5(1) [OF drain [symmetric] Drained refl refl] by simp
    then show ?thesis using same by (simp add: same_maps_def)
  qed (use 5(2) drain same in \<open>auto simp: same_maps_def\<close>)
qed (auto simp: same_maps_def split: if_splits)

lemma submitRaw_same: "submitRaw k st e a = (status, st') \<Longrightarrow> same_maps st st' \<and> ringFd st' = ringFd st"
  by (auto simp: submitRaw_def Let_def same_maps_def split: if_splits prod.splits)

lemma holds_closed:
  "holds st r r' \<Longrightarrow> ringFd st \<ge> 0 \<Longrightarrow> holds (st\<lparr>ringFd := -1\<rparr>) r (close_fd (ringFd st) r')"
  by (simp add: holds_def close_fd_def)

lemma holds_same: "holds st r r' \<Longrightarrow> same_maps st st' \<Longrightarrow> ringFd st' = ringFd st \<Longrightarrow> holds st' r r'"
  by (simp add: holds_def same_maps_def)

lemma stop_completions_holds:
  assumes "stop_completions k (st, r') = (st', r'')" and "holds st r r'" and "ringFd st \<ge> 0"
  shows "holds st' r r''"
proof -
  obtain status st1 where sub: "submitRaw k (st\<lparr>stopping := True\<rparr>) sqe_zero 0 = (status, st1)" by fastforce
  have same: "same_maps st st1" "ringFd st1 = ringFd st" using submitRaw_same [OF sub] by (simp_all add: same_maps_def)
  have "(st', r'') = (if \<not> ok status then (st1\<lparr>ringFd := -1\<rparr>, close_fd (ringFd st1) r') else (st1, r'))"
    using assms(1) sub by (simp add: stop_completions_def Let_def)
  then show ?thesis
    using holds_same [OF assms(2) same] holds_closed [of st1 r r'] same(2) assms(3) by (cases "ok status") simp_all
qed

lemma closeRing_releases:
  assumes "holds st r r'" and "ringFd st \<ge> 0" and "closeRing k ws ops (Some st, r') = Some res"
  shows "res = (None, r)"
proof (cases "completionThread st")
  case True
  obtain st1 r1 where stop: "stop_completions k (st, r') = (st1, r1)" by fastforce
  obtain e st2 ops2 resumed2 where loop: "completionLoop ws st1 ops [] = (e, st2, ops2, resumed2)" by (metis prod_cases4)
  have "holds st1 r r1" by (rule stop_completions_holds [OF stop assms(1,2)])
  then have "holds st2 r r1"
    using completionLoop_same [OF loop] holds_same by blast
  then show ?thesis
    using assms(3) True stop loop release_holds by (auto simp: closeRing_def split: loop_end.splits)
qed (use assms release_holds in \<open>auto simp: closeRing_def\<close>)

section \<open>The completion thread\<close>

text \<open>The completions of a sequence of wake-ups.\<close>

fun delivered :: "wakeup list \<Rightarrow> io_uring_cqe list" where
  "delivered [] = []"
| "delivered (Completions cs # ws) = cs @ delivered ws"
| "delivered (_ # ws) = delivered ws"

lemma stopping_post [simp]: "stopping (post_cqe st c) = stopping st"
  by (simp add: post_cqe_def)

lemma foldl_post:
  assumes "cq_wf st" and "length (cq_pending st) + length cs \<le> length (cqes st)"
  shows "cq_pending (foldl post_cqe st cs) = cq_pending st @ cs \<and> cq_wf (foldl post_cqe st cs) \<and>
    length (cqes (foldl post_cqe st cs)) = length (cqes st) \<and> stopping (foldl post_cqe st cs) = stopping st"
  using assms
proof (induction cs arbitrary: st)
  case (Cons c cs)
  have "length (cq_pending st) < length (cqes st)" using Cons.prems(2) by (simp del: length_cq_pending)
  note post = cq_pending_post [OF Cons.prems(1) this, of c]
  have "length (cq_pending (post_cqe st c)) + length cs \<le> length (cqes (post_cqe st c))"
    using Cons.prems(2) unfolding post by (simp del: length_cq_pending)
  from Cons.IH [OF _ this] show ?case using Cons.prems(1) by (simp add: post del: length_cq_pending)
qed simp

text \<open>A wake-up with completions of operations that still wait, at most as many as the ring holds.\<close>

fun serves :: "frames \<Rightarrow> nat \<Rightarrow> wakeup \<Rightarrow> bool" where
  "serves ops n (Completions cs) \<longleftrightarrow> length cs \<le> n \<and> (\<forall>c \<in> set cs. waiting ops c)"
| "serves ops n StopStored \<longleftrightarrow> False"
| "serves ops n _ \<longleftrightarrow> True"

lemma serves_cong: "waiting ops' = waiting ops \<Longrightarrow> serves ops' = serves ops"
  by (rule ext, rule ext, rename_tac n w, case_tac w) simp_all

definition quiet_ring :: "State \<Rightarrow> bool" where
  "quiet_ring st \<longleftrightarrow> cq_wf st \<and> cq_pending st = [] \<and> \<not> stopping st"

lemma drain_waiting:
  assumes "quiet_ring st" and "length cs \<le> length (cqes st)" and "\<forall>c \<in> set cs. waiting ops c"
  shows "\<exists>st' ops'. drainCompletions (foldl post_cqe st cs) ops resumed =
      (Drained, st', ops', resumed @ map cqe_user_data (filter (resumes ops) cs)) \<and>
    quiet_ring st' \<and> length (cqes st') = length (cqes st) \<and> waiting ops' = waiting ops \<and> resumes ops' = resumes ops"
proof -
  let ?st = "foldl post_cqe st cs"
  have post: "cq_pending ?st = cs" "cq_wf ?st" "length (cqes ?st) = length (cqes st)" "\<not> stopping ?st"
    using foldl_post [of st cs] assms(1,2) by (simp_all add: quiet_ring_def del: length_cq_pending)
  obtain ops' where d: "deliver (stopping ?st) cs ops resumed =
      (Drained, [], ops', resumed @ map cqe_user_data (filter (resumes ops) cs))"
    and same: "waiting ops' = waiting ops" "resumes ops' = resumes ops"
    using deliver_waiting [OF assms(3)] by blast
  obtain h n where run: "drainCompletions ?st ops resumed =
      (Drained, ?st\<lparr>cq_head := h, completionLoopCompletions := n\<rparr>, ops',
       resumed @ map cqe_user_data (filter (resumes ops) cs))"
    "cq_pending (?st\<lparr>cq_head := h, completionLoopCompletions := n\<rparr>) = []"
    using drain_deliver [OF post(1) d] by blast
  have "quiet_ring (?st\<lparr>cq_head := h, completionLoopCompletions := n\<rparr>)"
    using run(2) post(2,4) by (simp add: quiet_ring_def cq_wf_def)
  then show ?thesis using run(1) same post(3) by simp
qed

lemma completionLoop_serves:
  assumes "quiet_ring st" and "\<forall>w \<in> set ws. serves ops (length (cqes st)) w"
  shows "\<exists>st' ops'. quiet_ring st' \<and> (\<forall>rest. completionLoop (ws @ rest) st ops resumed =
      completionLoop rest st' ops' (resumed @ map cqe_user_data (filter (resumes ops) (delivered ws))))"
  using assms
proof (induction ws arbitrary: st ops resumed)
  case (Cons w ws)
  show ?case
  proof (cases w)
    case (Completions cs)
    then obtain st1 ops1 where drain: "drainCompletions (foldl post_cqe st cs) ops resumed =
        (Drained, st1, ops1, resumed @ map cqe_user_data (filter (resumes ops) cs))"
      and st1: "quiet_ring st1" "length (cqes st1) = length (cqes st)"
      and same: "waiting ops1 = waiting ops" "resumes ops1 = resumes ops"
      using drain_waiting [of st cs ops resumed] Cons.prems by auto
    have "\<forall>w \<in> set ws. serves ops1 (length (cqes st1)) w"
      using Cons.prems(2) serves_cong [OF same(1)] st1(2) by simp
    from Cons.IH [OF st1(1) this, of "resumed @ map cqe_user_data (filter (resumes ops) cs)"]
    show ?thesis using Completions drain by (simp add: same(2))
  qed (use Cons.prems Cons.IH [of st ops resumed] in \<open>auto simp: quiet_ring_def\<close>)
qed (use exI in fastforce)

text \<open>Once the stop flag is stored, the completion of the \<open>NOP\<close> ends the thread.\<close>

lemma completionLoop_stopped:
  assumes "cq_wf st" and "cq_pending st = []" and "stopping st" and "cqe_user_data c = 0"
  shows "\<exists>st'. completionLoop [Completions [c]] st ops resumed = (Returned, st', ops, resumed)"
proof -
  define st1 where "st1 = post_cqe st c"
  have "length (cqes st) > 0" using assms(1) by (auto simp: cq_wf_def)
  then have "cq_pending st1 = [c]" using cq_pending_post [of st c] assms(1,2) by (simp add: st1_def)
  moreover have "stopping st1" using assms(3) by (simp add: st1_def)
  ultimately have "drainCompletions st1 ops resumed = (Stopped, st1\<lparr>cq_head := cq_head st1 + 1\<rparr>, ops, resumed)"
    using assms(4) by (subst drain_unfold) simp
  then show ?thesis by (simp add: st1_def)
qed

lemma completionLoop_stops:
  assumes "quiet_ring st" and "cqe_user_data c = 0"
  shows "\<exists>st'. completionLoop [StopStored, Completions [c]] st ops resumed = (Returned, st', ops, resumed)"
  using completionLoop_stopped [of "st\<lparr>stopping := True\<rparr>" c ops resumed] assms
  by (simp add: quiet_ring_def cq_wf_def cq_pending_def)

lemma closeRing_returns:
  assumes "idle st" and "cqe_user_data c = 0"
  shows "\<exists>res. closeRing k [Completions [c]] ops (Some st, r) = Some res"
proof (cases "completionThread st")
  case True
  obtain status st1 where sub: "submitRaw k (st\<lparr>stopping := True\<rparr>) sqe_zero 0 = (status, st1)" by fastforce
  obtain st2 r2 where stop: "stop_completions k (st, r) = (st2, r2)" by fastforce
  then have "st2 = st1 \<or> st2 = st1\<lparr>ringFd := -1\<rparr>"
    using sub by (auto simp: stop_completions_def Let_def split: if_splits)
  then have "cq_wf st2" "cq_head st2 = cq_tail st2" "stopping st2"
    using submitRaw_fields [OF sub] assms(1) by (auto simp: idle_def cq_wf_def)
  from completionLoop_stopped [OF this(1) _ this(3) assms(2), of ops "[]"] this(2)
  obtain st3 where "completionLoop [Completions [c]] st2 ops [] = (Returned, st3, ops, [])"
    by (auto simp: cq_pending_def)
  then show ?thesis using True stop by (simp add: closeRing_def)
qed (simp add: closeRing_def)

section \<open>The ring that was set up\<close>

text \<open>
  The memory of a new ring: both rings are empty, their sizes are powers of two, the submission ring has at least as many
  entries as were asked for, and the masks fit.
\<close>

definition new_ring_at :: "uring_env \<Rightarrow> io_uring_params \<Rightarrow> u32 \<Rightarrow> u64 \<Rightarrow> u64 \<Rightarrow> u64 \<Rightarrow> bool" where
  "new_ring_at e params n p q s \<longleftrightarrow>
     (\<exists>i j. i \<le> 15 \<and> 1 \<le> j \<and> j \<le> 15 \<and> n \<le> 2 ^ i \<and>
        word_at e (p + ucast (sq_off_ring_entries params)) = 2 ^ i \<and>
        word_at e (p + ucast (sq_off_ring_mask params)) = 2 ^ i - 1 \<and>
        word_at e (p + ucast (sq_off_head params)) = word_at e (p + ucast (sq_off_tail params)) \<and>
        length (array_at e (p + ucast (sq_off_array params))) = 2 ^ i \<and> length (sqes_at e s) = 2 ^ i \<and>
        word_at e (q + ucast (cq_off_ring_mask params)) = 2 ^ j - 1 \<and>
        word_at e (q + ucast (cq_off_head params)) = word_at e (q + ucast (cq_off_tail params)) \<and>
        length (cqes_at e (q + ucast (cq_off_cqes params))) = 2 ^ j)"

definition documented_ring :: "uring_env \<Rightarrow> bool" where
  "documented_ring e \<longleftrightarrow>
     (\<forall>n flags r fd params p q s. io_uring_setup e n flags r = Inr (fd, params) \<longrightarrow>
        mapped e fd IORING_OFF_SQ_RING p \<longrightarrow> mapped e fd IORING_OFF_SQES s \<longrightarrow>
        (if par_single_mmap params then q = p else mapped e fd IORING_OFF_CQ_RING q) \<longrightarrow> new_ring_at e params n p q s)"

lemma unat_power2:
  assumes "i \<le> 15"
  shows "unat ((2 :: u32) ^ i) = 2 ^ i"
proof -
  have "(2 :: nat) ^ i < 2 ^ 32" using assms by (intro power_strict_increasing) simp_all
  then show ?thesis using unat_of_nat_u32 [of "2 ^ i"] by simp
qed

lemma created_ring_idle:
  assumes "documented_setup e" and "documented_mmap e" and "documented_ring e"
    and "uring_init e options r = (status, ex, r')" and "ok status" and "2 \<le> uopt_entries options"
  shows "executor_ready ex" and "\<exists>st. ex = Some st \<and> completionThread st \<and> holds st r r' \<and> ringFd st \<ge> 0"
proof -
  show "executor_ready ex"
    using assms(1,2,4)
  proof (cases rule: uring_init_cases)
    case (created st params flags)
    let ?p = "sqRingPtr st" and ?q = "cqRingPtr st" and ?st = "init_pointers e options params st"
    have "new_ring_at e params (uopt_entries options) ?p ?q (sqesPtr st)"
      using assms(3) created(4,7-9) unfolding documented_ring_def by blast
    then obtain i j where ij: "i \<le> 15" "1 \<le> j" "j \<le> 15" "uopt_entries options \<le> 2 ^ i"
      "sq_ringEntries ?st = 2 ^ i" "sq_ringMask ?st = 2 ^ i - 1" "sq_head ?st = sq_tail ?st"
      "length (sq_array ?st) = 2 ^ i" "length (sqes ?st) = 2 ^ i"
      "cq_ringMask ?st = 2 ^ j - 1" "cq_head ?st = cq_tail ?st" "length (cqes ?st) = 2 ^ j"
      unfolding new_ring_at_def by (auto simp: init_pointers_def Let_def)
    have "sq_wf ?st" using ij unat_power2 [OF ij(1)] by (auto simp: sq_wf_def)
    moreover have "cq_wf ?st" using ij(2,3,10,12) by (auto simp: cq_wf_def)
    moreover have "ringFd ?st \<ge> 0" "\<not> stopping ?st" using created by (simp_all add: init_pointers_def Let_def)
    ultimately have "idle ?st" using ij(4,5,7,11) assms(6) by (simp add: idle_def)
    then show ?thesis using created by (simp add: executor_ready_def)
  qed (use assms(5) in simp)
  show "\<exists>st. ex = Some st \<and> completionThread st \<and> holds st r r' \<and> ringFd st \<ge> 0"
    using assms(1,2,4)
  proof (cases rule: uring_init_cases)
    case (created st params flags)
    then show ?thesis by (auto simp: init_pointers_def Let_def holds_def)
  qed (use assms(5) in simp)
qed

end
