(* ===== verification/DB_Lifecycle.thy ===== *)
theory DB_Lifecycle
  imports Uring_Lifecycle Writer_Queue
begin

text \<open>
  \<open>src/src/db.cc\<close>: \<open>Open\<close>, the destructor and \<open>DebugStatsForTest\<close>. Opening composes what the other theories model: the log
  file is opened or created, the executor is set up, the log is recovered, and the writer thread is started. The file
  system calls are parameters; \<open>files\<close> are the log files by their path.
\<close>

section \<open>Definitions\<close>

record open_env =
  oe_os :: os
  oe_uring :: uring_env
  create_directories :: "string \<Rightarrow> bool"
  open_file :: "string \<Rightarrow> resources \<Rightarrow> string + int"

text \<open>\<open>Throws\<close>: \<open>create_directories\<close> raises an exception, which \<open>Open\<close> does not catch. \<open>Hangs\<close>: recovery waits for an operation, or
  closing for the completion thread, that never ends.\<close>

datatype open_result = Throws | Hangs | Returns "DB Result"

text \<open>\<open>std::filesystem::path(path) / "wal.log"\<close>.\<close>

definition walPath :: "string \<Rightarrow> string" where
  "walPath path = (if path = [] \<or> last path = CHR ''/'' then path @ ''wal.log'' else path @ ''/wal.log'')"

definition uring_options :: "Options \<Rightarrow> UringOptions" where
  "uring_options options = \<lparr>uopt_entries = opt_uringEntries options, uopt_sqPoll = opt_uringSqPoll options,
     uopt_sqPollIdleMs = opt_uringSqPollIdleMs options\<rparr>"

text \<open>
  The destructor, behind the join of the writer thread, and the destructor of the member \<open>executor_\<close>. \<open>ws\<close> is what the completion
  thread still goes through, \<open>ops\<close> the frames that wait for it.
\<close>

definition DB_destroy :: "kernel \<Rightarrow> wakeup list \<Rightarrow> frames \<Rightarrow> DB \<times> resources \<Rightarrow> resources option" where
  "DB_destroy k ws ops st =
     (let (db, r) = st;
          db = db\<lparr>stopWriter := True\<rparr>;
          r = (if walFd db \<ge> 0 then close_fd (walFd db) r else r)
      in map_option snd (closeRing k ws ops (executor db, r)))"

definition Open ::
  "open_env \<Rightarrow> wakeup list \<Rightarrow> string \<Rightarrow> Options \<Rightarrow> (string \<Rightarrow> wal_file option) \<times> resources \<Rightarrow>
   open_result \<times> (string \<Rightarrow> wal_file option) \<times> resources" where
  "Open e ws path options st =
     (let (files, r) = st
      in if \<not> create_directories e path then (Throws, files, r)
      else case open_file e (walPath path) r of
             Inl err \<Rightarrow> (Returns (Inl (IoError (errnoMessage ''open WAL'' err))), files, r)
           | Inr fd \<Rightarrow>
             let r = r\<lparr>fds := fd # fds r\<rparr>;
                 file = (case files (walPath path) of None \<Rightarrow> \<lparr>content = [], stable = []\<rparr> | Some f \<Rightarrow> f);
                 files = files(walPath path \<mapsto> file)
             in case Create (oe_uring e) (uring_options options) r of
                  (Inl s, r) \<Rightarrow> (Returns (Inl s), files, close_fd fd r)
                | (Inr ex, r) \<Rightarrow>
                  let db = (DB_new fd (Some ex) options)\<lparr>uringExecutorCreations := 1\<rparr>;
                      (status, db, file) = recover (oe_os e) (db, file);
                      files = files(walPath path \<mapsto> file)
                  in case status of
                       None \<Rightarrow> (Hangs, files, r)
                     | Some s \<Rightarrow>
                       if \<not> ok s
                       then case DB_destroy (os_kernel (oe_os e)) ws Map.empty (db, r) of
                              None \<Rightarrow> (Hangs, files, r)
                            | Some r \<Rightarrow> (Returns (Inl s), files, r)
                       else (Returns (Inr (db\<lparr>writerThread := True\<rparr>)), files, r))"

record DebugStats =
  ds_uringExecutorCreations :: u64
  ds_uringSqPollEnabled :: bool
  ds_asyncWriterSuspensions :: u64
  ds_groupCommitWaits :: u64
  ds_groupCommitWindowMicros :: u64
  ds_groupCommitTargetSize :: nat
  ds_adaptiveGroupCommitEnabled :: bool
  ds_adaptiveGroupCommitWaits :: u64
  ds_highPressureGroupCommitWindowMicros :: u64
  ds_highPressureGroupCommitTargetSize :: nat
  ds_highPressureGroupCommitQueueThreshold :: nat
  ds_writeGroups :: u64
  ds_maxWriteGroupSize :: u64
  ds_uringCompletionLoopCompletions :: u64
  ds_writerThreadDrains :: u64
  ds_inlineWriterDrains :: u64
  ds_memtableApplyLocks :: u64
  ds_walEncodeBufferReuses :: u64
  ds_walEncodeFixedCapacity :: nat
  ds_walEncodeIovecCapacity :: nat
  ds_writeGroupTimingSamples :: u64
  ds_writeGroupTotalMicros :: u64
  ds_writeGroupWalEncodeMicros :: u64
  ds_writeGroupDurableWaitMicros :: u64
  ds_writeGroupMemtableApplyMicros :: u64
  ds_writerResumeMicros :: u64
  ds_memtableReservedBuckets :: nat
  ds_memtableShardCount :: nat
  ds_memtableEntries :: nat
  ds_memtableApplyShardLocks :: u64
  ds_writeGroupScratchReuses :: u64

definition DB_DebugStatsForTest :: "(Shard \<Rightarrow> nat) \<Rightarrow> DB \<Rightarrow> DebugStats" where
  "DB_DebugStatsForTest bucket_count db =
     (let executorStats = Uring_DebugStatsForTest (executor db); memStats = MemTable_Stats bucket_count (memtable db)
      in \<lparr>ds_uringExecutorCreations = uringExecutorCreations db,
          ds_uringSqPollEnabled = ustat_sqPollEnabled executorStats,
          ds_asyncWriterSuspensions = asyncWriterSuspensions db,
          ds_groupCommitWaits = groupCommitWaits db,
          ds_groupCommitWindowMicros = groupCommitWindowMicros db,
          ds_groupCommitTargetSize = groupCommitTargetSize db,
          ds_adaptiveGroupCommitEnabled = adaptiveGroupCommit db,
          ds_adaptiveGroupCommitWaits = adaptiveGroupCommitWaits db,
          ds_highPressureGroupCommitWindowMicros = highPressureGroupCommitWindowMicros db,
          ds_highPressureGroupCommitTargetSize = highPressureGroupCommitTargetSize db,
          ds_highPressureGroupCommitQueueThreshold = highPressureGroupCommitQueueThreshold db,
          ds_writeGroups = writeGroups db,
          ds_maxWriteGroupSize = maxWriteGroupSize db,
          ds_uringCompletionLoopCompletions = ustat_completionLoopCompletions executorStats,
          ds_writerThreadDrains = writerThreadDrains db,
          ds_inlineWriterDrains = inlineWriterDrains db,
          ds_memtableApplyLocks = stat_applyLocks memStats,
          ds_walEncodeBufferReuses = walEncodeBufferReuses db,
          ds_walEncodeFixedCapacity = fixed_capacity (walRecord db),
          ds_walEncodeIovecCapacity = iovecs_capacity (walRecord db),
          ds_writeGroupTimingSamples = writeGroupTimingSamples db,
          ds_writeGroupTotalMicros = writeGroupTotalMicros db,
          ds_writeGroupWalEncodeMicros = writeGroupWalEncodeMicros db,
          ds_writeGroupDurableWaitMicros = writeGroupDurableWaitMicros db,
          ds_writeGroupMemtableApplyMicros = writeGroupMemtableApplyMicros db,
          ds_writerResumeMicros = writerResumeMicros db,
          ds_memtableReservedBuckets = stat_reservedBuckets memStats,
          ds_memtableShardCount = stat_shardCount memStats,
          ds_memtableEntries = stat_entries memStats,
          ds_memtableApplyShardLocks = stat_applyShardLocks memStats,
          ds_writeGroupScratchReuses = writeGroupScratchReuses db\<rparr>)"

section \<open>The executor keeps what it holds\<close>

text \<open>The kernel writes into the rings, and nowhere else into the memory of the process.\<close>

definition same_ring :: "State \<Rightarrow> State \<Rightarrow> bool" where
  "same_ring st st' \<longleftrightarrow> same_maps st st' \<and> ringFd st' = ringFd st"

definition documented_memory :: "kernel \<Rightarrow> bool" where
  "documented_memory k \<longleftrightarrow> (\<forall>st f. same_ring st (fst (k_run k st f)))"

lemma same_ring_trans: "same_ring a b \<Longrightarrow> same_ring b c \<Longrightarrow> same_ring a c"
  by (simp add: same_ring_def same_maps_def)

lemma await_completion_kept:
  assumes "documented_memory k" and "await_completion k st f ops a = (res, st', f')"
  shows "same_ring st st'"
proof -
  obtain st1 f1 where run: "k_run k st f = (st1, f1)" by fastforce
  obtain e st2 ops2 resumed where drain: "drainCompletions st1 ops [] = (e, st2, ops2, resumed)" by (metis prod_cases4)
  have "same_ring st st1" using assms(1) run unfolding documented_memory_def by (metis fst_conv)
  moreover have "same_ring st1 st2" using drain_same [OF drain] by (simp add: same_ring_def)
  ultimately show ?thesis
    using assms(2) run drain same_ring_trans by (auto simp: await_completion_def Let_def split: if_splits)
qed

lemma await_single_kept:
  assumes "documented_memory k" and "await_single k (Some st) f sqe se oe = (res, ex, f')"
  shows "\<exists>st'. ex = Some st' \<and> same_ring st st'"
proof -
  define op where "op = \<lparr>op_sqe = sqe, continuation = True, result = 0, op_data = []\<rparr>"
  define a where "a = fst (k_frame k)"
  obtain s st1 where sub: "submit k (Some st) a op = (s, Some st1)" and same: "same_ring st st1"
  proof (cases "ringFd st < 0")
    case True
    then show thesis using that [of _ st] by (simp add: submit_def same_ring_def same_maps_def)
  next
    case False
    obtain s st1 where r: "submitRaw k st (op_sqe op) a = (s, st1)" by fastforce
    then show thesis using that [of s st1] False submitRaw_same [OF r] by (simp add: submit_def same_ring_def)
  qed
  obtain ops st2 f2 where aw: "await_completion k st1 f [a \<mapsto> op] a = (ops, st2, f2)" by (metis prod_cases3)
  have "same_ring st st2" using await_completion_kept [OF assms(1) aw] same same_ring_trans by blast
  then show ?thesis
    using assms(2) sub same aw by (auto simp: await_single_def Let_def a_def op_def split: if_splits)
qed

lemma ReadAt_kept:
  assumes "documented_memory k" and "ReadAt k (Some st) f fd buf off = (res, ex, f')"
  shows "\<exists>st'. ex = Some st' \<and> same_ring st st'"
  using assms(2) await_single_kept [OF assms(1)] by (fastforce simp: ReadAt_def Let_def split: prod.splits)

lemma FDataSync_kept:
  assumes "documented_memory k" and "FDataSync k (Some st) f fd = (res, ex, f')"
  shows "\<exists>st'. ex = Some st' \<and> same_ring st st'"
  using assms(2) await_single_kept [OF assms(1)] by (fastforce simp: FDataSync_def Let_def split: prod.splits)

section \<open>Recovery leaves the queue and the descriptors alone\<close>

definition control_fields :: "DB \<Rightarrow> int \<times> nat list \<times> bool \<times> bool \<times> bool" where
  "control_fields db = (walFd db, writers db, writing db, groupCommitArmed db, stopWriter db)"

lemma recoverBatch_kept:
  "foldl (recoverBatch os) (db, m) ds = (db', m') \<Longrightarrow> control_fields db' = control_fields db \<and> executor db' = executor db"
proof (induction ds arbitrary: db m)
  case (Cons d ds)
  obtain db1 m1 where b: "recoverBatch os (db, m) d = (db1, m1)" by fastforce
  then have "control_fields db1 = control_fields db \<and> executor db1 = executor db"
    by (auto simp: recoverBatch_def Let_def control_fields_def split: prod.splits)
  then show ?case using Cons.IH [of db1 m1] Cons.prems b by simp
qed simp

definition kept :: "DB \<Rightarrow> DB \<Rightarrow> bool" where
  "kept db db' \<longleftrightarrow> control_fields db' = control_fields db \<and>
     (\<forall>st. executor db = Some st \<longrightarrow> (\<exists>st'. executor db' = Some st' \<and> same_ring st st'))"

lemma same_ring_refl [simp]: "same_ring st st"
  by (simp add: same_ring_def same_maps_def)

lemma kept_refl: "control_fields db' = control_fields db \<Longrightarrow> executor db' = executor db \<Longrightarrow> kept db db'"
  by (simp add: kept_def)

lemma kept_trans: "kept a b \<Longrightarrow> kept b c \<Longrightarrow> kept a c"
  unfolding kept_def by (metis same_ring_trans)

lemma recoverTail_kept:
  assumes "documented_memory (os_kernel os)" and "executor db = Some st" and "recoverTail os n (db, f) = (res, db', f')"
  shows "kept db db'"
proof -
  have "db' = db \<or> (\<exists>sync ex f1. FDataSync (os_kernel os) (Some st) f1 (walFd db) = (sync, ex, f') \<and> db' = db\<lparr>executor := ex\<rparr>)"
    using assms(2,3)
    by (auto simp: recoverTail_def Let_def split: if_splits prod.splits option.splits)
  then show ?thesis
    using FDataSync_kept [OF assms(1)] assms(2) by (fastforce simp: kept_def control_fields_def)
qed

lemma recoverReplay_kept:
  assumes "documented_memory (os_kernel os)" and "executor db = Some st" and "recoverReplay os bytes (db, f) = (res, db', f')"
  shows "kept db db'"
proof (cases "DecodeLog (os_cpu os) bytes")
  case (Inl s)
  then show ?thesis using assms(3) by (simp add: recoverReplay_def kept_refl)
next
  case (Inr d)
  obtain db1 m where fold: "foldl (recoverBatch os) (db, 0) (batches d) = (db1, m)" by fastforce
  define db2 where "db2 = db1\<lparr>nextSequence := max (nextSequence db1) (m + 1), walOffset := of_nat (validBytes d)\<rparr>"
  have db2: "control_fields db2 = control_fields db" "executor db2 = executor db"
    using recoverBatch_kept [OF fold] by (simp_all add: db2_def control_fields_def)
  have "recoverTail os (length bytes) (db2, f) = (res, db', f')"
    using assms(3) Inr fold by (simp add: recoverReplay_def db2_def)
  from recoverTail_kept [OF assms(1) _ this] have "kept db2 db'" using db2(2) assms(2) by simp
  then show ?thesis using kept_refl [OF db2] kept_trans by blast
qed

lemma recover_kept:
  assumes "documented_memory (os_kernel os)" and "executor db = Some st" and "recover os (db, f) = (res, db', f')"
  shows "kept db db'"
proof (cases "fileSize os f")
  case (Inl s)
  then show ?thesis using assms(3) by (simp add: recover_def kept_refl)
next
  case (Inr n)
  show ?thesis
  proof (cases "n = 0")
    case True
    then show ?thesis using Inr assms(3) by (auto simp: recover_def control_fields_def intro: kept_refl)
  next
    case False
    obtain read ex1 f1 where rd: "ReadAt (os_kernel os) (Some st) f (walFd db) (replicate (unat n) 0) 0 = (read, ex1, f1)"
      by (metis prod_cases3)
    obtain st1 where st1: "ex1 = Some st1" "same_ring st st1" using ReadAt_kept [OF assms(1) rd] by blast
    define db1 where "db1 = db\<lparr>walOffset := n, executor := Some st1\<rparr>"
    have one: "kept db db1" using st1 assms(2) by (simp add: kept_def db1_def control_fields_def)
    have "db' = db1 \<or> (\<exists>bytes. recoverReplay os bytes (db1, f1) = (res, db', f'))"
      using assms(2,3) Inr False rd st1(1)
      by (auto simp: recover_def Let_def db1_def split: option.splits sum.splits)
    moreover have "executor db1 = Some st1" by (simp add: db1_def)
    ultimately show ?thesis
      using one recoverReplay_kept [OF assms(1)] kept_trans by blast
  qed
qed

section \<open>Opening and closing\<close>

definition documented_open :: "open_env \<Rightarrow> bool" where
  "documented_open e \<longleftrightarrow> (\<forall>path r fd. open_file e path r = Inr fd \<longrightarrow> fd \<ge> 0 \<and> fd \<notin> set (fds r))"

text \<open>What the parameters of \<open>Open\<close> promise about descriptors and mappings.\<close>

definition env_documented :: "open_env \<Rightarrow> bool" where
  "env_documented e \<longleftrightarrow> documented_setup (oe_uring e) \<and> documented_mmap (oe_uring e) \<and> documented_open e \<and>
     documented_memory (os_kernel (oe_os e))"

lemma holds_close_below:
  assumes "holds st (r\<lparr>fds := fd # fds r\<rparr>) r'" and "ringFd st \<noteq> fd"
  shows "holds st r (close_fd fd r')"
  using assms by (simp add: holds_def close_fd_def)

lemma holds_init_pointers [simp]: "holds (init_pointers e options params st) r r' = holds st r r'"
  by (simp add: holds_def init_pointers_def Let_def)

text \<open>A new executor holds its ring, whose descriptor is not that of the log.\<close>

lemma Create_cases:
  assumes "documented_setup e" and "documented_mmap e" and "Create e options r = (res, r')"
  obtains (failed) s where "res = Inl s" "r' = r"
  | (created) st where "res = Inr st" "holds st r r'" "ringFd st \<ge> 0" "ringFd st \<notin> set (fds r)"
proof -
  obtain status ex r1 where init: "uring_init e options r = (status, ex, r1)" by (metis prod_cases3)
  show thesis
    using assms(1,2) init
  proof (cases rule: uring_init_cases)
    case failed
    then show thesis using assms(3) init that(1) by (auto simp: Create_def)
  next
    case (created st params flags)
    then have "ringFd st \<notin> set (fds r)" using assms(1) unfolding documented_setup_def by blast
    moreover have "ringFd (init_pointers e options params st) = ringFd st" by (simp add: init_pointers_def Let_def)
    ultimately show thesis
      using assms(3) init that(2) [of "init_pointers e options params st"] created by (auto simp: Create_def)
  qed
qed

lemma DB_destroy_releases:
  assumes "holds st (r\<lparr>fds := fd # fds r\<rparr>) r'" and "ringFd st \<ge> 0" and "ringFd st \<noteq> fd" and "fd \<ge> 0"
    and "executor db = Some st" and "walFd db = fd" and "DB_destroy k ws ops (db, r') = Some r''"
  shows "r'' = r"
proof -
  have "\<exists>res. closeRing k ws ops (Some st, close_fd fd r') = Some res \<and> r'' = snd res"
    using assms(4-7) by (auto simp: DB_destroy_def)
  then show ?thesis
    using closeRing_releases [OF holds_close_below [OF assms(1,3)] assms(2)] by auto
qed

text \<open>What \<open>Open\<close> has done when it returns a database.\<close>

lemma Open_cases:
  assumes "env_documented e" and "Open e ws path options (files, r) = (res, files', r')"
  obtains (no_db) "r' = r" "res = Throws \<or> (\<exists>s. res = Returns (Inl s))"
  | (hangs) "res = Hangs"
  | (opened) fd ex st db s db' f where "res = Returns (Inr (db'\<lparr>writerThread := True\<rparr>))"
      "open_file e (walPath path) r = Inr fd" "holds st (r\<lparr>fds := fd # fds r\<rparr>) r'" "ringFd st \<ge> 0" "ringFd st \<noteq> fd"
      "fd \<ge> 0" "Create (oe_uring e) (uring_options options) (r\<lparr>fds := fd # fds r\<rparr>) = (Inr ex, r')"
      "db = (DB_new fd (Some ex) options)\<lparr>uringExecutorCreations := 1\<rparr>"
      "recover (oe_os e) (db, case files (walPath path) of None \<Rightarrow> \<lparr>content = [], stable = []\<rparr> | Some f \<Rightarrow> f) = (Some s, db', f)" "ok s"
      "files' (walPath path) = Some f" "kept db db'" "executor db' = Some st"
proof (cases "create_directories e path")
  case False
  then show thesis using assms(2) no_db by (auto simp: Open_def)
next
  case dirs: True
  show thesis
  proof (cases "open_file e (walPath path) r")
    case (Inl err)
    then show thesis using dirs assms(2) no_db by (auto simp: Open_def)
  next
    case (Inr fd)
    let ?r1 = "r\<lparr>fds := fd # fds r\<rparr>"
    have laws: "documented_setup (oe_uring e)" "documented_mmap (oe_uring e)" "documented_memory (os_kernel (oe_os e))"
      and fd: "fd \<ge> 0" using assms(1) Inr unfolding env_documented_def documented_open_def by blast+
    obtain cr r2 where c: "Create (oe_uring e) (uring_options options) ?r1 = (cr, r2)" by fastforce
    show thesis
      using laws(1,2) c
    proof (cases rule: Create_cases)
      case (failed s)
      then show thesis using dirs Inr c assms(2) no_db by (auto simp: Open_def close_fd_def)
    next
      case (created ex)
      let ?file = "case files (walPath path) of None \<Rightarrow> \<lparr>content = [], stable = []\<rparr> | Some f \<Rightarrow> f"
      define db where "db = (DB_new fd (Some ex) options)\<lparr>uringExecutorCreations := 1\<rparr>"
      obtain status db' f where rec: "recover (oe_os e) (db, ?file) = (status, db', f)" by (metis prod_cases3)
      have exdb: "executor db = Some ex" "walFd db = fd" by (simp_all add: db_def DB_new_def)
      have k: "kept db db'" by (rule recover_kept [OF laws(3) exdb(1) rec])
      then obtain st where st: "executor db' = Some st" "same_ring ex st" using exdb(1) by (auto simp: kept_def)
      have h: "holds st ?r1 r2" "ringFd st \<ge> 0" "ringFd st \<noteq> fd"
        using created st(2) holds_same [of ex ?r1 r2 st] by (auto simp: same_ring_def)
      have wal: "walFd db' = fd" using k exdb(2) by (simp add: kept_def control_fields_def)
      have run: "(res, files', r') = (case status of None \<Rightarrow> (Hangs, files(walPath path \<mapsto> f), r2)
          | Some s \<Rightarrow> if \<not> ok s
              then case DB_destroy (os_kernel (oe_os e)) ws Map.empty (db', r2) of
                     None \<Rightarrow> (Hangs, files(walPath path \<mapsto> f), r2)
                   | Some r \<Rightarrow> (Returns (Inl s), files(walPath path \<mapsto> f), r)
              else (Returns (Inr (db'\<lparr>writerThread := True\<rparr>)), files(walPath path \<mapsto> f), r2))"
        using assms(2) dirs Inr c created(1) rec by (simp add: Open_def db_def Let_def)
      show thesis
      proof (cases "\<exists>s. status = Some s \<and> ok s")
        case True
        then obtain s where "status = Some s" "ok s" by blast
        then show thesis
          using run rec st(1) h fd Inr c created(1) k by (intro opened [of db' fd st ex db s f]) (simp_all add: db_def)
      next
        case False
        then show thesis
          using run hangs no_db DB_destroy_releases [OF h fd st(1) wal]
          by (cases status) (auto split: option.splits if_splits)
      qed
    qed
  qed
qed

section \<open>The database in use keeps what it holds\<close>

definition ring_kept :: "DB \<Rightarrow> DB \<Rightarrow> bool" where
  "ring_kept db db' \<longleftrightarrow> walFd db' = walFd db \<and>
     (\<forall>st. executor db = Some st \<longrightarrow> (\<exists>st'. executor db' = Some st' \<and> same_ring st st'))"

lemma ring_kept_same: "walFd db' = walFd db \<Longrightarrow> executor db' = executor db \<Longrightarrow> ring_kept db db'"
  by (simp add: ring_kept_def)

lemma ring_kept_trans: "ring_kept a b \<Longrightarrow> ring_kept b c \<Longrightarrow> ring_kept a c"
  unfolding ring_kept_def by (metis same_ring_trans)

lemma submitLinked_kept:
  "submitLinked k (Some st) p q = (status, ex) \<Longrightarrow> \<exists>st'. ex = Some st' \<and> same_ring st st'"
  by (auto simp: submitLinked_def Let_def same_ring_def same_maps_def split: if_splits prod.splits)

lemma WritevAndFDataSync_kept:
  assumes "documented_memory k" and "WritevAndFDataSync k (Some st) f fd iovs off n = (res, ex, f')"
  shows "\<exists>st'. ex = Some st' \<and> same_ring st st'"
proof -
  obtain wa sa where a: "k_frame k = (wa, sa)" by fastforce
  define wop where "wop = \<lparr>op_sqe = sqe_zero\<lparr>opcode := IORING_OP_WRITEV, sqe_fd := fd, sqe_addr := Gather iovs,
     sqe_len := of_nat (length iovs), sqe_off := off\<rparr>, continuation = False, result = 0, op_data = []\<rparr>"
  define sop where "sop = \<lparr>op_sqe = sqe_zero\<lparr>opcode := IORING_OP_FSYNC, sqe_fd := fd, sqe_datasync := True\<rparr>,
     continuation = True, result = 0, op_data = []\<rparr>"
  obtain status ex1 where sub: "submitLinked k (Some st) (wa, wop) (sa, sop) = (status, ex1)" by fastforce
  then obtain st1 where st1: "ex1 = Some st1" "same_ring st st1" using submitLinked_kept by blast
  obtain ops st2 f2 where aw: "await_completion k st1 f [wa \<mapsto> wop, sa \<mapsto> sop] sa = (ops, st2, f2)" by (metis prod_cases3)
  have "same_ring st st2" using await_completion_kept [OF assms(1) aw] st1(2) same_ring_trans by blast
  moreover have "ex = Some st1 \<or> ex = Some st2"
    using assms(2) a sub st1(1) aw by (auto simp: WritevAndFDataSync_def Let_def wop_def sop_def split: if_splits)
  ultimately show ?thesis using st1(2) by blast
qed

text \<open>What a write group leaves alone.\<close>

lemma writeGroup_keeps:
  assumes "writeGroup os now bs (db, f) = (res, db', f')"
  obtains iovs off n sw f1 where "WritevAndFDataSync (os_kernel os) (executor db) f (walFd db) iovs off n = (sw, executor db', f1)"
    and "walFd db' = walFd db" and "writeGroups db' = writeGroups db"
    and "inlineWriterDrains db' = inlineWriterDrains db" and "writerThreadDrains db' = writerThreadDrains db"
proof -
  define scratch where "scratch = (writeScratch db)\<lparr>scratch_batches := bs,
     scratch_capacity := max (scratch_capacity (writeScratch db)) (length bs)\<rparr>"
  obtain rec' scratch' where enc: "encodeGroup os (nextSequence db) bs (walRecord db, scratch) = (rec', scratch')" by fastforce
  obtain sw ex f1 where w: "WritevAndFDataSync (os_kernel os) (executor db) f (walFd db)
     (gatherBuffers rec' scratch') (walOffset db) (frag_size rec') = (sw, ex, f1)" by (metis prod_cases3)
  have "walFd db' = walFd db" "executor db' = ex" "writeGroups db' = writeGroups db"
    "inlineWriterDrains db' = inlineWriterDrains db" "writerThreadDrains db' = writerThreadDrains db"
    using assms enc w
    by (auto simp: writeGroup_def scratch_def Let_def split: prod.splits option.splits if_splits)
  then show thesis using that w by blast
qed

lemma writeGroup_ring_kept:
  assumes "documented_memory (os_kernel os)" and "writeGroup os now bs (db, f) = (res, db', f')"
  shows "ring_kept db db'"
  using assms(2)
  by (rule writeGroup_keeps) (use WritevAndFDataSync_kept [OF assms(1)] in \<open>unfold ring_kept_def, metis\<close>)

lemma section_ring_kept:
  "enqueue_lock w db = (q, db') \<Longrightarrow> ring_kept db db'"
  "enqueue_finish w st (db, tab) = (db', tab') \<Longrightarrow> ring_kept db db'"
  "writer_lock db = (pc, db') \<Longrightarrow> ring_kept db db'"
  "writer_drain db = (pc, db') \<Longrightarrow> ring_kept db db'"
  "writer_finish grp st (db, tab) = (db', tab') \<Longrightarrow> ring_kept db db'"
  "ring_kept db (writer_resumed t0 t1 db)"
  by (auto simp: enqueue_lock_def enqueue_finish_def writer_lock_def writer_drain_def writer_finish_def writer_resumed_def Let_def
      split: if_splits prod.splits intro!: ring_kept_same)

lemma reaches_ring_kept:
  assumes "documented_memory (os_kernel os)" and "reaches os reqs s0 tr s"
  shows "ring_kept (s_db s0) (s_db s)"
  using assms(2)
proof induction
  case (env tr s s')
  from env.hyps(2) have "ring_kept (s_db s) (s_db s')"
    by cases (auto intro: section_ring_kept ring_kept_same)
  then show ?case using env.IH ring_kept_trans by blast
next
  case (engine tr s ev s')
  from engine.hyps(2) have "ring_kept (s_db s) (s_db s')"
    by cases (auto intro: section_ring_kept ring_kept_same writeGroup_ring_kept [OF assms(1)])
  then show ?case using engine.IH ring_kept_trans by blast
qed (simp add: ring_kept_same)

end
