(* ===== verification/Queue_Statistics.thy ===== *)
theory Queue_Statistics
  imports Queue_Progress DB_Lifecycle
begin

text \<open>
  The counters that \<open>DebugStatsForTest\<close> reports of the writer queue: how they follow the groups that are written.
\<close>

text \<open>A group is being written; a group has been written and is not yet counted.\<close>

definition is_writing :: "sys \<Rightarrow> bool" where
  "is_writing s \<longleftrightarrow> (\<exists>grp. s_thread s = InGroup grp) \<or> (\<exists>i. s_clients s i = InlineGroup)"

definition has_written :: "sys \<Rightarrow> bool" where
  "has_written s \<longleftrightarrow> (\<exists>grp st. s_thread s = Wrote grp st) \<or> (\<exists>i st. s_clients s i = InlineWrote st)"

definition drains :: "DB \<Rightarrow> u64" where
  "drains db = inlineWriterDrains db + writerThreadDrains db"

definition stat_inv :: "DB \<Rightarrow> trace \<Rightarrow> sys \<Rightarrow> bool" where
  "stat_inv db0 tr s \<longleftrightarrow>
     writeGroups (s_db s) + (if has_written s then 1 else 0) = writeGroups db0 + of_nat (length tr) \<and>
     drains (s_db s) = drains db0 + of_nat (length tr) + (if is_writing s then 1 else 0)"

text \<open>The owner is in one place.\<close>

lemma owner_client_phase:
  assumes "owner_inv s" and "client_owns (s_clients s i)"
  shows "is_writing s \<longleftrightarrow> s_clients s i = InlineGroup" and "has_written s \<longleftrightarrow> (\<exists>st. s_clients s i = InlineWrote st)"
proof -
  have t: "\<not> thread_owns (s_thread s)" and c: "\<And>j. client_owns (s_clients s j) \<Longrightarrow> j = i"
    using owner_client [OF assms] by blast+
  have "s_thread s \<noteq> InGroup grp" "s_thread s \<noteq> Wrote grp st" for grp st using t by auto
  moreover have "j = i" if "s_clients s j = InlineGroup \<or> s_clients s j = InlineWrote st" for j st
    using c [of j] that by auto
  ultimately show "is_writing s \<longleftrightarrow> s_clients s i = InlineGroup" and "has_written s \<longleftrightarrow> (\<exists>st. s_clients s i = InlineWrote st)"
    unfolding is_writing_def has_written_def by blast+
qed

lemma owner_thread_phase:
  assumes "\<And>j. \<not> client_owns (s_clients s j)"
  shows "is_writing s \<longleftrightarrow> (\<exists>grp. s_thread s = InGroup grp)" and "has_written s \<longleftrightarrow> (\<exists>grp st. s_thread s = Wrote grp st)"
proof -
  have "s_clients s j \<noteq> InlineGroup" "s_clients s j \<noteq> InlineWrote st" for j st using assms [of j] by auto
  then show "is_writing s \<longleftrightarrow> (\<exists>grp. s_thread s = InGroup grp)" and "has_written s \<longleftrightarrow> (\<exists>grp st. s_thread s = Wrote grp st)"
    by (simp_all add: is_writing_def has_written_def)
qed

lemma stat_same:
  assumes "stat_inv db0 tr s" and "writeGroups (s_db s') = writeGroups (s_db s)" and "drains (s_db s') = drains (s_db s)"
    and "is_writing s' = is_writing s" and "has_written s' = has_written s"
  shows "stat_inv db0 tr s'"
  using assms by (simp add: stat_inv_def)

lemma writeGroup_counters:
  assumes "writeGroup os now bs (db, f) = (res, db', f')"
  shows "writeGroups db' = writeGroups db" and "drains db' = drains db"
  using assms by (auto simp: drains_def elim!: writeGroup_keeps)

text \<open>A step that no owner takes.\<close>

lemma phase_same:
  assumes "\<And>j. client_owns (s_clients s j) \<or> client_owns (s_clients s' j) \<Longrightarrow> s_clients s' j = s_clients s j"
    and "thread_owns (s_thread s) \<or> thread_owns (s_thread s') \<Longrightarrow>
      s_thread s' = s_thread s \<or> (\<exists>m t. s_thread s' = Window m t) \<and> \<not> thread_owns (s_thread s)"
  shows "is_writing s' = is_writing s" and "has_written s' = has_written s"
proof -
  have c: "s_clients s' j = InlineGroup \<longleftrightarrow> s_clients s j = InlineGroup"
    "s_clients s' j = InlineWrote st \<longleftrightarrow> s_clients s j = InlineWrote st" for j st
    using assms(1) [of j] by (cases "s_clients s j"; cases "s_clients s' j"; auto)+
  have t: "s_thread s' = InGroup grp \<longleftrightarrow> s_thread s = InGroup grp" "s_thread s' = Wrote grp st \<longleftrightarrow> s_thread s = Wrote grp st" for grp st
    using assms(2) by (cases "s_thread s"; cases "s_thread s'"; auto)+
  show "is_writing s' = is_writing s" and "has_written s' = has_written s"
    by (simp_all add: is_writing_def has_written_def c t)
qed

lemma stat_idle_step:
  assumes "stat_inv db0 tr s" and "writeGroups (s_db s') = writeGroups (s_db s)" and "drains (s_db s') = drains (s_db s)"
    and "\<And>j. client_owns (s_clients s j) \<or> client_owns (s_clients s' j) \<Longrightarrow> s_clients s' j = s_clients s j"
    and "thread_owns (s_thread s) \<or> thread_owns (s_thread s') \<Longrightarrow>
      s_thread s' = s_thread s \<or> (\<exists>m t. s_thread s' = Window m t) \<and> \<not> thread_owns (s_thread s)"
  shows "stat_inv db0 tr s'"
  using stat_same [OF assms(1-3) phase_same [OF assms(4,5)]] .

lemma wake_owner: "thread_owns pc \<Longrightarrow> wake pc = pc"
  by (cases pc) simp_all

lemma stat_env:
  assumes "env_step reqs s s'" and "owner_inv s" and "owner_inv s'" and "stat_inv db0 tr s"
  shows "stat_inv db0 tr s'"
  using assms(1)
proof cases
  case (start_inline i wr db)
  have "\<not> writing (s_db s)" using start_inline by (auto simp: enqueue_lock_def Let_def split: if_splits)
  then have "\<not> is_writing s" "\<not> has_written s"
    using owner_thread_phase [of s] owner_free [OF assms(2)] by auto
  moreover have "is_writing s'" "\<not> has_written s'"
    using owner_client_phase [OF assms(3), of i] start_inline(1) by simp_all
  moreover have "writeGroups db = writeGroups (s_db s)" "drains db = drains (s_db s) + 1"
    using start_inline by (auto simp: enqueue_lock_def drains_def Let_def split: if_splits)
  ultimately show ?thesis using assms(4) start_inline(1) by (simp add: stat_inv_def)
next
  case (start_queued i wr db)
  have "writeGroups db = writeGroups (s_db s)" "drains db = drains (s_db s)"
    using start_queued by (auto simp: enqueue_lock_def drains_def Let_def split: if_splits)
  then show ?thesis
    by (intro stat_idle_step [OF assms(4)]) (use start_queued in \<open>auto simp: wake_owner split: if_splits\<close>)
qed (rule stat_idle_step [OF assms(4)]; auto simp: drains_def split: if_splits)+

lemma stat_engine:
  assumes "engine_step os s ev s'" and "owner_inv s" and "owner_inv s'" and "stat_inv db0 tr s"
  shows "stat_inv db0 (tr @ ev) s'"
  using assms(1)
proof cases
  case (inline_write i now st db f)
  have "is_writing s" "\<not> has_written s" using owner_client_phase [OF assms(2), of i] inline_write by simp_all
  moreover have "\<not> is_writing s'" "has_written s'" using owner_client_phase [OF assms(3), of i] inline_write by simp_all
  ultimately show ?thesis
    using assms(4) writeGroup_counters [OF inline_write(4)] inline_write(1,2) by (simp add: stat_inv_def)
next
  case (inline_finish i st db tab)
  have "\<not> is_writing s" "has_written s" using owner_client_phase [OF assms(2), of i] inline_finish by simp_all
  moreover have "\<not> is_writing s'" "\<not> has_written s'"
    using owner_thread_phase [of s'] owner_client [OF assms(2), of i] inline_finish by (auto split: if_splits)
  moreover have "writeGroups db = writeGroups (s_db s) + 1" "drains db = drains (s_db s)"
    using inline_finish by (auto simp: enqueue_finish_def drains_def)
  ultimately show ?thesis using assms(4) inline_finish(1,2) by (simp add: stat_inv_def)
next
  case (writer_go pc db)
  show ?thesis
  proof (cases "\<exists>grp. pc = InGroup grp")
    case True
    then have "\<not> client_owns (s_clients s j)" for j using assms(3) writer_go(2) by (auto simp: owner_inv_def)
    then have "\<not> is_writing s" "\<not> has_written s" "is_writing s'" "\<not> has_written s'"
      using owner_thread_phase [of s] owner_thread_phase [of s'] writer_go True by auto
    moreover have "writeGroups db = writeGroups (s_db s)" "drains db = drains (s_db s) + 1"
      using writer_go(5) True by (auto simp: writer_lock_def writer_drain_def drains_def Let_def split: if_splits)
    ultimately show ?thesis using assms(4) writer_go(1,2) by (simp add: stat_inv_def)
  next
    case False
    have "writeGroups db = writeGroups (s_db s)" "drains db = drains (s_db s)" "pc = Exited \<or> (\<exists>m t. pc = Window m t)"
      using writer_go(5) False by (auto simp: writer_lock_def writer_drain_def drains_def Let_def split: if_splits)
    then have "stat_inv db0 tr s'" by (intro stat_idle_step [OF assms(4)]) (use writer_go in auto)
    then show ?thesis using writer_go(1) by simp
  qed
next
  case (window_over m t pc db)
  then have "\<not> client_owns (s_clients s j)" for j using assms(2) by (auto simp: owner_inv_def)
  then have "\<not> is_writing s" "\<not> has_written s" "is_writing s'" "\<not> has_written s'"
    using owner_thread_phase [of s] owner_thread_phase [of s'] window_over by (auto simp: writer_drain_def)
  moreover have "writeGroups db = writeGroups (s_db s)" "drains db = drains (s_db s) + 1"
    using window_over by (auto simp: writer_drain_def drains_def)
  ultimately show ?thesis using assms(4) window_over(1,2) by (simp add: stat_inv_def)
next
  case (group_write grp now st db f)
  then have "\<not> client_owns (s_clients s j)" for j using assms(2) by (auto simp: owner_inv_def)
  then have "is_writing s" "\<not> has_written s" "\<not> is_writing s'" "has_written s'"
    using owner_thread_phase [of s] owner_thread_phase [of s'] group_write by auto
  then show ?thesis
    using assms(4) writeGroup_counters [OF group_write(4)] group_write(1,2) by (simp add: stat_inv_def)
next
  case (group_finish grp st db tab)
  then have "\<not> client_owns (s_clients s j)" for j using assms(2) by (auto simp: owner_inv_def)
  then have "\<not> is_writing s" "has_written s" "\<not> is_writing s'" "\<not> has_written s'"
    using owner_thread_phase [of s] owner_thread_phase [of s'] group_finish by auto
  moreover have "writeGroups db = writeGroups (s_db s) + 1" "drains db = drains (s_db s)"
    using group_finish by (auto simp: writer_finish_def drains_def Let_def split: if_splits prod.splits)
  ultimately show ?thesis using assms(4) group_finish(1,2) by (simp add: stat_inv_def)
next
  case (resume_one i "is")
  have "writing (s_db s') = writing (s_db s)" using resume_one(2) by simp
  then have "\<not> client_owns (s_clients s i)"
    using owner_client [OF assms(2), of i] owner_free [OF assms(3)] resume_one by (auto split: if_splits)
  then have "stat_inv db0 tr s'" by (intro stat_idle_step [OF assms(4)]) (use resume_one in \<open>auto split: if_splits\<close>)
  then show ?thesis using resume_one(1) by simp
next
  case (resume_end t0 t1)
  have "stat_inv db0 tr s'"
    by (intro stat_idle_step [OF assms(4)]) (use resume_end in \<open>auto simp: writer_resumed_def drains_def\<close>)
  then show ?thesis using resume_end(1) by simp
qed (simp, rule stat_idle_step [OF assms(4)]; auto simp: wake_owner split: if_splits)+

lemma reaches_stat_inv:
  assumes "queue_idle db" and "reaches os reqs (sys_new db f) tr s"
  shows "stat_inv db tr s"
  using assms(2)
proof induction
  case init
  then show ?case by (simp add: stat_inv_def is_writing_def has_written_def sys_new_def)
next
  case (env tr s s')
  have "owner_inv s" "owner_inv s'"
    using reaches_trace_inv [OF env(1) assms(1)] reaches_trace_inv [OF reaches.env [OF env(1,2)] assms(1)]
    by (simp_all add: queue_inv_def)
  then show ?case using stat_env [OF env(2)] env(3) by blast
next
  case (engine tr s ev s')
  have "owner_inv s" "owner_inv s'"
    using reaches_trace_inv [OF engine(1) assms(1)] reaches_trace_inv [OF reaches.engine [OF engine(1,2)] assms(1)]
    by (simp_all add: queue_inv_def)
  then show ?case using stat_engine [OF engine(2)] engine(3) by blast
qed

end
