(* ===== verification/Lifecycle_Properties.thy ===== *)
theory Lifecycle_Properties
  imports Queue_Statistics Queue_Properties Table_Properties
begin

text \<open>
  The properties of \<open>Open\<close>, of the destructor and of the completion thread, with the parameters instantiated by a small reference
  environment for the witnesses.
\<close>

section \<open>A reference environment\<close>

definition reference_params :: io_uring_params where
  "reference_params = \<lparr>par_sq_entries = 8, par_cq_entries = 8, par_single_mmap = True, sq_off_head = 0, sq_off_tail = 4,
     sq_off_ring_mask = 8, sq_off_ring_entries = 12, sq_off_flags = 16, sq_off_array = 64, cq_off_head = 20, cq_off_tail = 24,
     cq_off_ring_mask = 8, cq_off_ring_entries = 12, cq_off_cqes = 128\<rparr>"

definition reference_uring :: uring_env where
  "reference_uring = \<lparr>
     io_uring_setup = \<lambda>n flags r. if n \<le> 8 \<and> 5 \<notin> set (fds r) then Inr (5, reference_params) else Inl ''EINVAL'',
     mmap = \<lambda>n fd area r. let p = (if area = IORING_OFF_SQES then 8192 else 4096)
                           in if p \<notin> fst ` set (maps r) then Inr p else Inl ''ENOMEM'',
     word_at = \<lambda>a. if a = 4104 then 7 else if a = 4108 then 8 else 0,
     array_at = \<lambda>_. replicate 8 0,
     cqes_at = \<lambda>_. replicate 8 \<lparr>cqe_user_data = 0, cqe_res = 0, cqe_data = []\<rparr>,
     sqes_at = \<lambda>_. replicate 8 sqe_zero\<rparr>"

definition reference_env :: open_env where
  "reference_env = \<lparr>oe_os = reference_os, oe_uring = reference_uring, create_directories = \<lambda>_. True,
     open_file = \<lambda>_ r. if 3 \<in> set (fds r) then Inl ''EMFILE'' else Inr 3\<rparr>"

lemma reference_env_simps [simp]:
  "oe_os reference_env = reference_os" "oe_uring reference_env = reference_uring" "create_directories reference_env p"
  "open_file reference_env p r = (if 3 \<in> set (fds r) then Inl ''EMFILE'' else Inr 3)"
  by (simp_all add: reference_env_def)

lemma post_cqe_same_ring: "same_ring st (post_cqe st c)"
  by (simp add: same_ring_def same_maps_def post_cqe_def)

lemma reference_fold_same_ring:
  "same_ring st (fst (foldl (\<lambda>(st, file) e. let (c, file) = execute cap eio e file in (post_cqe st c, file)) (st, f) es))"
proof (induction es arbitrary: st f)
  case (Cons e es)
  obtain c f1 where "execute cap eio e f = (c, f1)" by fastforce
  then show ?case using Cons.IH [of "post_cqe st c" f1] same_ring_trans [OF post_cqe_same_ring] by simp
qed simp

lemma documented_memory_reference: "documented_memory reference_kernel"
proof -
  have "same_ring st (fst (reference_run cap eio st f))" for cap eio st f
    using reference_fold_same_ring [of st cap eio f "sq_pending st"]
    by (auto simp: reference_run_def same_ring_def same_maps_def split: prod.splits)
  then show ?thesis by (simp add: documented_memory_def reference_kernel_def capped_kernel_def faulty_kernel_def)
qed

lemma reference_env_documented: "env_documented reference_env"
  using documented_memory_reference
  by (auto simp: env_documented_def documented_setup_def documented_mmap_def documented_open_def reference_uring_def Let_def
      split: if_splits)

lemma reference_ring_documented: "documented_ring reference_uring"
proof -
  have "new_ring_at reference_uring reference_params n 4096 4096 8192" if "n \<le> 8" for n
    unfolding new_ring_at_def using that
    by (intro exI [of _ 3]) (simp add: reference_uring_def reference_params_def)
  then show ?thesis
    by (auto simp: documented_ring_def mapped_def reference_uring_def reference_params_def Let_def split: if_splits)
qed

definition no_resources :: resources where
  "no_resources = \<lparr>fds = [], maps = [], misuse = False\<rparr>"

section \<open>Opening\<close>

text \<open>The log file that \<open>Open\<close> finds, or creates.\<close>

definition wal_at :: "(string \<Rightarrow> wal_file option) \<Rightarrow> string \<Rightarrow> wal_file" where
  "wal_at files path = (case files (walPath path) of None \<Rightarrow> \<lparr>content = [], stable = []\<rparr> | Some f \<Rightarrow> f)"

lemma opened_fresh:
  assumes "env_documented e" and "documented_ring (oe_uring e)" and "2 \<le> opt_uringEntries options"
    and "Create (oe_uring e) (uring_options options) r = (Inr ex, r')"
  shows "fresh_db ((DB_new fd (Some ex) options)\<lparr>uringExecutorCreations := 1\<rparr>)"
proof -
  have laws: "documented_setup (oe_uring e)" "documented_mmap (oe_uring e)"
    using assms(1) by (simp_all add: env_documented_def)
  obtain status ex' where i: "uring_init (oe_uring e) (uring_options options) r = (status, ex', r')" "ok status" "ex = the ex'"
    using assms(4) by (auto simp: Create_def split: prod.splits if_splits)
  have "2 \<le> uopt_entries (uring_options options)" using assms(3) by (simp add: uring_options_def)
  from created_ring_idle [OF laws assms(2) i(1,2) this] i(3)
  have "executor_ready (Some ex)" by auto
  then show ?thesis by (simp add: fresh_db_def DB_new_def WriteGroupScratch_new_def)
qed

text \<open>
  What \<open>Open\<close> finds on the disk: a log of committed records and any bytes behind it; in particular nothing, or the torn start of
  one more record.
\<close>

definition log_and_tail :: "(string \<Rightarrow> wal_file option) \<Rightarrow> string \<Rightarrow> (u64 \<times> Entry list) list \<Rightarrow> bytes \<Rightarrow> bool" where
  "log_and_tail files path log tail \<longleftrightarrow>
     content (wal_at files path) = log_bytes log @ tail \<and> stable (wal_at files path) = content (wal_at files path) \<and>
     (\<forall>r \<in> set log. record_wf r) \<and> length (content (wal_at files path)) \<le> max_rw_count"

definition torn_tail :: "bytes \<Rightarrow> bool" where
  "torn_tail tail \<longleftrightarrow> tail = [] \<or> (\<exists>r. record_wf r \<and> strict_prefix tail (encode_record r))"

lemma torn_tail_scan: "cpu_documented c \<Longrightarrow> torn_tail tail \<Longrightarrow> wal_scan c tail = Inr ([], 0)"
  unfolding torn_tail_def using scan_tail by blast

text \<open>
  A documented environment in which a read that covers a log of at most \<open>0x7ffff000\<close> bytes returns all of it when it succeeds. Every
  call may still fail.
\<close>

definition env_trusted :: "open_env \<Rightarrow> bool" where
  "env_trusted e \<longleftrightarrow> env_documented e \<and> documented_ring (oe_uring e) \<and> os_documented (oe_os e) \<and>
     never_short (os_kernel (oe_os e))"

lemma Open_recovers:
  assumes "env_trusted e" and "2 \<le> opt_uringEntries options" and "log_and_tail files path log tail"
    and "Open e ws path options (files, r) = (Returns (Inr db), files', r')"
  shows "\<exists>f extra m. files' (walPath path) = Some f \<and>
      wal_scan (os_cpu (oe_os e)) tail = Inr (map decoded_batch extra, m) \<and>
      recovered (oe_os e) (log @ extra) (length (log_bytes log) + m) db \<and>
      content f = log_bytes log @ take m tail \<and> stable f = content f"
    and "queue_idle db" and "writerThread db"
proof -
  have env: "env_documented e" "documented_ring (oe_uring e)" "os_documented (oe_os e)" "never_short (os_kernel (oe_os e))"
    using assms(1) by (simp_all add: env_trusted_def)
  have disk: "content (wal_at files path) = log_bytes log @ tail" "stable (wal_at files path) = content (wal_at files path)"
    "\<forall>r \<in> set log. record_wf r" "length (content (wal_at files path)) \<le> max_rw_count"
    using assms(3) unfolding log_and_tail_def by blast+
  have "(\<exists>f extra m. files' (walPath path) = Some f \<and>
      wal_scan (os_cpu (oe_os e)) tail = Inr (map decoded_batch extra, m) \<and>
      recovered (oe_os e) (log @ extra) (length (log_bytes log) + m) db \<and>
      content f = log_bytes log @ take m tail \<and> stable f = content f) \<and> queue_idle db \<and> writerThread db"
    using env(1) assms(4)
  proof (cases rule: Open_cases)
    case (opened fd ex st db0 s db' f)
    have "fresh_db db0" using opened_fresh [OF env(1,2) assms(2) opened(7)] opened(8) by simp
    from recover_log(1) [OF env(3) this disk opened(9) [folded wal_at_def] refl opened(10) env(4)]
    obtain extra m where rec: "wal_scan (os_cpu (oe_os e)) tail = Inr (map decoded_batch extra, m)"
      "recovered (oe_os e) (log @ extra) (length (log_bytes log) + m) db'"
      "content f = log_bytes log @ take m tail" "stable f = content f" by blast
    have "recovered (oe_os e) (log @ extra) (length (log_bytes log) + m) db" using rec(2) opened(1) by (simp add: recovered_def)
    moreover have "queue_idle db'" using opened(8,12) by (simp add: kept_def control_fields_def queue_idle_def DB_new_def)
    then have "queue_idle db" "writerThread db" using opened(1) by (simp_all add: queue_idle_def)
    ultimately show ?thesis using opened(11) rec by auto
  qed auto
  then show "\<exists>f extra m. files' (walPath path) = Some f \<and>
      wal_scan (os_cpu (oe_os e)) tail = Inr (map decoded_batch extra, m) \<and>
      recovered (oe_os e) (log @ extra) (length (log_bytes log) + m) db \<and>
      content f = log_bytes log @ take m tail \<and> stable f = content f"
    and "queue_idle db" and "writerThread db" by simp_all
qed

lemma Open_restores:
  assumes "env_trusted e" and "2 \<le> opt_uringEntries options" and "log_and_tail files path log tail" and "torn_tail tail"
    and "Open e ws path options (files, r) = (Returns (Inr db), files', r')"
  shows "\<exists>f. files' (walPath path) = Some f \<and> content f = log_bytes log \<and> stable f = log_bytes log \<and> db_inv (oe_os e) log (db, f)"
    and "executor_ready (executor db)" and "queue_idle db" and "writerThread db"
proof -
  note opened = Open_recovers [OF assms(1-3,5)]
  have "cpu_documented (os_cpu (oe_os e))" using assms(1) by (simp add: env_trusted_def os_documented_def)
  note scan = torn_tail_scan [OF this assms(4)]
  have wf: "\<forall>r \<in> set log. record_wf r" and "length (log_bytes log) < 2 ^ 64"
    using assms(3) by (auto simp: log_and_tail_def max_rw_count_def)
  from opened(1) scan obtain f where f: "files' (walPath path) = Some f" "recovered (oe_os e) log (length (log_bytes log)) db"
    "content f = log_bytes log" "stable f = content f" by auto
  from recovered_db_inv [OF f(2-4) wf \<open>length (log_bytes log) < 2 ^ 64\<close>] f
  show "\<exists>f. files' (walPath path) = Some f \<and> content f = log_bytes log \<and> stable f = log_bytes log \<and> db_inv (oe_os e) log (db, f)"
    and "executor_ready (executor db)" by (auto simp: recovered_def)
  show "queue_idle db" and "writerThread db" by (rule opened)+
qed

lemma Open_succeeds:
  assumes "env_trusted e" and "2 \<le> opt_uringEntries options" and "log_and_tail files path log []"
    and "create_directories e path" and "open_file e (walPath path) r = Inr fd"
    and "Create (oe_uring e) (uring_options options) (r\<lparr>fds := fd # fds r\<rparr>) = (Inr ex, r1)"
    and "os_fstat (oe_os e) (wal_at files path) = Inr (length (content (wal_at files path)))"
    and "enter_accepts (os_kernel (oe_os e))" and "full_reads (os_kernel (oe_os e))"
  shows "\<exists>db files'. Open e ws path options (files, r) = (Returns (Inr db), files', r1)"
proof -
  have env: "env_documented e" "documented_ring (oe_uring e)" "os_documented (oe_os e)"
    using assms(1) by (simp_all add: env_trusted_def)
  have disk: "content (wal_at files path) = log_bytes log @ []" "stable (wal_at files path) = content (wal_at files path)"
    "\<forall>r \<in> set log. record_wf r" "length (content (wal_at files path)) \<le> max_rw_count"
    using assms(3) unfolding log_and_tail_def by blast+
  define db where "db = (DB_new fd (Some ex) options)\<lparr>uringExecutorCreations := 1\<rparr>"
  obtain status db' f where run: "recover (oe_os e) (db, wal_at files path) = (status, db', f)" by (metis prod_cases3)
  have "fresh_db db" using opened_fresh [OF env(1,2) assms(2,6)] by (simp add: db_def)
  from recover_log(2) [OF env(3) this disk run assms(8,9,7) refl] have "status = Some Ok" .
  then show ?thesis
    using assms(4-6) run by (auto simp: Open_def wal_at_def db_def Let_def)
qed

text \<open>Opening a directory in the reference environment.\<close>

lemma reference_env_trusted: "env_trusted reference_env"
  using reference_env_documented reference_ring_documented by (simp add: env_trusted_def)

lemma two_entries: "2 \<le> opt_uringEntries Options_new"
  by (simp add: Options_new_def)

lemma no_log: "log_and_tail Map.empty path [] []" "torn_tail []"
  by (simp_all add: log_and_tail_def torn_tail_def wal_at_def)

lemma sample_open:
  assumes "log_and_tail files ''db'' log []"
  obtains db files' r where "Open reference_env [] ''db'' Options_new (files, no_resources) = (Returns (Inr db), files', r)"
proof -
  obtain ex r where "Create (oe_uring reference_env) (uring_options Options_new) (no_resources\<lparr>fds := 3 # fds no_resources\<rparr>) = (Inr ex, r)"
    by (simp add: Create_def uring_init_def reference_uring_def reference_params_def uring_options_def Options_new_def
        init_maps_def init_sizes_def map_area_def no_resources_def Let_def)
  from Open_succeeds [OF reference_env_trusted two_entries assms _ _ this] that
  show thesis by (auto simp: no_resources_def)
qed

text \<open>
  C8: whatever directory \<open>Open\<close> is called on, with a log of committed records and possibly the torn start of one more, or with no
  log at all, a database it returns holds exactly the committed records, the torn bytes are cut off the file and the disk, the executor
  is idle, the queue is empty and the writer thread runs. The log has at most \<open>0x7ffff000\<close> bytes, the ring at least two entries, and
  the kernel returns no short reads of such a log. Without torn bytes it does return a database if the directories, the file and the ring can be had,
  \<open>fstat\<close> succeeds, and the kernel accepts the submission and reads the whole log; every one of these calls may fail otherwise.
\<close>

theorem open_restores_the_database:
  assumes "env_trusted e" and "2 \<le> opt_uringEntries options" and "log_and_tail files path log torn" and "torn_tail torn"
    and "Open e ws path options (files, r) = (res, files', r')"
  shows "(\<forall>db. res = Returns (Inr db) \<longrightarrow>
       (\<exists>f. files' (walPath path) = Some f \<and> content f = log_bytes log \<and> stable f = log_bytes log \<and>
          db_inv (oe_os e) log (db, f)) \<and>
       executor_ready (executor db) \<and> queue_idle db \<and> writerThread db) \<and>
    (\<forall>fd ex r1. torn = [] \<longrightarrow> create_directories e path \<longrightarrow> open_file e (walPath path) r = Inr fd \<longrightarrow>
       Create (oe_uring e) (uring_options options) (r\<lparr>fds := fd # fds r\<rparr>) = (Inr ex, r1) \<longrightarrow>
       os_fstat (oe_os e) (wal_at files path) = Inr (length (content (wal_at files path))) \<longrightarrow>
       enter_accepts (os_kernel (oe_os e)) \<longrightarrow> full_reads (os_kernel (oe_os e)) \<longrightarrow> (\<exists>db. res = Returns (Inr db)))"
proof (intro conjI allI impI)
  fix db
  assume "res = Returns (Inr db)"
  note opened = Open_restores [OF assms(1-4) assms(5) [unfolded this]]
  show "\<exists>f. files' (walPath path) = Some f \<and> content f = log_bytes log \<and> stable f = log_bytes log \<and> db_inv (oe_os e) log (db, f)"
    and "executor_ready (executor db)" and "queue_idle db" and "writerThread db" by (rule opened)+
next
  fix fd ex r1
  assume "torn = []" "create_directories e path" "open_file e (walPath path) r = Inr fd"
    "Create (oe_uring e) (uring_options options) (r\<lparr>fds := fd # fds r\<rparr>) = (Inr ex, r1)"
    "os_fstat (oe_os e) (wal_at files path) = Inr (length (content (wal_at files path)))"
    "enter_accepts (os_kernel (oe_os e))" "full_reads (os_kernel (oe_os e))"
  then show "\<exists>db. res = Returns (Inr db)"
    using Open_succeeds [OF assms(1,2), of files path log r fd ex r1 ws] assms(3,5) by auto
qed

theorem open_restores_the_database_witness:
  "\<exists>db files r. Open reference_env [] ''db'' Options_new (Map.empty, no_resources) = (Returns (Inr db), files, r) \<and>
     queue_idle db \<and> executor_ready (executor db) \<and> (\<exists>f. db_inv reference_os [] (db, f))"
proof -
  obtain db files r where run: "Open reference_env [] ''db'' Options_new (Map.empty, no_resources) = (Returns (Inr db), files, r)"
    by (rule sample_open [OF no_log(1)])
  from open_restores_the_database [OF reference_env_trusted two_entries no_log run] run show ?thesis by auto
qed

section \<open>Closing\<close>



section \<open>The completion thread\<close>

text \<open>
  C22: through any sequence of wake-ups, with interruptions and failing calls among them, the completion thread resumes the
  continuations of the completions, each once and in the order of completion, never touches a dangling frame, and returns when it is
  told to stop.
\<close>

theorem completion_thread_serves_until_stopped:
  assumes "quiet_ring st" and "\<forall>w \<in> set ws. serves ops (length (cqes st)) w" and "cqe_user_data c = 0"
  shows "\<exists>st' ops'. completionLoop (ws @ [StopStored, Completions [c]]) st ops [] =
    (Returned, st', ops', map cqe_user_data (filter (resumes ops) (delivered ws)))"
proof -
  obtain st1 ops1 where st1: "quiet_ring st1"
    and "\<forall>rest. completionLoop (ws @ rest) st ops [] =
      completionLoop rest st1 ops1 ([] @ map cqe_user_data (filter (resumes ops) (delivered ws)))"
    using completionLoop_serves [OF assms(1,2)] by blast
  then show ?thesis using completionLoop_stops [OF st1 assms(3)] by fastforce
qed

theorem completion_thread_serves_until_stopped_witness:
  "\<exists>st' ops'. completionLoop ([Interrupted, Completions [\<lparr>cqe_user_data = 64, cqe_res = 5, cqe_data = []\<rparr>]] @
        [StopStored, Completions [\<lparr>cqe_user_data = 0, cqe_res = 0, cqe_data = []\<rparr>]]) fresh_ring
      [64 \<mapsto> \<lparr>op_sqe = sqe_zero, continuation = True, result = 0, op_data = []\<rparr>] [] = (Returned, st', ops', [64])"
proof -
  have "quiet_ring fresh_ring"
    using idle_fresh_ring by (simp add: quiet_ring_def idle_def cq_pending_def del: idle_fresh_ring)
  from completion_thread_serves_until_stopped [OF this, of
      "[Interrupted, Completions [\<lparr>cqe_user_data = 64, cqe_res = 5, cqe_data = []\<rparr>]]"
      "[64 \<mapsto> \<lparr>op_sqe = sqe_zero, continuation = True, result = 0, op_data = []\<rparr>]"
      "\<lparr>cqe_user_data = 0, cqe_res = 0, cqe_data = []\<rparr>"]
  show ?thesis by (simp add: waiting_def resumes_def)
qed

section \<open>Statistics\<close>

text \<open>
  C26: the statistics are right whenever no group is being written: since the database was opened the group counter has grown by the number of
  groups that were written, whoever wrote them, and so have together the two counters of the groups written by callers and by the writer
  thread; the number of entries is the number of distinct keys in the table, deleted ones included.
\<close>

theorem statistics_count_groups_and_keys:
  assumes "queue_idle db" and "reaches os reqs (sys_new db f) tr s" and "\<not> writing (s_db s)"
    and "mem_wf (os_hash os) (memtable (s_db s))"
  shows "let stats0 = DB_DebugStatsForTest bc db; stats = DB_DebugStatsForTest bc (s_db s)
    in ds_writeGroups stats = ds_writeGroups stats0 + of_nat (length tr) \<and>
       ds_inlineWriterDrains stats + ds_writerThreadDrains stats =
         ds_inlineWriterDrains stats0 + ds_writerThreadDrains stats0 + of_nat (length tr) \<and>
       ds_memtableEntries stats = card (dom (mem_lookup (os_hash os) (memtable (s_db s))))"
proof -
  have "owner_inv s" using reaches_trace_inv [OF assms(2,1)] by (simp add: queue_inv_def)
  then have "\<not> is_writing s" "\<not> has_written s"
    using owner_thread_phase [of s] owner_free [of s] assms(3) by auto
  then show ?thesis
    using reaches_stat_inv [OF assms(1,2)] stats_count_keys [OF assms(4), of bc]
    by (simp add: DB_DebugStatsForTest_def Let_def stat_inv_def drains_def)
qed

theorem statistics_count_groups_and_keys_witness:
  "\<exists>s. reaches reference_os [sample_batch] (sys_new new_db empty_file) [([0], Ok)] s \<and>
     ds_writeGroups (DB_DebugStatsForTest (\<lambda>_. 0) (s_db s)) = 1"
proof -
  obtain s where s: "reaches reference_os [sample_batch] (sys_new new_db empty_file) [([0], Ok)] s" "\<not> writing (s_db s)"
    using sample_run_from [OF queue_idle_new_db db_inv_new_db new_db_simps(2)] by auto
  obtain log where "db_inv reference_os log (s_db s, s_file s)"
    using reaches_store_inv [OF reference_os_documented sample_requests_fit queue_idle_new_db db_inv_new_db new_db_simps(2) s(1)]
    by (auto simp: store_inv_def accepted_def)
  then have "mem_wf (os_hash reference_os) (memtable (s_db s))" by (simp add: db_inv_def)
  from statistics_count_groups_and_keys [OF queue_idle_new_db s this, of "\<lambda>_. 0"] s
  show ?thesis by (auto simp: Let_def DB_DebugStatsForTest_def new_db_def DB_new_def)
qed

end
