(* ===== verification/Spec2Isabelle.thy ===== *)
theory Spec2Isabelle
  imports Log_Properties Table_Properties Device_Properties DB_Properties Queue_Properties Task_Coroutine Lifecycle_Properties
begin

text \<open>
  A verification development for the storage engine under \<open>src/\<close>: a key-value database whose writes go to a log (WAL) on disk before
  they enter a table in memory, and whose content is rebuilt from the log when it is opened.

  \<^bold>\<open>The program.\<close> A caller's \<open>Put\<close>, \<open>Delete\<close> or \<open>Write\<close> becomes a \<open>WriteBatch\<close> in a coroutine (\<open>task.h\<close>). It is written at once by the calling
  thread if nobody writes, and is queued for the writer thread otherwise, which takes all queued batches as one group (\<open>db.cc\<close>). A group is
  encoded as one record with a checksum (\<open>wal.cc\<close>), written and synced by two linked \<open>io_uring\<close> operations (\<open>uring_executor.cc\<close>), and
  only then applied to the sharded table (\<open>memtable.cc\<close>); the callers get the status of their group. \<open>Open\<close> decodes the log, replays its
  records, cuts a torn last record off, and starts the writer thread.

  \<^bold>\<open>The theories\<close>, each with the file it models:
  \<^item> \<open>SE_Prelude\<close>: machine types, fact collections and shared lemmas. \<open>Byte_Codec\<close>: \<open>common.h\<close>, \<open>common.cc\<close>. \<open>Status_Result\<close>: \<open>status.h\<close>; a \<open>Result\<close> is a
    sum of a status and a value. \<open>Write_Batch\<close>: \<open>write_batch.cc\<close>.
  \<^item> \<open>Crc32c\<close>, \<open>Wal_Format\<close>, \<open>Wal_Decode\<close>: the checksum routines, both encoders and the decoder of \<open>wal.cc\<close>. \<open>Framed_Log\<close> is the interface of a log whose
    records are delivered one at a time; the decoder is an instance for every documented processor.
  \<^item> \<open>Kv_Table\<close>, \<open>Mem_Table\<close>: the contract of a table and \<open>memtable.cc\<close>, which fulfils it. \<open>Mem_Concurrent\<close>: \<open>ApplyBatches\<close> and
    concurrent \<open>Get\<close>s as interleaved steps that wait for, hold and release the locks of the shards.
  \<^item> \<open>Uring_Executor\<close>: the rings, submission, the completion loop's walk and the three operations of \<open>uring_executor.cc\<close>; the ring indices are 32-bit
    words that wrap. \<open>Uring_Completion\<close>: what a documented kernel makes of an operation. \<open>Uring_Kernel\<close>: a reference kernel, which can be made to read short or to fail its syncs. \<open>Wal_Device\<close>: the
    contract of a device for the write path, three locales from weak to strong, interpreted on the executor.
  \<^item> \<open>Uring_Lifecycle\<close>: \<open>init\<close>, \<open>Create\<close>, \<open>closeRing\<close>, the completion thread and the statistics of \<open>uring_executor.cc\<close>, with the descriptors and
    mappings the process holds as explicit state.
  \<^item> \<open>DB_State\<close>, \<open>DB_Core\<close>: the fields of \<open>DB\<close>, \<open>writeGroup\<close>, \<open>recover\<close> and \<open>Get\<close> of \<open>db.cc\<close>, and the invariant \<^const>\<open>db_inv\<close>: the table is what the
    log says, the log is intact in the file and on the disk, and the offset stands behind it.
  \<^item> \<open>Writer_Queue\<close>: \<open>enqueueAsyncWriter\<close>, \<open>writerLoop\<close>, \<open>WriteAwaiter\<close> and the destructor's join, one function for each section under the mutex,
    composed by the step relations \<^const>\<open>env_step\<close> (what callers do) and \<^const>\<open>engine_step\<close> (what the database does). \<open>Queue_Safety\<close> and
    \<open>Queue_Progress\<close> prove its invariants and the measure for progress, \<open>Queue_Statistics\<close> what its counters count. \<open>DB_Api\<close>: the public operations.
  \<^item> \<open>DB_Lifecycle\<close>: \<open>Open\<close>, the destructor and \<open>DebugStatsForTest\<close> of \<open>db.cc\<close>. \<open>Task_Coroutine\<close>: \<open>task.h\<close>, ownership of frames and \<open>run\<close>.
  \<^item> \<open>Log_Properties\<close>, \<open>Table_Properties\<close>, \<open>Device_Properties\<close>, \<open>DB_Properties\<close>, \<open>Queue_Properties\<close>, \<open>Lifecycle_Properties\<close> and this theory state the
    properties, each with an instance at concrete inputs.

  \<^bold>\<open>What is shown.\<close> Both encoders agree and the decoder inverts them; damage of up to four payload bytes is noticed; the two checksum
  routines agree. Applying a group shard by shard is applying its entries in order, and concurrent readers see each key before or behind it. An acknowledged write is on the disk; a failed one
  changes nothing. Callers exclude each other around \<open>writeGroup\<close>, each request is written at most once and answered with the status of its group,
  nobody waits forever, and closing drains the queue. Descriptors and mappings are balanced. A database reopened
  after a power failure has all acknowledged groups in order, and behind them only what the decoder finds in the bytes behind the log. That is
  nothing if no group has failed and the disk holds what the run left, or if only the torn start of a record is there; but the record of a group that failed,
  or was being written when the power went, may be there as a whole. Some properties are about what the code does not do: a
  failed group that reappears, bytes of a failed group that block reopening, a short read in recovery, a zero-filled tail, entries left in
  the ring by a failed \<open>io_uring_enter\<close>, a ring with one entry, and a frame that \<open>run\<close> may destroy while the finishing thread still uses it.

  \<^bold>\<open>Parameters and what is assumed of them.\<close> Code outside the repository is an argument of the definitions: the CRC instructions
  (\<^const>\<open>cpu_documented\<close>), the kernel side of \<open>io_uring\<close> (\<^const>\<open>kernel_documented\<close>: it consumes what is queued and posts a completion for each
  entry, a write reports how much of its bytes reached the file, a sync that succeeds makes the file stable), \<open>fstat\<close> and \<open>ftruncate\<close>
  (\<^const>\<open>os_documented\<close>), \<open>io_uring_setup\<close>, \<open>mmap\<close> and \<open>open\<close> (\<^const>\<open>env_documented\<close>), \<open>std::hash\<close> and the clock (nothing). A documented kernel may refuse
  a submission and may read less than was asked for, and the code does not cope with either; where a property needs more, it says so:
  \<^item> \<^const>\<open>enter_accepts\<close>, no submission is refused: the liveness of the queue, and every statement that a call succeeds. That the content is that
    of the acknowledged groups, while the database runs and after it is reopened, asks for it or that no group before the last one has failed.
  \<^item> \<^const>\<open>never_short\<close>, a read that covers a log of at most \<open>0x7ffff000\<close> bytes returns all of it if it succeeds: everything about the result of
    recovery, which is therefore about logs of at most that size; \<^const>\<open>full_reads\<close>, such a read succeeds: that recovery does.
  \<^item> \<^const>\<open>full_writes\<close>, a write of at most that size is complete and its sync succeeds: that a write succeeds. \<^const>\<open>sync_fails\<close>: a write is complete and
    its sync reports an error, for the two properties about such a failure.

  A file has a content and a stable part; a power failure leaves the stable part up to the end of the log, and behind it anything.

  \<^bold>\<open>Bounds.\<close> No definition has fuel: loops are structural or have a termination proof, the completion thread runs over the list of its wake-ups, and an
  operation that never completes is \<^const>\<open>None\<close>. Sizes of records are bounded where the code cuts them to 32 bits, offsets of the log to 64 bits.

  \<^bold>\<open>Abstractions.\<close> A section under a mutex is one step, and so is \<open>writeGroup\<close>, which only the owner of \<open>writing_\<close> runs; a power
  failure inside it is covered because the bytes behind the log are then arbitrary. The timed wait of the group
  commit window may end at any moment. Relaxed counters are ordinary fields. What a caller's coroutine does when the writer thread resumes it is up to
  the caller and taken to return; further requests it makes are requests like any other.

  \<^bold>\<open>Not modelled.\<close> The polymorphic
  allocator of \<open>WriteBatch\<close>; exceptions of the standard library (\<open>bad_alloc\<close>, thread creation) apart from that of \<open>create_directories\<close>; the completion
  thread is interleaved with the waiting coroutine only at its wake-ups. The tests and the benchmarks are drivers
  around the public interface, with argument parsing, timing and printing.
\<close>

section \<open>Open, concurrent requests, a power failure, and open again\<close>



end
